(* ===== verification/Prelude.thy ===== *)
theory Prelude
  imports Main "HOL-Library.Word"
begin

text \<open>
  Shared vocabulary of the development: the machine types of the Go source, the error
  values of \<^verbatim>\<open>errors.go\<close> and of the packages it builds on, the result type of a Go
  function that may fail or panic, checked slice operations, and the automation
  collections the component theories use.

  A Go \<^verbatim>\<open>byte\<close> is \<open>8 word\<close>, \<^verbatim>\<open>uint16\<close>, \<^verbatim>\<open>uint32\<close> and \<^verbatim>\<open>uint64\<close> are words of their
  width.  A Go string is a sequence of bytes, so \<open>gostring\<close> is a list of bytes.  Lengths
  and slice positions are \<open>nat\<close>; file offsets (\<^verbatim>\<open>int64\<close>) are \<open>int\<close>: they are sums and
  products of unsigned fields of at most 32 bits, and \<open>device_offset_fits\<close> in theory
  ReadImage shows that they stay inside 63 bits.
\<close>

section \<open>Types\<close>

type_synonym byte = "8 word"
type_synonym u16 = "16 word"
type_synonym u32 = "32 word"
type_synonym u64 = "64 word"
type_synonym gostring = "byte list"

text \<open>An ASCII literal of the source as a Go string.\<close>

definition str :: "string \<Rightarrow> gostring" where
  "str s = map of_char s"

lemma length_str [simp]: "length (str s) = length s"
  by (simp add: str_def)

text \<open>The conversion \<^verbatim>\<open>byte(n)\<close>, kept folded so that sums inside it are not distributed.\<close>

definition byte_of_nat :: "nat \<Rightarrow> byte" where
  "byte_of_nat n = of_nat n"

lemma unat_byte_of_nat: "unat (byte_of_nat n) = n mod 256"
  by (simp add: byte_of_nat_def unat_of_nat)

lemma unat_byte_of_nat_small [simp]: "n < 256 \<Longrightarrow> unat (byte_of_nat n) = n"
  by (simp add: unat_byte_of_nat)

lemma byte_of_nat_unat [simp]: "byte_of_nat (unat b) = b"
  by (simp add: byte_of_nat_def)

lemma byte_bound: "unat (b :: byte) < 256"
proof -
  have "unat b < 2 ^ LENGTH(8)" by (rule unsigned_less)
  then show ?thesis by simp
qed

lemma u16_bound: "unat (w :: u16) < 65536"
proof -
  have "unat w < 2 ^ LENGTH(16)" by (rule unsigned_less)
  then show ?thesis by simp
qed

lemma u32_bound: "unat (w :: u32) < 4294967296"
proof -
  have "unat w < 2 ^ LENGTH(32)" by (rule unsigned_less)
  then show ?thesis by simp
qed

lemma int_u32_bound: "int (unat (w :: u32)) < 4294967296"
  using u32_bound [of w] by linarith

lemma unat_ucast_16_32 [simp]: "unat (ucast (w :: u16) :: u32) = unat w"
  using u16_bound [of w] by (simp add: unsigned_ucast_eq take_bit_nat_eq_self)

section \<open>Errors\<close>

text \<open>
  The sentinel values: those declared in \<^verbatim>\<open>errors.go\<close>, and the sentinels of
  \<^verbatim>\<open>io/fs\<close>, \<^verbatim>\<open>io\<close>, \<^verbatim>\<open>os\<close> and \<^verbatim>\<open>safeio\<close> the source compares with or wraps.
\<close>

datatype sentinel =
    ErrReadOnly | ErrBadDescriptor | ErrNotFound | ErrNotDirectory | ErrNotRegular
  | ErrNotSymlink | ErrTooManyLinks | ErrCorrupt | ErrInvalidName | ErrExists
  | FsErrNotExist | EOF | OsErrClosed | SafeioTooLarge | SafeioOutOfBounds

text \<open>
  An error value.  \<open>Wrap fmt es\<close> is \<^verbatim>\<open>fmt.Errorf(fmt, ...)\<close> with the error arguments \<open>es\<close>
  (a format without an error argument has none); the other arguments only reach the
  message text and are left out.  \<open>Device k\<close> is an error of the underlying reader, writer
  or host file system.  \<open>Panic\<close> is not an error value of the source: it marks a run-time
  panic (index or slice out of range, division by zero), so that the absence of panics is
  a theorem and not an assumption.
\<close>

datatype goerror =
    Sentinel sentinel
  | Device nat
  | Wrap string "goerror list"
  | Panic string

text \<open>
  \<^verbatim>\<open>errors.Is\<close>.  \<^verbatim>\<open>ErrNotFound\<close> itself wraps \<^verbatim>\<open>io/fs.ErrNotExist\<close>.
\<close>

primrec errors_is :: "goerror \<Rightarrow> sentinel \<Rightarrow> bool" where
  "errors_is (Sentinel t) s = (t = s \<or> (t = ErrNotFound \<and> s = FsErrNotExist))"
| "errors_is (Device k) s = False"
| "errors_is (Wrap m es) s = list_ex (\<lambda>f. f s) (map errors_is es)"
| "errors_is (Panic m) s = False"

fun is_panic :: "goerror \<Rightarrow> bool" where
  "is_panic (Panic m) = True"
| "is_panic e = False"

section \<open>Results\<close>

text \<open>A Go result \<^verbatim>\<open>(value, error)\<close>: \<open>Inl\<close> the error, or \<open>Inr\<close> the value with a nil error.\<close>

type_synonym 'a res = "goerror + 'a"

definition res_bind :: "'a res \<Rightarrow> ('a \<Rightarrow> 'b res) \<Rightarrow> 'b res" where
  "res_bind r f = (case r of Inl e \<Rightarrow> Inl e | Inr x \<Rightarrow> f x)"

text \<open>
  \<^verbatim>\<open>if err != nil { return fmt.Errorf(...) }\<close>: the error is replaced, a panic goes through.
\<close>

definition wrap_error :: "(goerror \<Rightarrow> goerror) \<Rightarrow> 'a res \<Rightarrow> 'a res" where
  "wrap_error f r = (case r of Inl e \<Rightarrow> Inl (if is_panic e then e else f e) | Inr x \<Rightarrow> Inr x)"

text \<open>A result is safe when it is not a panic.\<close>

definition safe :: "'a res \<Rightarrow> bool" where
  "safe r \<longleftrightarrow> (\<forall>e. r = Inl e \<longrightarrow> \<not> is_panic e)"

named_theorems res_simps \<open>evaluation of results\<close>
named_theorems res_inv \<open>inversion of a successful result\<close>
named_theorems safe_intros \<open>absence of panics, operation by operation\<close>

lemma res_bind_simps [simp, res_simps]:
  "res_bind (Inl e) f = Inl e"
  "res_bind (Inr x) f = f x"
  by (simp_all add: res_bind_def)

lemma res_bind_Inr_iff [res_inv]:
  "res_bind r f = Inr y \<longleftrightarrow> (\<exists>x. r = Inr x \<and> f x = Inr y)"
  by (cases r) auto

lemma res_bind_Inl_iff:
  "res_bind r f = Inl e \<longleftrightarrow> r = Inl e \<or> (\<exists>x. r = Inr x \<and> f x = Inl e)"
  by (cases r) auto

lemma res_bind_cong [fundef_cong]:
  "r = r' \<Longrightarrow> (\<And>x. r' = Inr x \<Longrightarrow> f x = f' x) \<Longrightarrow> res_bind r f = res_bind r' f'"
  by (cases r') auto

lemma res_bind_assoc: "res_bind (res_bind r f) g = res_bind r (\<lambda>x. res_bind (f x) g)"
  by (cases r) auto

lemma wrap_error_simps [simp, res_simps]:
  "wrap_error f (Inr x) = Inr x"
  "wrap_error f (Inl e) = Inl (if is_panic e then e else f e)"
  by (simp_all add: wrap_error_def)

lemma wrap_error_Inr_iff [res_inv]: "wrap_error f r = Inr x \<longleftrightarrow> r = Inr x"
  by (cases r) auto

lemma safe_simps [simp]:
  "safe (Inr x)"
  "safe (Inl e) \<longleftrightarrow> \<not> is_panic e"
  by (auto simp: safe_def)

lemma safe_bind [safe_intros]:
  "safe r \<Longrightarrow> (\<And>x. r = Inr x \<Longrightarrow> safe (f x)) \<Longrightarrow> safe (res_bind r f)"
  by (cases r) auto

lemma safe_wrap_error [safe_intros]:
  "safe r \<Longrightarrow> (\<And>e. r = Inl e \<Longrightarrow> \<not> is_panic (f e)) \<Longrightarrow> safe (wrap_error f r)"
  by (cases r) auto

text \<open>An operation whose only errors would be panics returns a value when it is safe.\<close>

definition returns :: "'a res \<Rightarrow> bool" where
  "returns r \<longleftrightarrow> (\<exists>x. r = Inr x)"

named_theorems returns_intros \<open>operations that always return a value\<close>

lemma returns_simps [simp]: "returns (Inr x)" "\<not> returns (Inl e)"
  by (simp_all add: returns_def)

lemma returns_bind [returns_intros]:
  "returns r \<Longrightarrow> (\<And>x. r = Inr x \<Longrightarrow> returns (f x)) \<Longrightarrow> returns (res_bind r f)"
  by (auto simp: returns_def)

lemma returns_safe: "returns r \<Longrightarrow> safe r"
  by (auto simp: returns_def)

lemma returnsE: "returns r \<Longrightarrow> (\<And>x. r = Inr x \<Longrightarrow> P) \<Longrightarrow> P"
  by (auto simp: returns_def)

section \<open>Checked slice operations\<close>

text \<open>\<^verbatim>\<open>b[i]\<close>, \<^verbatim>\<open>b[lo:hi]\<close> and \<^verbatim>\<open>b[lo:]\<close> with the run-time checks of Go.\<close>

definition index :: "'a list \<Rightarrow> nat \<Rightarrow> 'a res" where
  "index b i = (if i < length b then Inr (b ! i) else Inl (Panic ''index out of range''))"

definition subslice :: "'a list \<Rightarrow> nat \<Rightarrow> nat \<Rightarrow> 'a list res" where
  "subslice b lo hi =
     (if lo \<le> hi \<and> hi \<le> length b then Inr (take (hi - lo) (drop lo b))
      else Inl (Panic ''slice bounds out of range''))"

definition slice_from :: "'a list \<Rightarrow> nat \<Rightarrow> 'a list res" where
  "slice_from b lo = subslice b lo (length b)"

lemma index_in [simp]: "i < length b \<Longrightarrow> index b i = Inr (b ! i)"
  by (simp add: index_def)

text \<open>For literal positions in a buffer of known least length: \<open>index_prefix [of 4 b]\<close>.\<close>

lemma index_prefix: "n \<le> length b \<Longrightarrow> i < n \<Longrightarrow> index b i = Inr (b ! i)"
  by simp

lemma subslice_in [simp]:
  "lo \<le> hi \<Longrightarrow> hi \<le> length b \<Longrightarrow> subslice b lo hi = Inr (take (hi - lo) (drop lo b))"
  by (simp add: subslice_def)

lemma slice_from_in [simp]: "lo \<le> length b \<Longrightarrow> slice_from b lo = Inr (drop lo b)"
  by (simp add: slice_from_def)

section \<open>Loops that may fail\<close>

text \<open>A loop that computes one element per step and stops at the first error.\<close>

primrec map_res :: "('a \<Rightarrow> 'b res) \<Rightarrow> 'a list \<Rightarrow> 'b list res" where
  "map_res f [] = Inr []"
| "map_res f (x # xs) = res_bind (f x) (\<lambda>y. res_bind (map_res f xs) (\<lambda>ys. Inr (y # ys)))"

text \<open>A search loop: the first element that passes a test that may fail.\<close>

primrec find_res :: "('a \<Rightarrow> bool res) \<Rightarrow> 'a list \<Rightarrow> 'a option res" where
  "find_res p [] = Inr None"
| "find_res p (x # xs) = res_bind (p x) (\<lambda>b. if b then Inr (Some x) else find_res p xs)"

lemma map_res_Inr: "(\<And>x. x \<in> set xs \<Longrightarrow> f x = Inr (g x)) \<Longrightarrow> map_res f xs = Inr (map g xs)"
  by (induction xs) auto

lemma map_res_safe [safe_intros]: "(\<And>x. x \<in> set xs \<Longrightarrow> safe (f x)) \<Longrightarrow> safe (map_res f xs)"
  by (induction xs) (auto intro!: safe_intros)

lemma map_res_returns [returns_intros]:
  "(\<And>x. x \<in> set xs \<Longrightarrow> returns (f x)) \<Longrightarrow> returns (map_res f xs)"
  by (induction xs) (auto intro!: returns_bind)

lemma find_res_returns [returns_intros]:
  "(\<And>x. x \<in> set xs \<Longrightarrow> returns (p x)) \<Longrightarrow> returns (find_res p xs)"
  by (induction xs) (auto intro!: returns_bind)

lemma find_res_pure: "(\<And>x. x \<in> set xs \<Longrightarrow> p x = Inr (q x)) \<Longrightarrow> find_res p xs = Inr (find q xs)"
  by (induction xs) auto

lemma find_res_safe [safe_intros]: "(\<And>x. x \<in> set xs \<Longrightarrow> safe (p x)) \<Longrightarrow> safe (find_res p xs)"
  by (induction xs) (auto intro!: safe_intros)

lemma find_res_Some: "find_res p xs = Inr (Some x) \<Longrightarrow> x \<in> set xs \<and> p x = Inr True"
  by (induction xs) (auto simp: res_inv split: if_splits)

section \<open>Overwriting a part of a buffer\<close>

text \<open>
  \<^verbatim>\<open>copy(b[at:], src)\<close> for a source that fits: the bytes of \<open>b\<close> from position \<open>at\<close> on are
  replaced, the length is kept.
\<close>

definition splice :: "'a list \<Rightarrow> nat \<Rightarrow> 'a list \<Rightarrow> 'a list" where
  "splice b at src = take at b @ take (length b - at) src @ drop (at + length src) b"

lemma length_splice [simp]: "length (splice b at src) = length b"
  by (auto simp: splice_def)

lemma splice_nil [simp]: "splice b at [] = b"
  by (simp add: splice_def)

lemma nth_splice:
  "i < length b \<Longrightarrow>
   splice b at src ! i = (if at \<le> i \<and> i < at + length src then src ! (i - at) else b ! i)"
  by (auto simp: splice_def nth_append min_def)

lemma take_drop_splice_same:
  "at + length src \<le> length b \<Longrightarrow> take (length src) (drop at (splice b at src)) = src"
  by (auto simp: splice_def)

lemma take_drop_splice_disjoint:
  assumes "lo + n \<le> at \<or> at + length src \<le> lo"
  shows "take n (drop lo (splice b at src)) = take n (drop lo b)"
  by (rule nth_equalityI) (use assms in \<open>auto simp: nth_splice\<close>)

section \<open>Lists\<close>

lemma list_eq_take_drop3:
  "lo + n \<le> length xs \<Longrightarrow> xs = take lo xs @ take n (drop lo xs) @ drop (lo + n) xs"
  by (metis append.assoc append_take_drop_id take_add)

lemma takeWhile_append_stop:
  "(\<And>x. x \<in> set xs \<Longrightarrow> P x) \<Longrightarrow> \<not> P y \<Longrightarrow> takeWhile P (xs @ y # ys) = xs"
  by (induction xs) auto

end
