(* ===== verification/Endian.thy ===== *)
theory Endian
  imports Prelude
begin

unbundle bit_operations_syntax

text \<open>
  Integers of the on-disk format: the little-endian decoders \<^verbatim>\<open>le16\<close> and \<^verbatim>\<open>le32\<close> of
  \<^verbatim>\<open>dirrecord.go\<close> and the \<^verbatim>\<open>put...\<close> encoders of \<^verbatim>\<open>create.go\<close>, with the round trips in both
  byte orders.
\<close>

section \<open>Decoding\<close>

text \<open>\<^verbatim>\<open>binary.LittleEndian.Uint16\<close> and \<^verbatim>\<open>Uint32\<close> panic on a slice that is too short.\<close>

definition le16 :: "byte list \<Rightarrow> u16 res" where
  "le16 b =
     res_bind (index b 1) (\<lambda>b1. res_bind (index b 0) (\<lambda>b0.
       Inr (ucast b0 OR push_bit 8 (ucast b1))))"

definition le32 :: "byte list \<Rightarrow> u32 res" where
  "le32 b =
     res_bind (index b 3) (\<lambda>b3. res_bind (index b 2) (\<lambda>b2.
     res_bind (index b 1) (\<lambda>b1. res_bind (index b 0) (\<lambda>b0.
       Inr (ucast b0 OR push_bit 8 (ucast b1) OR push_bit 16 (ucast b2)
            OR push_bit 24 (ucast b3))))))"

text \<open>\<^verbatim>\<open>binary.BigEndian.Uint16\<close>, used on Joliet identifiers.\<close>

definition be16 :: "byte list \<Rightarrow> u16 res" where
  "be16 b =
     res_bind (index b 1) (\<lambda>b1. res_bind (index b 0) (\<lambda>b0.
       Inr (ucast b1 OR push_bit 8 (ucast b0))))"

section \<open>Encoding\<close>

definition putLE16 :: "u16 \<Rightarrow> byte list" where
  "putLE16 v = [ucast v, ucast (drop_bit 8 v)]"

definition putBE16 :: "u16 \<Rightarrow> byte list" where
  "putBE16 v = [ucast (drop_bit 8 v), ucast v]"

definition putLE32 :: "u32 \<Rightarrow> byte list" where
  "putLE32 v = [ucast v, ucast (drop_bit 8 v), ucast (drop_bit 16 v), ucast (drop_bit 24 v)]"

definition putBE32 :: "u32 \<Rightarrow> byte list" where
  "putBE32 v = [ucast (drop_bit 24 v), ucast (drop_bit 16 v), ucast (drop_bit 8 v), ucast v]"

definition putBoth16 :: "u16 \<Rightarrow> byte list" where
  "putBoth16 v = putLE16 v @ putBE16 v"

definition putBoth32 :: "u32 \<Rightarrow> byte list" where
  "putBoth32 v = putLE32 v @ putBE32 v"

lemma length_put [simp]:
  "length (putLE16 v) = 2" "length (putBE16 v) = 2"
  "length (putLE32 w) = 4" "length (putBE32 w) = 4"
  "length (putBoth16 v) = 4" "length (putBoth32 w) = 8"
  by (simp_all add: putLE16_def putBE16_def putLE32_def putBE32_def putBoth16_def putBoth32_def)

section \<open>Decoders do not panic on long enough input\<close>

lemma le16_eq: "2 \<le> length b \<Longrightarrow> le16 b = Inr (ucast (b ! 0) OR push_bit 8 (ucast (b ! 1)))"
  by (simp add: le16_def index_prefix [of 2 b])

lemma be16_eq: "2 \<le> length b \<Longrightarrow> be16 b = Inr (ucast (b ! 1) OR push_bit 8 (ucast (b ! 0)))"
  by (simp add: be16_def index_prefix [of 2 b])

lemma le32_eq:
  "4 \<le> length b \<Longrightarrow>
   le32 b = Inr (ucast (b ! 0) OR push_bit 8 (ucast (b ! 1)) OR push_bit 16 (ucast (b ! 2))
                 OR push_bit 24 (ucast (b ! 3)))"
  by (simp add: le32_def index_prefix [of 4 b])

lemmas decode_eqs = le16_eq be16_eq le32_eq

lemma le16_safe [safe_intros]: "2 \<le> length b \<Longrightarrow> safe (le16 b)"
  and be16_safe [safe_intros]: "2 \<le> length b \<Longrightarrow> safe (be16 b)"
  and le32_safe [safe_intros]: "4 \<le> length b \<Longrightarrow> safe (le32 b)"
  by (simp_all add: decode_eqs)

lemma le16_returns [returns_intros]: "2 \<le> length b \<Longrightarrow> returns (le16 b)"
  and be16_returns [returns_intros]: "2 \<le> length b \<Longrightarrow> returns (be16 b)"
  and le32_returns [returns_intros]: "4 \<le> length b \<Longrightarrow> returns (le32 b)"
  by (simp_all add: decode_eqs)

lemma le16_total: "2 \<le> length b \<Longrightarrow> \<exists>v. le16 b = Inr v"
  and le32_total: "4 \<le> length b \<Longrightarrow> \<exists>v. le32 b = Inr v"
  by (simp_all add: decode_eqs)

section \<open>Round trips\<close>

lemma le16_putLE16 [simp]: "le16 (putLE16 v @ rest) = Inr v"
proof -
  have "ucast (ucast v :: byte) OR push_bit 8 (ucast (ucast (drop_bit 8 v) :: byte)) = v"
    by (rule bit_word_eqI) (auto simp: bit_simps)
  then show ?thesis by (simp add: le16_def putLE16_def)
qed

lemma be16_putBE16 [simp]: "be16 (putBE16 v @ rest) = Inr v"
proof -
  have "ucast (ucast v :: byte) OR push_bit 8 (ucast (ucast (drop_bit 8 v) :: byte)) = v"
    by (rule bit_word_eqI) (auto simp: bit_simps)
  then show ?thesis by (simp add: be16_def putBE16_def)
qed

lemma bytes_of_u32:
  "ucast (ucast v :: byte) OR push_bit 8 (ucast (ucast (drop_bit 8 v) :: byte))
   OR push_bit 16 (ucast (ucast (drop_bit 16 v) :: byte))
   OR push_bit 24 (ucast (ucast (drop_bit 24 v) :: byte)) = (v :: u32)"
proof (rule bit_word_eqI)
  fix n :: nat
  assume n: "n < LENGTH(32)"
  consider "n < 8" | "8 \<le> n" "n < 16" | "16 \<le> n" "n < 24" | "24 \<le> n" "n < 32"
    using n by fastforce
  then show "bit (ucast (ucast v :: byte) OR push_bit 8 (ucast (ucast (drop_bit 8 v) :: byte))
      OR push_bit 16 (ucast (ucast (drop_bit 16 v) :: byte))
      OR push_bit 24 (ucast (ucast (drop_bit 24 v) :: byte)) :: u32) n = bit v n"
    by cases (auto simp: bit_simps)
qed

lemma le32_putLE32 [simp]: "le32 (putLE32 v @ rest) = Inr v"
  using bytes_of_u32 [of v] by (simp add: le32_def putLE32_def)

lemma le32_putBoth32 [simp]: "le32 (putBoth32 v @ rest) = Inr v"
  by (simp add: putBoth32_def)

lemma le16_putBoth16 [simp]: "le16 (putBoth16 v @ rest) = Inr v"
  by (simp add: putBoth16_def)

lemma putBE32_rev: "putBE32 v = rev (putLE32 v)"
  by (simp add: putBE32_def putLE32_def)

text \<open>Both decoders only look at the bytes they need.\<close>

lemma le32_take: "4 \<le> n \<Longrightarrow> 4 \<le> length b \<Longrightarrow> le32 (take n b) = le32 b"
  by (simp add: decode_eqs)

lemma le16_take: "2 \<le> n \<Longrightarrow> 2 \<le> length b \<Longrightarrow> le16 (take n b) = le16 b"
  by (simp add: decode_eqs)

end
