(* ===== verification/GoText.thy ===== *)
theory GoText
  imports Endian
begin

text \<open>
  The text functions of the Go standard library that the source calls on names and paths:
  \<^verbatim>\<open>strings.IndexByte\<close>, \<^verbatim>\<open>LastIndexByte\<close>, \<^verbatim>\<open>TrimSuffix\<close>, \<^verbatim>\<open>HasPrefix\<close>, \<^verbatim>\<open>Split\<close>,
  \<^verbatim>\<open>EqualFold\<close>, \<^verbatim>\<open>ToUpper\<close>, \<^verbatim>\<open>bytes.TrimRight\<close>, the UTF-8 decoding of a \<^verbatim>\<open>range\<close> loop over
  a string, the UTF-8 encoding of a rune, and \<^verbatim>\<open>utf16.Decode\<close>.

  The Unicode folding table is data of the library and stays a parameter:
  \<^verbatim>\<open>EqualFold\<close> takes a relation \<open>fe\<close> that says, of two different runes of which at least
  one is not ASCII, whether \<^verbatim>\<open>unicode.SimpleFold\<close> leads from the smaller to the larger.
\<close>

section \<open>Bytes of a string\<close>

fun index_byte :: "gostring \<Rightarrow> byte \<Rightarrow> nat option" where
  "index_byte [] c = None"
| "index_byte (b # s) c = (if b = c then Some 0 else map_option Suc (index_byte s c))"

fun last_index_byte :: "gostring \<Rightarrow> byte \<Rightarrow> nat option" where
  "last_index_byte [] c = None"
| "last_index_byte (b # s) c =
     (case last_index_byte s c of
        Some i \<Rightarrow> Some (Suc i)
      | None \<Rightarrow> if b = c then Some 0 else None)"

definition trim_suffix :: "gostring \<Rightarrow> gostring \<Rightarrow> gostring" where
  "trim_suffix s suf =
     (if length suf \<le> length s \<and> drop (length s - length suf) s = suf
      then take (length s - length suf) s else s)"

definition has_prefix :: "gostring \<Rightarrow> gostring \<Rightarrow> bool" where
  "has_prefix s p \<longleftrightarrow> length p \<le> length s \<and> take (length p) s = p"

definition trim_right :: "gostring \<Rightarrow> byte list \<Rightarrow> gostring" where
  "trim_right s cutset = rev (dropWhile (\<lambda>b. b \<in> set cutset) (rev s))"

text \<open>\<^verbatim>\<open>strings.Split(s, "/")\<close>: never empty, adjacent separators give empty pieces.\<close>

fun split_on :: "byte \<Rightarrow> gostring \<Rightarrow> gostring list" where
  "split_on c [] = [[]]"
| "split_on c (b # s) =
     (if b = c then [] # split_on c s
      else (case split_on c s of p # ps \<Rightarrow> (b # p) # ps | [] \<Rightarrow> [[b]]))"

lemma index_byte_None: "index_byte s c = None \<longleftrightarrow> c \<notin> set s"
  by (induction s) auto

lemma index_byte_take:
  "(case index_byte s c of Some i \<Rightarrow> take i s | None \<Rightarrow> s) = takeWhile (\<lambda>b. b \<noteq> c) s"
  by (induction s) (auto split: option.splits)

lemma index_byte_bound: "index_byte s c = Some i \<Longrightarrow> i < length s"
  by (induction s arbitrary: i) (auto split: if_splits)

lemma last_index_byte_None: "last_index_byte s c = None \<longleftrightarrow> c \<notin> set s"
  by (induction s) (auto split: option.splits)

lemma last_index_byte_bound: "last_index_byte s c = Some i \<Longrightarrow> i < length s"
  by (induction s arbitrary: i) (auto split: option.splits if_splits)

lemma split_on_nonempty: "split_on c s \<noteq> []"
  by (induction s) (auto split: list.splits)

lemma split_on_free: "p \<in> set (split_on c s) \<Longrightarrow> c \<notin> set p"
  by (induction s arbitrary: p) (auto split: list.splits if_splits)

lemma split_on_no_sep: "c \<notin> set s \<Longrightarrow> split_on c s = [s]"
  by (induction s) auto

lemma split_on_append: "c \<notin> set p \<Longrightarrow> split_on c (p @ c # s) = p # split_on c s"
  by (induction p) auto

lemma split_on_concat: "split_on c (p @ c # q) = split_on c p @ split_on c q"
proof (induction p)
  case (Cons b p)
  then show ?case using split_on_nonempty [of c p] by (auto split: list.splits)
qed simp

section \<open>Runes and UTF-8\<close>

type_synonym rune = nat

definition runeError :: rune where
  "runeError = 0xFFFD"

definition in_range :: "nat \<Rightarrow> nat \<Rightarrow> byte \<Rightarrow> bool" where
  "in_range lo hi b \<longleftrightarrow> lo \<le> unat b \<and> unat b \<le> hi"

text \<open>
  \<^verbatim>\<open>utf8.DecodeRune\<close>: the rune at the start of a string and its width.  An invalid or
  truncated sequence is the rune error of width 1.  The range of the second byte depends on
  the first (no overlong forms, no surrogates, nothing past \<open>0x10FFFF\<close>).
\<close>

definition second_range :: "nat \<Rightarrow> nat \<times> nat" where
  "second_range c0 =
     (if c0 = 0xE0 then (0xA0, 0xBF) else if c0 = 0xED then (0x80, 0x9F)
      else if c0 = 0xF0 then (0x90, 0xBF) else if c0 = 0xF4 then (0x80, 0x8F)
      else (0x80, 0xBF))"

fun decode_rune :: "gostring \<Rightarrow> rune \<times> nat" where
  "decode_rune [] = (runeError, 0)"
| "decode_rune (b0 # t) =
     (let c0 = unat b0; (lo, hi) = second_range c0 in
      if c0 < 0x80 then (c0, 1)
      else if c0 < 0xC2 \<or> 0xF4 < c0 then (runeError, 1)
      else if c0 < 0xE0 then
        (case t of b1 # _ \<Rightarrow>
           if in_range lo hi b1 then ((c0 - 0xC0) * 64 + (unat b1 - 0x80), 2)
           else (runeError, 1)
         | _ \<Rightarrow> (runeError, 1))
      else if c0 < 0xF0 then
        (case t of b1 # b2 # _ \<Rightarrow>
           if in_range lo hi b1 \<and> in_range 0x80 0xBF b2
           then ((c0 - 0xE0) * 4096 + (unat b1 - 0x80) * 64 + (unat b2 - 0x80), 3)
           else (runeError, 1)
         | _ \<Rightarrow> (runeError, 1))
      else
        (case t of b1 # b2 # b3 # _ \<Rightarrow>
           if in_range lo hi b1 \<and> in_range 0x80 0xBF b2 \<and> in_range 0x80 0xBF b3
           then ((c0 - 0xF0) * 262144 + (unat b1 - 0x80) * 4096 + (unat b2 - 0x80) * 64
                 + (unat b3 - 0x80), 4)
           else (runeError, 1)
         | _ \<Rightarrow> (runeError, 1)))"

declare decode_rune.simps(2) [simp del]

lemma decode_rune_width: "snd (decode_rune (b # t)) \<in> {1..4}"
  by (auto simp: decode_rune.simps(2) Let_def split: list.splits prod.splits if_splits)

text \<open>The runes a \<^verbatim>\<open>for _, r := range s\<close> loop visits.\<close>

function runes :: "gostring \<Rightarrow> rune list" where
  "runes [] = []"
| "runes (b # t) = fst (decode_rune (b # t)) # runes (drop (snd (decode_rune (b # t))) (b # t))"
  by pat_completeness auto
termination
proof (relation "measure length", simp)
  fix b t
  show "(drop (snd (decode_rune (b # t))) (b # t), b # t) \<in> measure length"
    using decode_rune_width [of b t] by auto
qed

declare runes.simps(2) [simp del]

text \<open>\<^verbatim>\<open>utf8.AppendRune\<close>: the encoding of one rune, the rune error for an invalid one.\<close>

definition valid_rune :: "rune \<Rightarrow> bool" where
  "valid_rune r \<longleftrightarrow> r < 0xD800 \<or> (0xE000 \<le> r \<and> r \<le> 0x10FFFF)"

definition encode_rune :: "rune \<Rightarrow> gostring" where
  "encode_rune r0 =
     (let r = (if valid_rune r0 then r0 else runeError) in
      if r < 0x80 then [byte_of_nat r]
      else if r < 0x800 then [byte_of_nat (0xC0 + r div 64), byte_of_nat (0x80 + r mod 64)]
      else if r < 0x10000 then
        [byte_of_nat (0xE0 + r div 4096), byte_of_nat (0x80 + r div 64 mod 64), byte_of_nat (0x80 + r mod 64)]
      else
        [byte_of_nat (0xF0 + r div 262144), byte_of_nat (0x80 + r div 4096 mod 64),
         byte_of_nat (0x80 + r div 64 mod 64), byte_of_nat (0x80 + r mod 64)])"

text \<open>\<^verbatim>\<open>string(runes)\<close>.\<close>

definition encode_runes :: "rune list \<Rightarrow> gostring" where
  "encode_runes rs = concat (map encode_rune rs)"

text \<open>Decoding a well-formed sequence, by its width.\<close>

lemma decode_one: "c < 0x80 \<Longrightarrow> decode_rune (byte_of_nat c # t) = (c, 1)"
  by (simp add: decode_rune.simps(2) Let_def split: prod.splits)

lemma decode_two:
  assumes "0xC2 \<le> c" "c < 0xE0" "m < 64"
  shows "decode_rune (byte_of_nat c # byte_of_nat (0x80 + m) # t) = ((c - 0xC0) * 64 + m, 2)"
  using assms by (simp add: decode_rune.simps(2) Let_def second_range_def in_range_def)

lemma decode_three:
  assumes "0xE0 \<le> c" "c < 0xF0" "m < 64" "k < 64" "c = 0xE0 \<Longrightarrow> 32 \<le> m" "c = 0xED \<Longrightarrow> m < 32"
  shows "decode_rune (byte_of_nat c # byte_of_nat (0x80 + m) # byte_of_nat (0x80 + k) # t)
         = ((c - 0xE0) * 4096 + m * 64 + k, 3)"
proof -
  have "case second_range c of (lo, hi) \<Rightarrow> in_range lo hi (byte_of_nat (0x80 + m))"
    using assms by (auto simp: second_range_def in_range_def)
  moreover have "in_range 0x80 0xBF (byte_of_nat (0x80 + k))"
    using assms by (simp add: in_range_def)
  ultimately show ?thesis
    using assms(1-4) by (auto simp: decode_rune.simps(2) Let_def split: prod.splits)
qed

lemma decode_four:
  assumes "0xF0 \<le> c" "c \<le> 0xF4" "m < 64" "k < 64" "l < 64"
    and "c = 0xF0 \<Longrightarrow> 16 \<le> m" "c = 0xF4 \<Longrightarrow> m < 16"
  shows "decode_rune (byte_of_nat c # byte_of_nat (0x80 + m) # byte_of_nat (0x80 + k)
           # byte_of_nat (0x80 + l) # t) = ((c - 0xF0) * 262144 + m * 4096 + k * 64 + l, 4)"
proof -
  have "case second_range c of (lo, hi) \<Rightarrow> in_range lo hi (byte_of_nat (0x80 + m))"
    using assms by (auto simp: second_range_def in_range_def)
  moreover have "in_range 0x80 0xBF (byte_of_nat (0x80 + k))"
      "in_range 0x80 0xBF (byte_of_nat (0x80 + l))"
    using assms by (simp_all add: in_range_def)
  ultimately show ?thesis
    using assms(1-5) by (auto simp: decode_rune.simps(2) Let_def split: prod.splits)
qed

lemma base64_digits3: "r div 4096 * 4096 + r div 64 mod 64 * 64 + r mod 64 = (r :: nat)"
proof -
  have "r div 64 div 64 = r div 4096" by (simp flip: div_mult2_eq)
  then show ?thesis
    using div_mult_mod_eq [of r 64] div_mult_mod_eq [of "r div 64" 64] by linarith
qed

lemma base64_digits4:
  "r div 262144 * 262144 + r div 4096 mod 64 * 4096 + r div 64 mod 64 * 64 + r mod 64 = (r :: nat)"
proof -
  have "r div 4096 div 64 = r div 262144" by (simp flip: div_mult2_eq)
  then show ?thesis
    using base64_digits3 [of r] div_mult_mod_eq [of "r div 4096" 64] by linarith
qed

lemma decode_encode_rune:
  assumes "valid_rune r"
  shows "decode_rune (encode_rune r @ t) = (r, length (encode_rune r))"
proof -
  have hi: "r \<le> 0x10FFFF" using assms by (auto simp: valid_rune_def)
  consider (one) "r < 0x80" | (two) "0x80 \<le> r" "r < 0x800"
    | (three) "0x800 \<le> r" "r < 0x10000" | (four) "0x10000 \<le> r" by linarith
  then show ?thesis
  proof cases
    case one
    then show ?thesis using assms by (simp add: encode_rune_def decode_one)
  next
    case two
    obtain q m where q: "q = r div 64" and m: "m = r mod 64" by simp
    have r: "r = q * 64 + m" and "m < 64" unfolding q m by simp_all
    with two have "2 \<le> q" "q < 32" by auto
    then show ?thesis using two assms decode_two [of "0xC0 + q" m t] r \<open>m < 64\<close>
      by (simp add: encode_rune_def)
  next
    case three
    obtain q m k where q: "q = r div 4096" and m: "m = r div 64 mod 64" and k: "k = r mod 64"
      by simp
    have r: "q * 4096 + m * 64 + k = r" unfolding q m k by (rule base64_digits3)
    have mk: "m < 64" "k < 64" unfolding m k by simp_all
    from three r mk have "q < 16" "q = 0 \<Longrightarrow> 32 \<le> m" by auto
    moreover have "q = 13 \<Longrightarrow> m < 32" using assms r mk by (auto simp: valid_rune_def)
    moreover have "encode_rune r = [byte_of_nat (0xE0 + q), byte_of_nat (0x80 + m), byte_of_nat (0x80 + k)]"
      using three assms by (simp add: encode_rune_def q m k)
    ultimately show ?thesis using r mk decode_three [of "0xE0 + q" m k t] by simp
  next
    case four
    obtain q m k l where q: "q = r div 262144" and m: "m = r div 4096 mod 64"
      and k: "k = r div 64 mod 64" and l: "l = r mod 64" by simp
    have r: "q * 262144 + m * 4096 + k * 64 + l = r" unfolding q m k l by (rule base64_digits4)
    have mkl: "m < 64" "k < 64" "l < 64" unfolding m k l by simp_all
    from four hi r mkl have "q < 5" "q = 0 \<Longrightarrow> 16 \<le> m" "q = 4 \<Longrightarrow> m < 16" by auto
    moreover have "encode_rune r = [byte_of_nat (0xF0 + q), byte_of_nat (0x80 + m),
        byte_of_nat (0x80 + k), byte_of_nat (0x80 + l)]"
      using four assms by (simp add: encode_rune_def q m k l)
    ultimately show ?thesis using r mkl decode_four [of "0xF0 + q" m k l t] by simp
  qed
qed

lemma encode_rune_nonempty [simp]: "encode_rune r \<noteq> []"
  by (simp add: encode_rune_def Let_def)

lemma runes_encode_rune: "valid_rune r \<Longrightarrow> runes (encode_rune r @ t) = r # runes t"
  using decode_encode_rune [of r t]
  by (cases "encode_rune r") (simp_all add: runes.simps(2))

lemma runes_encode_runes: "list_all valid_rune rs \<Longrightarrow> runes (encode_runes rs) = rs"
  by (induction rs) (simp_all add: encode_runes_def runes_encode_rune)

text \<open>Outside ASCII, an encoding has no byte below 0x80.\<close>

lemma encode_rune_bytes:
  assumes "valid_rune r" "b \<in> set (encode_rune r)"
  shows "(r < 0x80 \<and> b = byte_of_nat r) \<or> (0x80 \<le> r \<and> 0x80 \<le> unat b)"
proof -
  have r: "r \<le> 0x10FFFF" using assms(1) by (auto simp: valid_rune_def)
  then have "r div 4096 < 272" "r div 262144 < 5" by linarith+
  then show ?thesis
    using assms by (auto simp: encode_rune_def Let_def split: if_splits)
qed

text \<open>ASCII strings are their own rune sequences.\<close>

definition ascii :: "gostring \<Rightarrow> bool" where
  "ascii s \<longleftrightarrow> (\<forall>b \<in> set s. unat b < 0x80)"

lemma runes_ascii: "ascii s \<Longrightarrow> runes s = map unat s"
  by (induction s) (simp_all add: ascii_def runes.simps(2) decode_rune.simps(2) Let_def split: prod.splits)

section \<open>UTF-16\<close>

text \<open>\<^verbatim>\<open>utf16.Decode\<close>: surrogate pairs are combined, a lone surrogate is the rune error.\<close>

fun utf16_decode :: "u16 list \<Rightarrow> rune list" where
  "utf16_decode [] = []"
| "utf16_decode (u # t) =
     (let r = unat u in
      if r < 0xD800 \<or> 0xE000 \<le> r then r # utf16_decode t
      else (case t of
              v # t' \<Rightarrow>
                if r < 0xDC00 \<and> 0xDC00 \<le> unat v \<and> unat v < 0xE000
                then ((r - 0xD800) * 1024 + (unat v - 0xDC00) + 0x10000) # utf16_decode t'
                else runeError # utf16_decode t
            | [] \<Rightarrow> runeError # utf16_decode t))"

text \<open>The encoding of a scalar value, which \<^verbatim>\<open>utf16.Decode\<close> takes back.\<close>

definition utf16_encode :: "rune \<Rightarrow> u16 list" where
  "utf16_encode r =
     (if r < 0x10000 then [of_nat r]
      else [of_nat (0xD800 + (r - 0x10000) div 1024), of_nat (0xDC00 + (r - 0x10000) mod 1024)])"

lemma unat_u16_of_nat [simp]: "n < 65536 \<Longrightarrow> unat (of_nat n :: u16) = n"
  by (simp add: unat_of_nat)

lemma utf16_decode_encode:
  assumes "valid_rune r"
  shows "utf16_decode (utf16_encode r @ t) = r # utf16_decode t"
proof (cases "r < 0x10000")
  case True
  then show ?thesis using assms by (auto simp: utf16_encode_def valid_rune_def)
next
  case False
  obtain q m where q: "q = (r - 0x10000) div 1024" and m: "m = (r - 0x10000) mod 1024" by simp
  have r: "q * 1024 + m = r - 0x10000" "m < 1024" unfolding q m by simp_all
  then have b: "q < 1024" using assms by (auto simp: valid_rune_def)
  have "utf16_encode r = [of_nat (0xD800 + q), of_nat (0xDC00 + m)]"
    using False by (simp add: utf16_encode_def q m)
  moreover have "unat (of_nat (0xD800 + q) :: u16) = 0xD800 + q"
      "unat (of_nat (0xDC00 + m) :: u16) = 0xDC00 + m" using b r(2) by (simp_all del: of_nat_add)
  ultimately show ?thesis using b r False by simp
qed

lemma utf16_decode_encodes:
  "list_all valid_rune rs \<Longrightarrow> utf16_decode (concat (map utf16_encode rs)) = rs"
  by (induction rs) (simp_all add: utf16_decode_encode)

section \<open>Case\<close>

text \<open>
  \<^verbatim>\<open>unicode.ToUpper\<close> as far as the source can tell: ASCII letters, and the two runes
  outside ASCII whose upper case is an ASCII letter (dotless i and long s).  The only caller,
  \<^verbatim>\<open>sanitize\<close>, asks of any other rune whether it is a capital letter, a digit or an
  underscore, and no other rune outside ASCII has one of those as its upper case.
\<close>

definition rune_upper :: "rune \<Rightarrow> rune" where
  "rune_upper r =
     (if 0x61 \<le> r \<and> r \<le> 0x7A then r - 32
      else if r = 0x131 then 0x49 else if r = 0x17F then 0x53 else r)"

text \<open>The comparison of two runes in \<^verbatim>\<open>strings.EqualFold\<close>.\<close>

definition rune_fold_eq :: "(rune \<Rightarrow> rune \<Rightarrow> bool) \<Rightarrow> rune \<Rightarrow> rune \<Rightarrow> bool" where
  "rune_fold_eq fe a b \<longleftrightarrow>
     a = b \<or>
     (let sr = min a b; tr = max a b in
      if tr < 0x80 then 0x41 \<le> sr \<and> sr \<le> 0x5A \<and> tr = sr + 32 else fe sr tr)"

definition equal_fold :: "(rune \<Rightarrow> rune \<Rightarrow> bool) \<Rightarrow> gostring \<Rightarrow> gostring \<Rightarrow> bool" where
  "equal_fold fe s t \<longleftrightarrow> list_all2 (rune_fold_eq fe) (runes s) (runes t)"

lemma rune_fold_eq_sym: "rune_fold_eq fe a b = rune_fold_eq fe b a"
  by (auto simp: rune_fold_eq_def min.commute max.commute)

lemma equal_fold_refl: "equal_fold fe s s"
  by (simp add: equal_fold_def rune_fold_eq_def list_all2_refl)

text \<open>
  On ASCII strings \<^verbatim>\<open>EqualFold\<close> compares the strings in upper case, whatever the folding
  table says of other runes.
\<close>

definition upper_byte :: "byte \<Rightarrow> byte" where
  "upper_byte b = (if 0x61 \<le> unat b \<and> unat b \<le> 0x7A then b - 32 else b)"

definition upper_ascii :: "gostring \<Rightarrow> gostring" where
  "upper_ascii s = map upper_byte s"

lemma unat_upper_byte:
  "unat (upper_byte b) = (if 0x61 \<le> unat b \<and> unat b \<le> 0x7A then unat b - 32 else unat b)"
  by (auto simp: upper_byte_def unat_sub word_le_nat_alt)

lemma upper_byte_idem [simp]: "upper_byte (upper_byte b) = upper_byte b"
  by (auto simp: word_unat_eq_iff unat_upper_byte)

lemma upper_ascii_idem [simp]: "upper_ascii (upper_ascii s) = upper_ascii s"
  by (simp add: upper_ascii_def)

lemma upper_byte_small: "unat (upper_byte b) < 0x80 \<longleftrightarrow> unat b < 0x80"
  unfolding unat_upper_byte by (simp, linarith)

lemma ascii_upper [simp]: "ascii (upper_ascii s) \<longleftrightarrow> ascii s"
  by (simp add: ascii_def upper_ascii_def upper_byte_small)

lemma rune_fold_eq_ascii:
  assumes "unat a < 0x80" "unat b < 0x80"
  shows "rune_fold_eq fe (unat a) (unat b) \<longleftrightarrow> upper_byte a = upper_byte b"
proof -
  have fold: "rune_fold_eq fe x y
      \<longleftrightarrow> (if 0x61 \<le> x \<and> x \<le> 0x7A then x - 32 else x) = (if 0x61 \<le> y \<and> y \<le> 0x7A then y - 32 else y)"
    if "x < 0x80" "y < 0x80" "x \<le> y" for x y
    using that by (simp add: rune_fold_eq_def Let_def min_def max_def) presburger
  show ?thesis
  proof (cases "unat a \<le> unat b")
    case True
    from fold [OF assms this] show ?thesis by (simp only: word_unat_eq_iff unat_upper_byte)
  next
    case False
    then have "unat b \<le> unat a" by simp
    from fold [OF assms(2,1) this] show ?thesis
      unfolding rune_fold_eq_sym [of fe "unat a"] by (simp only: word_unat_eq_iff unat_upper_byte eq_commute)
  qed
qed

lemma equal_fold_ascii:
  assumes "ascii s" "ascii t"
  shows "equal_fold fe s t \<longleftrightarrow> upper_ascii s = upper_ascii t"
proof -
  have "list_all2 (rune_fold_eq fe) (map unat s) (map unat t) \<longleftrightarrow> map upper_byte s = map upper_byte t"
    using assms
  proof (induction s arbitrary: t)
    case (Cons a s)
    then show ?case by (cases t) (simp_all add: ascii_def rune_fold_eq_ascii)
  qed simp
  then show ?thesis using assms by (simp add: equal_fold_def runes_ascii upper_ascii_def)
qed

end
