(* ===== verification/DirRecord.thy ===== *)
theory DirRecord
  imports GoText
begin

text \<open>
  \<^verbatim>\<open>dirrecord.go\<close>: the decoded directory record, its parser, and the two ways a file
  identifier becomes a name.  The lemmas give the parser in closed form (which input is a
  record, which is padding, which is corrupt), show that it never indexes outside its
  buffer, and bound what it consumes.
\<close>

section \<open>Types\<close>

record extent =
  ext_lba :: u32
  ext_size :: u32

text \<open>\<open>dr_extents = None\<close> is the nil slice of a single-extent record.\<close>

record dirRecord =
  dr_Length :: byte
  dr_ExtentLBA :: u32
  dr_Size :: u32
  dr_Flags :: byte
  dr_rawName :: "byte list"
  dr_Name :: gostring
  dr_sysUse :: "byte list"
  dr_extents :: "extent list option"

definition zero_dirRecord :: dirRecord where
  "zero_dirRecord =
     \<lparr>dr_Length = 0, dr_ExtentLBA = 0, dr_Size = 0, dr_Flags = 0, dr_rawName = [], dr_Name = [],
      dr_sysUse = [], dr_extents = None\<rparr>"

definition flagDirectory :: byte where "flagDirectory = 0x02"
definition flagMultiExt :: byte where "flagMultiExt = 0x80"

definition isDir :: "dirRecord \<Rightarrow> bool" where
  "isDir r \<longleftrightarrow> and (dr_Flags r) flagDirectory \<noteq> 0"

definition multiExt :: "dirRecord \<Rightarrow> bool" where
  "multiExt r \<longleftrightarrow> and (dr_Flags r) flagMultiExt \<noteq> 0"

definition isSpecial :: "dirRecord \<Rightarrow> bool" where
  "isSpecial r \<longleftrightarrow>
     length (dr_rawName r) = 1 \<and> (dr_rawName r ! 0 = 0x00 \<or> dr_rawName r ! 0 = 0x01)"

section \<open>Names\<close>

definition dot :: byte where "dot = 0x2E"
definition semicolon :: byte where "semicolon = 0x3B"
definition slash :: byte where "slash = 0x2F"

definition cut_version :: "gostring \<Rightarrow> gostring" where
  "cut_version s =
     trim_suffix (case index_byte s semicolon of Some i \<Rightarrow> take i s | None \<Rightarrow> s) [dot]"

definition cleanName :: "byte list \<Rightarrow> gostring" where
  "cleanName raw =
     (if length raw = 1 \<and> raw ! 0 = 0x00 then [dot]
      else if length raw = 1 \<and> raw ! 0 = 0x01 then [dot, dot]
      else cut_version raw)"

definition jolietName :: "byte list \<Rightarrow> gostring res" where
  "jolietName raw =
     (if length raw = 1 \<and> raw ! 0 = 0x00 then Inr [dot]
      else if length raw = 1 \<and> raw ! 0 = 0x01 then Inr [dot, dot]
      else res_bind (map_res (\<lambda>i. res_bind (slice_from raw (2 * i)) be16) [0..<length raw div 2])
             (\<lambda>u. Inr (cut_version (encode_runes (utf16_decode u)))))"

section \<open>The parser\<close>

text \<open>
  The record and the number of bytes consumed; a leading zero byte (or an empty buffer) is
  an empty slot that consumes nothing.
\<close>

definition parseDirRecord :: "byte list \<Rightarrow> (dirRecord \<times> nat) res" where
  "parseDirRecord buf =
     (if length buf < 1 \<or> buf ! 0 = 0 then Inr (zero_dirRecord, 0)
      else
        let recLen = unat (buf ! 0) in
        if recLen < 33 \<or> recLen > length buf
        then Inl (Wrap ''%w: dir record length %d'' [Sentinel ErrCorrupt])
        else res_bind (index buf 32) (\<lambda>b32.
          let nameLen = unat b32 in
          if 33 + nameLen > recLen
          then Inl (Wrap ''%w: name length %d overflows record %d'' [Sentinel ErrCorrupt])
          else res_bind (res_bind (slice_from buf 2) le32) (\<lambda>lba.
            res_bind (res_bind (slice_from buf 10) le32) (\<lambda>sz.
            res_bind (index buf 25) (\<lambda>flags.
            res_bind (subslice buf 33 (33 + nameLen)) (\<lambda>raw.
            let suaStart = 33 + nameLen + (if nameLen mod 2 = 0 then 1 else 0) in
            res_bind (if suaStart < recLen then subslice buf suaStart recLen else Inr []) (\<lambda>sua.
              Inr (\<lparr>dr_Length = buf ! 0, dr_ExtentLBA = lba, dr_Size = sz, dr_Flags = flags,
                    dr_rawName = raw, dr_Name = cleanName raw, dr_sysUse = sua,
                    dr_extents = None\<rparr>, recLen))))))))"

section \<open>The parser in closed form\<close>

text \<open>What a well-formed record at the start of a buffer says.\<close>

definition record_ok :: "byte list \<Rightarrow> bool" where
  "record_ok buf \<longleftrightarrow>
     buf \<noteq> [] \<and> 33 \<le> unat (buf ! 0) \<and> unat (buf ! 0) \<le> length buf
     \<and> 33 + unat (buf ! 32) \<le> unat (buf ! 0)"

definition record_at :: "byte list \<Rightarrow> dirRecord" where
  "record_at buf =
     (let n = unat (buf ! 0); nameLen = unat (buf ! 32); raw = take nameLen (drop 33 buf);
          s = 33 + nameLen + (if even nameLen then 1 else 0) in
      \<lparr>dr_Length = buf ! 0, dr_ExtentLBA = projr (le32 (drop 2 buf)),
       dr_Size = projr (le32 (drop 10 buf)), dr_Flags = buf ! 25, dr_rawName = raw,
       dr_Name = cleanName raw, dr_sysUse = drop s (take n buf), dr_extents = None\<rparr>)"

lemma parseDirRecord_empty:
  "buf = [] \<or> buf ! 0 = 0 \<Longrightarrow> parseDirRecord buf = Inr (zero_dirRecord, 0)"
  by (auto simp: parseDirRecord_def)

lemma parseDirRecord_ok:
  assumes "record_ok buf"
  shows "parseDirRecord buf = Inr (record_at buf, unat (buf ! 0))"
proof -
  let ?n = "unat (buf ! 0)" and ?k = "unat (buf ! 32)"
  from assms have ne: "buf \<noteq> []" and len: "33 \<le> ?n" "?n \<le> length buf" "33 + ?k \<le> ?n"
    by (auto simp: record_ok_def)
  have nz: "buf ! 0 \<noteq> 0" using len by auto
  have room: "4 \<le> length (drop 2 buf)" "4 \<le> length (drop 10 buf)"
    using len(1,2) by simp_all
  obtain lba where lba: "le32 (drop 2 buf) = Inr lba"
    using le32_total [OF room(1)] by blast
  obtain sz where sz: "le32 (drop 10 buf) = Inr sz"
    using le32_total [OF room(2)] by blast
  have idx: "index buf 32 = Inr (buf ! 32)" "index buf 25 = Inr (buf ! 25)"
    and sl: "subslice buf 33 (33 + ?k) = Inr (take ?k (drop 33 buf))"
    and fr: "slice_from buf 2 = Inr (drop 2 buf)" "slice_from buf 10 = Inr (drop 10 buf)"
    using len by simp_all
  have sua: "(if s < ?n then subslice buf s ?n else Inr []) = Inr (drop s (take ?n buf))" for s
    using len(2) by (simp add: drop_take)
  have tests: "(length buf < 1 \<or> buf ! 0 = 0) = False" "(?n < 33 \<or> ?n > length buf) = False"
      "(33 + ?k > ?n) = False"
    using ne nz len by (auto simp: Suc_le_eq)
  show ?thesis
    unfolding parseDirRecord_def Let_def
    by (simp only: tests idx sl fr lba sz sua if_False res_bind_simps record_at_def Let_def
        even_iff_mod_2_eq_zero sum.sel)
qed

lemma parseDirRecord_corrupt:
  assumes "buf \<noteq> []" "buf ! 0 \<noteq> 0" "\<not> record_ok buf"
  shows "\<exists>m. parseDirRecord buf = Inl (Wrap m [Sentinel ErrCorrupt])"
proof (cases "unat (buf ! 0) < 33 \<or> unat (buf ! 0) > length buf")
  case True
  with assms show ?thesis by (auto simp: parseDirRecord_def Let_def Suc_le_eq)
next
  case False
  then have "index buf 32 = Inr (buf ! 32)" by simp
  with False assms show ?thesis
    by (auto simp: parseDirRecord_def Let_def record_ok_def Suc_le_eq)
qed

text \<open>Every outcome of the parser.\<close>

lemma parseDirRecord_cases:
  obtains (empty) "buf = [] \<or> buf ! 0 = 0" "parseDirRecord buf = Inr (zero_dirRecord, 0)"
  | (ok) "record_ok buf" "parseDirRecord buf = Inr (record_at buf, unat (buf ! 0))"
  | (corrupt) m where "\<not> record_ok buf" "buf \<noteq> []" "buf ! 0 \<noteq> 0"
      "parseDirRecord buf = Inl (Wrap m [Sentinel ErrCorrupt])"
  using parseDirRecord_empty parseDirRecord_ok parseDirRecord_corrupt by metis

lemma parseDirRecord_safe [safe_intros]: "safe (parseDirRecord buf)"
  by (cases buf rule: parseDirRecord_cases) auto

lemma parseDirRecord_no_panic: "parseDirRecord buf = Inl e \<Longrightarrow> \<not> is_panic e"
  using parseDirRecord_safe [of buf] by simp

lemma parseDirRecord_consumes:
  assumes "parseDirRecord buf = Inr (r, n)"
  shows "n \<le> length buf \<and> n \<le> 255 \<and> (n = 0 \<or> 33 \<le> n) \<and> dr_extents r = None"
proof (cases buf rule: parseDirRecord_cases)
  case ok
  then show ?thesis
    using assms byte_bound [of "buf ! 0"] by (auto simp: record_ok_def record_at_def Let_def)
qed (use assms in \<open>auto simp: zero_dirRecord_def\<close>)

section \<open>Names in closed form\<close>

lemma cut_version_eq: "cut_version s = trim_suffix (takeWhile (\<lambda>b. b \<noteq> semicolon) s) [dot]"
  by (simp add: cut_version_def index_byte_take)

lemma trim_suffix_set: "set (trim_suffix s suf) \<subseteq> set s"
  by (auto simp: trim_suffix_def dest: in_set_takeD)

lemma cut_version_no_semicolon: "semicolon \<notin> set (cut_version s)"
  using trim_suffix_set [of "takeWhile (\<lambda>b. b \<noteq> semicolon) s" "[dot]"]
  by (auto simp: cut_version_eq dest: set_takeWhileD)

lemma trim_suffix_snoc: "trim_suffix (s @ [c]) [d] = (if c = d then s else s @ [c])"
  by (simp add: trim_suffix_def)

lemma trim_suffix_no_dot: "s = [] \<or> last s \<noteq> c \<Longrightarrow> trim_suffix s [c] = s"
  by (cases s rule: rev_cases) (auto simp: trim_suffix_def)

lemma cut_version_version:
  assumes "semicolon \<notin> set s" "s = [] \<or> last s \<noteq> dot"
  shows "cut_version (s @ semicolon # v) = s" "cut_version s = s"
proof -
  have "takeWhile (\<lambda>b. b \<noteq> semicolon) (s @ semicolon # v) = s"
    by (rule takeWhile_append_stop) (use assms(1) in auto)
  then show "cut_version (s @ semicolon # v) = s"
    by (simp only: cut_version_eq trim_suffix_no_dot [OF assms(2)])
  have "takeWhile (\<lambda>b. b \<noteq> semicolon) s = s"
    using assms(1) by (auto simp: takeWhile_eq_all_conv)
  then show "cut_version s = s"
    by (simp only: cut_version_eq trim_suffix_no_dot [OF assms(2)])
qed

text \<open>Big-endian code units of a Joliet identifier.\<close>

lemma joliet_units:
  "map_res (\<lambda>i. res_bind (slice_from (concat (map putBE16 us)) (2 * i)) be16)
     [0..<length us] = Inr us"
proof -
  have len: "length (concat (map putBE16 us)) = 2 * length us" for us
    by (induction us) simp_all
  have dr: "drop (2 * i) (concat (map putBE16 us)) = putBE16 (us ! i) @ concat (map putBE16 (drop (Suc i) us))"
    if "i < length us" for i
    using that
  proof (induction us arbitrary: i)
    case (Cons u us)
    then show ?case by (cases i) (simp_all add: putBE16_def)
  qed simp
  have "map_res (\<lambda>i. res_bind (slice_from (concat (map putBE16 us)) (2 * i)) be16) [0..<length us]
        = Inr (map (\<lambda>i. us ! i) [0..<length us])"
    by (rule map_res_Inr) (simp add: len dr)
  then show ?thesis by (simp add: map_nth)
qed

lemma jolietName_units:
  "length us \<noteq> 0 \<Longrightarrow>
   jolietName (concat (map putBE16 us)) = Inr (cut_version (encode_runes (utf16_decode us)))"
proof -
  assume "length us \<noteq> 0"
  have len: "length (concat (map putBE16 us)) = 2 * length us"
    by (induction us) simp_all
  then show ?thesis
    by (simp add: jolietName_def joliet_units del: length_concat)
qed

lemma jolietName_returns [returns_intros]: "returns (jolietName raw)"
proof -
  have "returns (res_bind (slice_from raw (2 * i)) be16)" if "i \<in> set [0..<length raw div 2]" for i
  proof -
    have "2 * i + 2 \<le> length raw" using that by auto
    then show ?thesis by (auto intro!: returns_intros)
  qed
  then show ?thesis
    by (auto simp: jolietName_def intro!: returns_intros)
qed

lemmas jolietName_safe [safe_intros] = jolietName_returns [THEN returns_safe]

text \<open>The identifier of a Joliet record for a name.\<close>

definition ucs2 :: "rune list \<Rightarrow> byte list" where
  "ucs2 rs = concat (map putBE16 (concat (map utf16_encode rs)))"

lemma ascii_free_encode:
  "list_all valid_rune rs \<Longrightarrow> c < 0x80 \<Longrightarrow> c \<notin> set rs \<Longrightarrow> byte_of_nat c \<notin> set (encode_runes rs)"
proof (induction rs)
  case (Cons r rs)
  have "byte_of_nat c \<notin> set (encode_rune r)"
  proof
    assume "byte_of_nat c \<in> set (encode_rune r)"
    then have "(r < 0x80 \<and> byte_of_nat c = byte_of_nat r) \<or> 0x80 \<le> unat (byte_of_nat c)"
      using encode_rune_bytes [of r] Cons.prems(1) by auto
    moreover have "unat (byte_of_nat c) = c" using Cons.prems(2) by simp
    moreover have "unat (byte_of_nat r) = r" if "r < 0x80" using that by simp
    ultimately have "c = r" using Cons.prems(2) by (metis not_le)
    then show False using Cons.prems(3) by simp
  qed
  then show ?case using Cons by (simp add: encode_runes_def)
qed (simp add: encode_runes_def)

lemma ucs2_units: "rs \<noteq> [] \<Longrightarrow> length (concat (map utf16_encode rs)) \<noteq> 0"
  by (cases rs) (auto simp: utf16_encode_def)

section \<open>Properties\<close>

text \<open>
  C38: the parser of directory records is total and stays inside its buffer.  A leading zero
  byte or an empty buffer is an empty slot; a record whose recorded length and identifier
  length fit is decoded field by field and consumes its recorded length; everything else is
  \<^verbatim>\<open>ErrCorrupt\<close>.  There is no panic.
\<close>

theorem parseDirRecord_total:
  "(parseDirRecord buf = Inr (zero_dirRecord, 0)) = (buf = [] \<or> buf ! 0 = 0)
   \<and> (parseDirRecord buf = Inr (record_at buf, unat (buf ! 0)) \<and> buf \<noteq> [] \<and> buf ! 0 \<noteq> 0) = record_ok buf
   \<and> (\<exists>m. parseDirRecord buf = Inl (Wrap m [Sentinel ErrCorrupt])) = (buf \<noteq> [] \<and> buf ! 0 \<noteq> 0 \<and> \<not> record_ok buf)"
proof -
  have nz: "buf ! 0 \<noteq> 0" if "record_ok buf" using that by (auto simp: record_ok_def)
  have ne: "buf \<noteq> []" if "record_ok buf" using that by (auto simp: record_ok_def)
  show ?thesis
    by (cases buf rule: parseDirRecord_cases) (use nz ne in \<open>auto simp: record_ok_def\<close>)
qed

text \<open>
  A version suffix and a trailing dot are presentation, not name: an identifier that has
  neither reads back as it is, and so it does with \<open>";version"\<close>, a final dot, or both added.
\<close>

theorem cleanName_version:
  assumes "semicolon \<notin> set s" "s \<noteq> []" "last s \<noteq> dot" "s \<noteq> [0x00]" "s \<noteq> [0x01]"
  shows "cleanName s = s \<and> cleanName (s @ semicolon # v) = s \<and> cleanName (s @ [dot]) = s
    \<and> cleanName (s @ dot # semicolon # v) = s"
proof -
  have one: "length x = 1 \<and> x ! 0 = c \<longleftrightarrow> x = [c]" for x :: "byte list" and c
    by (cases x) auto
  have raw: "cleanName x = cut_version x" if "x \<noteq> [0x00]" "x \<noteq> [0x01]" for x
    using that unfolding cleanName_def one by simp
  have tw: "takeWhile (\<lambda>b. b \<noteq> semicolon) (s @ [dot]) = s @ [dot]"
    using assms(1) by (auto simp: takeWhile_eq_all_conv dot_def semicolon_def)
  have tw2: "takeWhile (\<lambda>b. b \<noteq> semicolon) ((s @ [dot]) @ semicolon # v) = s @ [dot]"
    by (rule takeWhile_append_stop) (use assms(1) in \<open>auto simp: dot_def semicolon_def\<close>)
  note cv = cut_version_version [OF assms(1) disjI2 [OF assms(3)]]
  have "cut_version (s @ [dot]) = s" "cut_version ((s @ [dot]) @ semicolon # v) = s"
    unfolding cut_version_eq tw tw2 by (simp_all add: trim_suffix_snoc)
  then show ?thesis using cv assms(2,4,5) raw by (cases s) simp_all
qed

theorem cleanName_version_witness:
  "cleanName (str ''A.B'' @ semicolon # str ''1'') = str ''A.B''"
  using cleanName_version [of "str ''A.B''" "str ''1''"]
  by (simp add: str_def semicolon_def dot_def)

text \<open>
  What a reader shows of a name in a Joliet record: the version and one final dot are cut off.
\<close>

definition shown_runes :: "rune list \<Rightarrow> rune list" where
  "shown_runes rs =
     (let s = takeWhile (\<lambda>r. r \<noteq> 0x3B) rs in if s \<noteq> [] \<and> last s = 0x2E then butlast s else s)"

lemma encode_runes_append: "encode_runes (xs @ ys) = encode_runes xs @ encode_runes ys"
  by (simp add: encode_runes_def)

lemma encode_semicolon: "encode_runes (0x3B # rs) = semicolon # encode_runes rs"
  and encode_dot: "encode_runes [0x2E] = [dot]"
  by (simp_all add: encode_runes_def encode_rune_def valid_rune_def byte_of_nat_def semicolon_def dot_def)

lemma trim_dot_runes:
  assumes "list_all valid_rune s"
  shows "trim_suffix (encode_runes s) [dot] = encode_runes (if s \<noteq> [] \<and> last s = 0x2E then butlast s else s)"
proof (cases s rule: rev_cases)
  case Nil
  then show ?thesis by (simp add: trim_suffix_def encode_runes_def)
next
  case (snoc q r)
  show ?thesis
  proof (cases "r = 0x2E")
    case True
    then show ?thesis by (simp add: snoc encode_runes_append encode_dot trim_suffix_snoc)
  next
    case False
    have "byte_of_nat 0x2E \<notin> set (encode_runes [r])"
      by (rule ascii_free_encode) (use assms snoc False in auto)
    then have "last (encode_runes s) \<noteq> dot"
      using last_in_set [OF encode_rune_nonempty, of r]
      by (auto simp: snoc dot_def byte_of_nat_def encode_runes_def simp del: last_in_set)
    then show ?thesis using False by (simp add: trim_suffix_no_dot snoc)
  qed
qed

lemma cut_version_runes:
  assumes "list_all valid_rune rs"
  shows "cut_version (encode_runes rs) = encode_runes (shown_runes rs)"
proof -
  define s where "s = takeWhile (\<lambda>r. r \<noteq> 0x3B) rs"
  have valid: "list_all valid_rune s"
    using assms by (auto simp: s_def list_all_iff dest: set_takeWhileD)
  have semi: "semicolon \<notin> set (encode_runes s)"
  proof -
    have "(0x3B :: nat) \<notin> set s" by (auto simp: s_def dest: set_takeWhileD)
    then have "byte_of_nat 0x3B \<notin> set (encode_runes s)" by (intro ascii_free_encode [OF valid]) simp_all
    then show ?thesis by (simp add: semicolon_def byte_of_nat_def)
  qed
  have "takeWhile (\<lambda>b. b \<noteq> semicolon) (encode_runes rs) = encode_runes s"
  proof (cases "dropWhile (\<lambda>r. r \<noteq> 0x3B) rs")
    case Nil
    then have "\<forall>r \<in> set rs. r \<noteq> 0x3B" unfolding dropWhile_eq_Nil_conv .
    then have "rs = s" unfolding s_def takeWhile_eq_all_conv [symmetric] by (rule sym)
    then have "semicolon \<notin> set (encode_runes rs)" using semi by simp
    then show ?thesis unfolding \<open>rs = s\<close> [symmetric] takeWhile_eq_all_conv by metis
  next
    case (Cons r rest)
    have "\<not> (\<lambda>r. r \<noteq> 0x3B) (hd (dropWhile (\<lambda>r. r \<noteq> 0x3B) rs))"
      by (rule hd_dropWhile) (use Cons in simp)
    then have "r = 0x3B" using Cons by simp
    then have "rs = s @ 0x3B # rest" using takeWhile_dropWhile_id [where P = "\<lambda>r. r \<noteq> 0x3B" and xs = rs] Cons by (simp add: s_def)
    then have "encode_runes rs = encode_runes s @ semicolon # encode_runes rest"
      by (simp only: encode_runes_append encode_semicolon)
    moreover have "takeWhile (\<lambda>b. b \<noteq> semicolon) (encode_runes s @ semicolon # encode_runes rest) = encode_runes s"
      by (rule takeWhile_append_stop) (use semi in metis, simp)
    ultimately show ?thesis by simp
  qed
  then show ?thesis using trim_dot_runes [OF valid] by (simp add: cut_version_eq shown_runes_def s_def)
qed

lemma shown_plain:
  "0x3B \<notin> set rs \<Longrightarrow> rs = [] \<or> last rs \<noteq> 0x2E \<Longrightarrow> shown_runes rs = rs"
  "0x3B \<notin> set rs \<Longrightarrow> rs = [] \<or> last rs \<noteq> 0x2E \<Longrightarrow> shown_runes (rs @ [0x3B, 0x31]) = rs"
proof -
  assume no_semi: "0x3B \<notin> set rs" and no_dot: "rs = [] \<or> last rs \<noteq> 0x2E"
  have "takeWhile (\<lambda>r. r \<noteq> 0x3B) rs = rs"
    unfolding takeWhile_eq_all_conv using no_semi by metis
  moreover have "takeWhile (\<lambda>r. r \<noteq> 0x3B) (rs @ [0x3B, 0x31]) = rs"
    by (rule takeWhile_append_stop) (use no_semi in metis, simp)
  ultimately show "shown_runes rs = rs" "shown_runes (rs @ [0x3B, 0x31]) = rs"
    unfolding shown_runes_def Let_def using no_dot by argo+
qed

text \<open>
  C39: the name of a Joliet record survives the way through big-endian UTF-16 and back to
  UTF-8, surrogate pairs included.  For every sequence of Unicode scalar values the reader shows
  the sequence up to its first semicolon, without one final dot; one that has neither a semicolon
  nor a final dot is shown as it is, with or without a version.
\<close>

theorem jolietName_roundtrip:
  assumes "list_all valid_rune rs"
  shows "jolietName (ucs2 rs) = Inr (encode_runes (shown_runes rs))
    \<and> (0x3B \<notin> set rs \<and> (rs = [] \<or> last rs \<noteq> 0x2E) \<longrightarrow>
         jolietName (ucs2 rs) = Inr (encode_runes rs)
         \<and> jolietName (ucs2 (rs @ [0x3B, 0x31])) = Inr (encode_runes rs))"
proof -
  have dec: "jolietName (ucs2 xs) = Inr (encode_runes (shown_runes xs))" if "list_all valid_rune xs" for xs
  proof (cases "xs = []")
    case True
    then show ?thesis
      by (simp add: jolietName_def ucs2_def shown_runes_def encode_runes_def cut_version_eq trim_suffix_def
          utf16_decode.simps)
  next
    case False
    then show ?thesis
      using jolietName_units [OF ucs2_units] utf16_decode_encodes [OF that] cut_version_runes [OF that]
      by (simp add: ucs2_def)
  qed
  have "list_all valid_rune (rs @ [0x3B, 0x31])" using assms by (simp add: valid_rune_def)
  from dec [OF assms] dec [OF this] show ?thesis by (metis shown_plain)
qed

theorem jolietName_roundtrip_witness:
  "jolietName (ucs2 [0x1F600, 0x61]) = Inr (encode_runes [0x1F600, 0x61])"
  by (rule jolietName_roundtrip [THEN conjunct2, rule_format, THEN conjunct1])
    (simp_all add: valid_rune_def)

end
