(* ===== verification/Paths.thy ===== *)
theory Paths
  imports DirRecord
begin

text \<open>
  \<^verbatim>\<open>splitPath\<close> of \<^verbatim>\<open>fs.go\<close>, which both the reader and the Builder apply to every path, and
  the joined path it takes apart again.
\<close>

section \<open>Splitting\<close>

definition splitPath :: "gostring \<Rightarrow> gostring list" where
  "splitPath p = filter (\<lambda>s. \<not> (s = [] \<or> s = [dot])) (split_on slash p)"

text \<open>A path component: what \<^verbatim>\<open>splitPath\<close> can return.\<close>

definition component :: "gostring \<Rightarrow> bool" where
  "component s \<longleftrightarrow> s \<noteq> [] \<and> s \<noteq> [dot] \<and> slash \<notin> set s"

lemma splitPath_components: "s \<in> set (splitPath p) \<Longrightarrow> component s"
  using split_on_free by (auto simp: splitPath_def component_def)

lemma splitPath_nil [simp]: "splitPath [] = []"
  by (simp add: splitPath_def)

section \<open>Joining\<close>

fun join_path :: "gostring list \<Rightarrow> gostring" where
  "join_path [] = []"
| "join_path [c] = c"
| "join_path (c # d # cs) = c @ slash # join_path (d # cs)"

lemma join_path_Cons: "cs \<noteq> [] \<Longrightarrow> join_path (c # cs) = c @ slash # join_path cs"
  by (cases cs) auto

lemma join_path_snoc: "cs \<noteq> [] \<Longrightarrow> join_path (cs @ [c]) = join_path cs @ slash # c"
  by (induction cs rule: join_path.induct) auto

lemma split_join:
  "cs \<noteq> [] \<Longrightarrow> (\<And>c. c \<in> set cs \<Longrightarrow> slash \<notin> set c) \<Longrightarrow> split_on slash (join_path cs) = cs"
  by (induction cs rule: join_path.induct) (auto simp: split_on_no_sep split_on_append)

lemma filter_components: "list_all component cs \<Longrightarrow> filter (\<lambda>s. \<not> (s = [] \<or> s = [dot])) cs = cs"
  by (auto simp: filter_id_conv list_all_iff component_def)

lemma splitPath_join:
  assumes "list_all component cs"
  shows "splitPath (join_path cs) = cs" and "splitPath (slash # join_path cs) = cs"
proof -
  have "cs = [] \<or> split_on slash (join_path cs) = cs"
    using assms split_join [of cs] by (auto simp: list_all_iff component_def)
  then show "splitPath (join_path cs) = cs" and "splitPath (slash # join_path cs) = cs"
    using filter_components [OF assms] by (auto simp: splitPath_def)
qed

lemma join_path_nonempty: "list_all component cs \<Longrightarrow> cs \<noteq> [] \<Longrightarrow> join_path cs \<noteq> []"
  by (cases cs rule: join_path.cases) (auto simp: component_def)

lemma last_join_path:
  "list_all component cs \<Longrightarrow> cs \<noteq> [] \<Longrightarrow> last (join_path cs) \<noteq> slash"
proof (induction cs rule: join_path.induct)
  case (2 c)
  then have "c \<noteq> []" "slash \<notin> set c" by (simp_all add: component_def)
  then show ?case by (metis join_path.simps(2) last_in_set)
next
  case (3 c d cs)
  then show ?case using join_path_nonempty [of "d # cs"] by simp
qed simp

lemma splitPath_append: "splitPath (p @ slash # q) = splitPath p @ splitPath q"
  by (simp add: splitPath_def split_on_concat)

section \<open>Properties\<close>

text \<open>
  \<^verbatim>\<open>splitPath\<close> normalises: it returns non-empty components without separators and
  without \<open>"."\<close>, joining them and splitting again changes nothing, leading and trailing
  separators do not matter, and the components of a composed path are those of its parts.
\<close>

theorem splitPath_normal:
  "list_all component (splitPath p)
   \<and> splitPath (join_path (splitPath p)) = splitPath p
   \<and> splitPath (slash # p) = splitPath p \<and> splitPath (p @ [slash]) = splitPath p
   \<and> splitPath (p @ slash # q) = splitPath p @ splitPath q"
proof -
  have c: "list_all component (splitPath p)"
    using splitPath_components by (auto simp: list_all_iff)
  then show ?thesis
    using splitPath_join [OF c] splitPath_append [of p "[]"] splitPath_append [of "[]" p]
      splitPath_append [of p q] by simp
qed

end
