(* ===== verification/Builder.thy ===== *)
theory Builder
  imports Paths "HOL-Library.AList" "HOL-Library.Sublist"
begin

text \<open>
  \<^verbatim>\<open>create.go\<close>, the tree a Builder accumulates.  The source links \<^verbatim>\<open>*node\<close> values by
  pointers and mutates them in place; here a heap holds the nodes, a pointer is a position of
  the heap, and \<^verbatim>\<open>&node{...}\<close> appends.  A \<^verbatim>\<open>map[string]*node\<close> is an association list without
  duplicate keys.

  The abstract view of a builder is the function from paths (component lists) to what is
  there; \<^verbatim>\<open>AddDir\<close> and \<^verbatim>\<open>AddFile\<close> refine the obvious updates of that function.
\<close>

section \<open>State\<close>

type_synonym addr = nat

record node =
  n_name :: gostring
  n_isDir :: bool
  n_data :: "byte list"
  n_children :: "(gostring \<times> addr) list"
  n_id :: gostring
  n_extentLBA :: u32
  n_extentLen :: u32
  n_parent :: "addr option"
  n_dirIndex :: nat

type_synonym heap = "node list"

text \<open>The civil fields of the \<^verbatim>\<open>time.Time\<close> that \<^verbatim>\<open>time.Now()\<close> returned, in UTC.\<close>

record gotime =
  t_Year :: nat
  t_Month :: nat
  t_Day :: nat
  t_Hour :: nat
  t_Minute :: nat
  t_Second :: nat
  t_Nanosecond :: nat

record Builder =
  b_heap :: heap
  b_root :: addr
  b_volumeID :: gostring
  b_created :: gotime
  b_pathTableMLBA :: u32

definition new_dir :: "gostring \<Rightarrow> node" where
  "new_dir name =
     \<lparr>n_name = name, n_isDir = True, n_data = [], n_children = [], n_id = [], n_extentLBA = 0,
      n_extentLen = 0, n_parent = None, n_dirIndex = 0\<rparr>"

definition new_file :: "gostring \<Rightarrow> byte list \<Rightarrow> node" where
  "new_file name data =
     \<lparr>n_name = name, n_isDir = False, n_data = data, n_children = [], n_id = [], n_extentLBA = 0,
      n_extentLen = 0, n_parent = None, n_dirIndex = 0\<rparr>"

definition NewBuilder :: "gostring \<Rightarrow> gotime \<Rightarrow> Builder" where
  "NewBuilder volumeID now =
     \<lparr>b_heap = [new_dir [slash]], b_root = 0, b_volumeID = volumeID, b_created = now,
      b_pathTableMLBA = 0\<rparr>"

section \<open>Operations\<close>

text \<open>\<^verbatim>\<open>dir.children[name] = &node{...}\<close>.\<close>

definition put_child :: "heap \<Rightarrow> addr \<Rightarrow> gostring \<Rightarrow> node \<Rightarrow> heap" where
  "put_child h d name nd =
     h[d := (h ! d)\<lparr>n_children := AList.update name (length h) (n_children (h ! d))\<rparr>] @ [nd]"

fun mkdir_loop :: "heap \<Rightarrow> addr \<Rightarrow> gostring list \<Rightarrow> heap \<times> addr res" where
  "mkdir_loop h cur [] = (h, Inr cur)"
| "mkdir_loop h cur (name # parts) =
     (case map_of (n_children (h ! cur)) name of
        None \<Rightarrow> mkdir_loop (put_child h cur name (new_dir name)) (length h) parts
      | Some child \<Rightarrow>
          if \<not> n_isDir (h ! child)
          then (h, Inl (Wrap ''%w: %q is a file'' [Sentinel ErrExists]))
          else mkdir_loop h child parts)"

definition mkdirAll :: "Builder \<Rightarrow> gostring list \<Rightarrow> Builder \<times> addr res" where
  "mkdirAll b parts =
     (let (h, r) = mkdir_loop (b_heap b) (b_root b) parts in (b\<lparr>b_heap := h\<rparr>, r))"

definition AddDir :: "Builder \<Rightarrow> gostring \<Rightarrow> Builder \<times> goerror option" where
  "AddDir b path =
     (case mkdirAll b (splitPath path) of
        (b', Inl e) \<Rightarrow> (b', Some e)
      | (b', Inr _) \<Rightarrow> (b', None))"

definition AddFile :: "Builder \<Rightarrow> gostring \<Rightarrow> byte list \<Rightarrow> Builder \<times> goerror option" where
  "AddFile b path data =
     (let parts = splitPath path in
      if length parts = 0 then (b, Some (Wrap ''%w: empty file path'' [Sentinel ErrInvalidName]))
      else
        case mkdirAll b (take (length parts - 1) parts) of
          (b', Inl e) \<Rightarrow> (b', Some e)
        | (b', Inr dir) \<Rightarrow>
            let name = parts ! (length parts - 1); h = b_heap b' in
            if (case map_of (n_children (h ! dir)) name of
                  Some existing \<Rightarrow> n_isDir (h ! existing) | None \<Rightarrow> False)
            then (b', Some (Wrap ''%w: %q is a directory'' [Sentinel ErrExists]))
            else (b'\<lparr>b_heap := put_child h dir name (new_file name data)\<rparr>, None))"

section \<open>Well-formed heaps\<close>

text \<open>
  Children are allocated after their parents, no node is the child of two entries, only
  directories have children, and every child is stored under its own name, a path component.
\<close>

definition wf_node :: "heap \<Rightarrow> addr \<Rightarrow> bool" where
  "wf_node h a \<longleftrightarrow>
     distinct (map fst (n_children (h ! a)))
     \<and> (\<forall>(k, c) \<in> set (n_children (h ! a)).
           a < c \<and> c < length h \<and> n_name (h ! c) = k \<and> component k)
     \<and> (\<not> n_isDir (h ! a) \<longrightarrow> n_children (h ! a) = [])"

definition single_parents :: "heap \<Rightarrow> bool" where
  "single_parents h \<longleftrightarrow>
     (\<forall>a < length h. \<forall>b < length h. \<forall>k l c.
        (k, c) \<in> set (n_children (h ! a)) \<longrightarrow> (l, c) \<in> set (n_children (h ! b)) \<longrightarrow> a = b \<and> k = l)"

definition wf_heap :: "heap \<Rightarrow> bool" where
  "wf_heap h \<longleftrightarrow>
     0 < length h \<and> n_isDir (h ! 0) \<and> (\<forall>a < length h. wf_node h a) \<and> single_parents h"

definition wf_builder :: "Builder \<Rightarrow> bool" where
  "wf_builder b \<longleftrightarrow> b_root b = 0 \<and> wf_heap (b_heap b)"

section \<open>Paths in the heap\<close>

fun node_at :: "heap \<Rightarrow> addr \<Rightarrow> gostring list \<Rightarrow> addr option" where
  "node_at h a [] = Some a"
| "node_at h a (p # ps) =
     (case map_of (n_children (h ! a)) p of None \<Rightarrow> None | Some c \<Rightarrow> node_at h c ps)"

lemma node_at_append:
  "node_at h a (p @ q) = (case node_at h a p of None \<Rightarrow> None | Some c \<Rightarrow> node_at h c q)"
  by (induction p arbitrary: a) (auto split: option.splits)

lemma child_facts:
  assumes "wf_heap h" "a < length h" "map_of (n_children (h ! a)) k = Some c"
  shows "a < c" "c < length h" "n_name (h ! c) = k" "component k" "(k, c) \<in> set (n_children (h ! a))"
    "n_isDir (h ! a)"
proof -
  have "wf_node h a" using assms(1,2) by (simp add: wf_heap_def)
  moreover from assms(3) have "(k, c) \<in> set (n_children (h ! a))" by (rule map_of_SomeD)
  ultimately show "a < c" "c < length h" "n_name (h ! c) = k" "component k"
    "(k, c) \<in> set (n_children (h ! a))" "n_isDir (h ! a)"
    by (auto simp: wf_node_def)
qed

lemma node_at_bound: "wf_heap h \<Longrightarrow> a < length h \<Longrightarrow> node_at h a p = Some c \<Longrightarrow> c < length h"
  by (induction p arbitrary: a) (auto split: option.splits dest: child_facts)

lemma node_at_snoc:
  "node_at h a (p @ [k]) = Some c \<longleftrightarrow>
   (\<exists>d. node_at h a p = Some d \<and> map_of (n_children (h ! d)) k = Some c)"
  by (auto simp: node_at_append split: option.splits)

lemma node_at_unique:
  assumes "wf_heap h" "node_at h 0 p = Some x" "node_at h 0 q = Some x"
  shows "p = q"
  using assms(2,3)
proof (induction p arbitrary: x q rule: rev_induct)
  case Nil
  show ?case
  proof (cases q rule: rev_cases)
    case (snoc q' k)
    then obtain d where "node_at h 0 q' = Some d" "map_of (n_children (h ! d)) k = Some x"
      using Nil.prems(2) node_at_snoc by metis
    moreover have "0 < length h" using assms(1) by (simp add: wf_heap_def)
    then have "d < length h" using calculation(1) by (rule node_at_bound [OF assms(1)])
    ultimately have "d < x" using child_facts(1) [OF assms(1)] by blast
    then show ?thesis using Nil.prems(1) by simp
  qed simp
next
  case (snoc k p)
  have len: "0 < length h" using assms(1) by (simp add: wf_heap_def)
  obtain d where d: "node_at h 0 p = Some d" "map_of (n_children (h ! d)) k = Some x"
    using snoc.prems(1) node_at_snoc by metis
  note dl = node_at_bound [OF assms(1) len d(1)]
  note x = child_facts [OF assms(1) dl d(2)]
  show ?case
  proof (cases q rule: rev_cases)
    case Nil
    then show ?thesis using snoc.prems(2) x(1) by simp
  next
    case (snoc q' l)
    then obtain e where e: "node_at h 0 q' = Some e" "map_of (n_children (h ! e)) l = Some x"
      using snoc.prems node_at_snoc \<open>node_at h 0 q = Some x\<close> by metis
    note el = node_at_bound [OF assms(1) len e(1)]
    have "d = e \<and> k = l"
      using assms(1) dl el x(5) child_facts(5) [OF assms(1) el e(2)]
      unfolding wf_heap_def single_parents_def by blast
    then show ?thesis using snoc.IH [OF d(1)] e(1) \<open>q = q' @ [l]\<close> by simp
  qed
qed

section \<open>Adding a child\<close>

text \<open>
  What both operations do to the heap: a fresh leaf is stored under a name of a directory
  that has no such entry, or has a file there.
\<close>

definition can_put :: "heap \<Rightarrow> addr \<Rightarrow> gostring \<Rightarrow> node \<Rightarrow> bool" where
  "can_put h d name nd \<longleftrightarrow>
     d < length h \<and> n_isDir (h ! d) \<and> component name
     \<and> n_name nd = name \<and> n_children nd = []
     \<and> (\<forall>c. map_of (n_children (h ! d)) name = Some c \<longrightarrow> \<not> n_isDir (h ! c))"

lemma put_child_nth:
  "d < length h \<Longrightarrow> a < length h \<Longrightarrow> put_child h d name nd ! a =
     (if a = d then (h ! d)\<lparr>n_children := AList.update name (length h) (n_children (h ! d))\<rparr> else h ! a)"
  "put_child h d name nd ! length h = nd" "length (put_child h d name nd) = Suc (length h)"
  by (simp_all add: put_child_def nth_append nth_list_update)

lemma put_child_fields [simp]:
  assumes "d < length h" "a < length h"
  shows "n_isDir (put_child h d name nd ! a) = n_isDir (h ! a)"
    "n_name (put_child h d name nd ! a) = n_name (h ! a)"
    "n_data (put_child h d name nd ! a) = n_data (h ! a)"
    "n_children (put_child h d name nd ! a)
      = (if a = d then AList.update name (length h) (n_children (h ! d)) else n_children (h ! a))"
  using assms by (simp_all add: put_child_nth)

lemma set_update: "(k, c) \<in> set (AList.update k' v al) \<Longrightarrow> (k, c) = (k', v) \<or> (k, c) \<in> set al"
  by (induction al) (auto split: if_splits)

lemma put_child_wf_node:
  assumes wf: "wf_heap h" and put: "can_put h d name nd" and "a < Suc (length h)"
  shows "wf_node (put_child h d name nd) a"
proof (cases "a = length h")
  case True
  then show ?thesis using put by (simp add: can_put_def wf_node_def put_child_nth)
next
  case False
  let ?h = "put_child h d name nd"
  have a: "a < length h" using assms(3) False by simp
  have d: "d < length h" "n_isDir (h ! d)" "component name" "n_name nd = name"
    using put by (auto simp: can_put_def)
  have wfn: "wf_node h a" using wf a by (simp add: wf_heap_def)
  have old: "a < c \<and> c < length ?h \<and> n_name (?h ! c) = k \<and> component k"
    if "(k, c) \<in> set (n_children (h ! a))" for k c
    using wfn that d(1) by (auto simp: wf_node_def put_child_nth)
  have new: "a < length h \<and> length h < length ?h \<and> n_name (?h ! length h) = name \<and> component name"
    using a d by (simp add: put_child_nth)
  have "distinct (map fst (n_children (?h ! a)))"
    using wfn a d(1) by (auto simp: wf_node_def intro: distinct_update)
  moreover have "a < c \<and> c < length ?h \<and> n_name (?h ! c) = k \<and> component k"
    if "(k, c) \<in> set (n_children (?h ! a))" for k c
    using that a d(1) old new by (auto split: if_splits dest: set_update)
  moreover have "n_children (?h ! a) = []" if "\<not> n_isDir (?h ! a)"
    using that wfn a d(1,2) by (auto simp: wf_node_def)
  ultimately show ?thesis unfolding wf_node_def by blast
qed

text \<open>Where an entry of the new heap comes from: it is the new one, or it was there.\<close>

lemma put_child_origin:
  assumes wf: "wf_heap h" and put: "can_put h d name nd"
    and "a < Suc (length h)" "(k, c) \<in> set (n_children (put_child h d name nd ! a))"
  shows "(a = d \<and> k = name \<and> c = length h)
    \<or> (a < length h \<and> c \<noteq> length h \<and> (k, c) \<in> set (n_children (h ! a)))"
proof (cases "a = length h")
  case True
  then show ?thesis using assms(4) put by (simp add: can_put_def put_child_nth)
next
  case False
  then have a: "a < length h" using assms(3) by simp
  have "c' < length h" if "(k', c') \<in> set (n_children (h ! a))" for k' c'
    using wf a that by (auto simp: wf_heap_def wf_node_def)
  then show ?thesis
    using assms(4) a put by (auto simp: can_put_def split: if_splits dest!: set_update)
qed

lemma put_child_wf:
  assumes wf: "wf_heap h" and put: "can_put h d name nd"
  shows "wf_heap (put_child h d name nd)"
proof -
  have "single_parents (put_child h d name nd)"
    unfolding single_parents_def put_child_nth(3)
  proof (intro allI impI)
    fix a b k l c
    assume ab: "a < Suc (length h)" "b < Suc (length h)"
      "(k, c) \<in> set (n_children (put_child h d name nd ! a))"
      "(l, c) \<in> set (n_children (put_child h d name nd ! b))"
    show "a = b \<and> k = l"
      using put_child_origin [OF wf put ab(1,3)] put_child_origin [OF wf put ab(2,4)] wf
      unfolding wf_heap_def single_parents_def by blast
  qed
  moreover have "d < length h" "n_isDir (h ! 0)" "0 < length h"
    using wf put by (auto simp: wf_heap_def can_put_def)
  ultimately show ?thesis
    unfolding wf_heap_def using put_child_wf_node [OF wf put] by (simp add: put_child_nth(3))
qed

text \<open>The paths after the insertion: one more, everything else as it was.\<close>

lemma node_at_leaf: "n_children (h ! a) = [] \<Longrightarrow> ps \<noteq> [] \<Longrightarrow> node_at h a ps = None"
  by (cases ps) auto

lemma can_put_leaf:
  assumes wf: "wf_heap h" and put: "can_put h d name nd"
    and c: "map_of (n_children (h ! d)) name = Some c" and "ps \<noteq> []"
  shows "node_at h c ps = None"
proof -
  have "d < length h" "\<not> n_isDir (h ! c)" using put c by (simp_all add: can_put_def)
  moreover from this(1) have "wf_node h c"
    using child_facts(2) [OF wf _ c] wf by (simp add: wf_heap_def)
  ultimately show ?thesis using node_at_leaf assms(4) by (simp add: wf_node_def)
qed

text \<open>A path that leaves the tree is not on the way to a node.\<close>

lemma off_the_tree:
  assumes "node_at h 0 r = Some x" "map_of (n_children (h ! x)) s = None"
    and "node_at h 0 q = Some d" "x = d \<Longrightarrow> s \<noteq> name"
  shows "r @ s # ps \<noteq> q @ [name]"
proof (cases ps rule: rev_cases)
  case Nil
  then show ?thesis using assms by auto
next
  case (snoc ps' z)
  have "q \<noteq> r @ s # ps'" using assms(1-3) by (auto simp: node_at_append)
  then show ?thesis using snoc by auto
qed

lemma put_child_node_at_from:
  assumes wf: "wf_heap h" and put: "can_put h d name nd" and q: "node_at h 0 q = Some d"
    and "node_at h 0 r = Some x" "\<not> prefix (q @ [name]) r"
  shows "node_at (put_child h d name nd) x p =
    (if r @ p = q @ [name] then Some (length h) else node_at h x p)"
  using assms(4,5)
proof (induction p arbitrary: r x)
  case Nil
  then have "r \<noteq> q @ [name]" by auto
  then show ?case by simp
next
  case (Cons s ps)
  let ?h = "put_child h d name nd"
  have len: "0 < length h" using wf by (simp add: wf_heap_def)
  have x: "x < length h" by (rule node_at_bound [OF wf len Cons.prems(1)])
  have d: "d < length h" "n_children nd = []" using put by (simp_all add: can_put_def)
  show ?case
  proof (cases "x = d \<and> s = name")
    case True
    then have "r = q" using node_at_unique [OF wf Cons.prems(1)] q by simp
    moreover have "node_at ?h x (s # ps) = (if ps = [] then Some (length h) else None)"
      using True x d by (cases ps) (simp_all add: update_conv put_child_nth)
    ultimately show ?thesis using True can_put_leaf [OF wf put] by (auto split: option.splits)
  next
    case False
    then have ch: "map_of (n_children (?h ! x)) s = map_of (n_children (h ! x)) s"
      using x d(1) by (auto simp: update_conv)
    show ?thesis
    proof (cases "map_of (n_children (h ! x)) s")
      case None
      then show ?thesis using ch False off_the_tree [OF Cons.prems(1) None q] by simp
    next
      case (Some c)
      have rc: "node_at h 0 (r @ [s]) = Some c" using Cons.prems(1) Some node_at_snoc by metis
      have "\<not> prefix (q @ [name]) (r @ [s])"
        using Cons.prems False q by (auto simp: prefix_snoc)
      then show ?thesis using Cons.IH [OF rc] ch Some by simp
    qed
  qed
qed

lemma put_child_node_at:
  assumes "wf_heap h" "can_put h d name nd" "node_at h 0 q = Some d"
  shows "node_at (put_child h d name nd) 0 p =
    (if p = q @ [name] then Some (length h) else node_at h 0 p)"
  using put_child_node_at_from [OF assms, of "[]" 0 p] by simp

section \<open>The abstract tree\<close>

datatype entry = Dir | File "byte list"

type_synonym tree = "gostring list \<Rightarrow> entry option"

definition entry_of :: "node \<Rightarrow> entry" where
  "entry_of nd = (if n_isDir nd then Dir else File (n_data nd))"

definition heap_tree :: "heap \<Rightarrow> tree" where
  "heap_tree h p = map_option (\<lambda>a. entry_of (h ! a)) (node_at h 0 p)"

definition tree :: "Builder \<Rightarrow> tree" where
  "tree b = heap_tree (b_heap b)"

text \<open>The specification of the two operations.\<close>

definition blocked :: "tree \<Rightarrow> gostring list \<Rightarrow> bool" where
  "blocked t parts \<longleftrightarrow> (\<exists>p d. prefix p parts \<and> t p = Some (File d))"

definition with_dirs :: "tree \<Rightarrow> gostring list \<Rightarrow> tree" where
  "with_dirs t parts = (\<lambda>p. if prefix p parts then Some Dir else t p)"

definition with_file :: "tree \<Rightarrow> gostring list \<Rightarrow> byte list \<Rightarrow> tree" where
  "with_file t parts d = (with_dirs t (butlast parts))(parts \<mapsto> File d)"

lemma put_child_tree:
  assumes "wf_heap h" "can_put h d name nd" "node_at h 0 q = Some d"
  shows "heap_tree (put_child h d name nd) = (heap_tree h)(q @ [name] \<mapsto> entry_of nd)"
proof
  fix p
  have len: "0 < length h" using assms(1) by (simp add: wf_heap_def)
  have d: "d < length h" using assms(2) by (simp add: can_put_def)
  have "entry_of (put_child h d name nd ! a) = entry_of (h ! a)" if "node_at h 0 p = Some a" for a
    using node_at_bound [OF assms(1) len that] d by (simp add: entry_of_def)
  then show "heap_tree (put_child h d name nd) p = ((heap_tree h)(q @ [name] \<mapsto> entry_of nd)) p"
    using put_child_node_at [OF assms, of p]
    by (cases "node_at h 0 p") (auto simp: heap_tree_def put_child_nth)
qed

lemma heap_tree_prefix:
  "heap_tree h (p @ q) \<noteq> None \<Longrightarrow> wf_heap h \<Longrightarrow> q \<noteq> [] \<Longrightarrow> heap_tree h p = Some Dir"
proof -
  assume a: "heap_tree h (p @ q) \<noteq> None" "wf_heap h" "q \<noteq> []"
  obtain k q' where q: "q = k # q'" using a(3) by (cases q) auto
  obtain x where x: "node_at h 0 p = Some x" "map_of (n_children (h ! x)) k \<noteq> None"
    using a(1) q by (auto simp: heap_tree_def node_at_append split: option.splits)
  have "0 < length h" using a(2) by (simp add: wf_heap_def)
  then have "x < length h" using x(1) by (rule node_at_bound [OF a(2)])
  then have "n_isDir (h ! x)" using x(2) child_facts(6) [OF a(2)] by blast
  then show ?thesis using x(1) by (simp add: heap_tree_def entry_of_def)
qed

lemma new_dir_fields [simp]:
  "n_isDir (new_dir name)" "n_name (new_dir name) = name" "n_children (new_dir name) = []"
  "entry_of (new_dir name) = Dir"
  by (simp_all add: new_dir_def entry_of_def)

lemma new_file_fields [simp]:
  "\<not> n_isDir (new_file name d)" "n_name (new_file name d) = name" "n_children (new_file name d) = []"
  "entry_of (new_file name d) = File d"
  by (simp_all add: new_file_def entry_of_def)

section \<open>mkdirAll\<close>

text \<open>Below a fresh directory nothing is in the way.\<close>

lemma mkdir_loop_fresh:
  "cur < length h \<Longrightarrow> n_children (h ! cur) = [] \<Longrightarrow> \<exists>h' a. mkdir_loop h cur parts = (h', Inr a)"
proof (induction parts arbitrary: h cur)
  case (Cons name parts)
  have "n_children (put_child h cur name (new_dir name) ! length h) = []"
    by (simp add: put_child_nth)
  moreover have "length h < length (put_child h cur name (new_dir name))"
    by (simp add: put_child_nth)
  ultimately show ?case using Cons.IH Cons.prems by simp
qed simp

text \<open>What the loop does from the directory at \<open>q\<close>.\<close>

definition mkdir_ok :: "heap \<Rightarrow> gostring list \<Rightarrow> gostring list \<Rightarrow> heap \<Rightarrow> addr \<Rightarrow> bool" where
  "mkdir_ok h q parts h' a \<longleftrightarrow>
     wf_heap h' \<and> node_at h' 0 (q @ parts) = Some a \<and> n_isDir (h' ! a)
     \<and> (\<forall>p d. prefix p parts \<longrightarrow> heap_tree h (q @ p) \<noteq> Some (File d))
     \<and> (\<forall>p. heap_tree h' p =
           (if \<exists>p'. p = q @ p' \<and> prefix p' parts then Some Dir else heap_tree h p))
     \<and> (heap_tree h (q @ parts) \<noteq> None \<longrightarrow> h' = h)"

definition mkdir_failed :: "heap \<Rightarrow> gostring list \<Rightarrow> gostring list \<Rightarrow> heap \<Rightarrow> goerror \<Rightarrow> bool" where
  "mkdir_failed h q parts h' e \<longleftrightarrow>
     h' = h \<and> e = Wrap ''%w: %q is a file'' [Sentinel ErrExists]
     \<and> (\<exists>p d. prefix p parts \<and> p \<noteq> [] \<and> heap_tree h (q @ p) = Some (File d))"

lemma prefix_step:
  "(\<exists>p'. p = q @ p' \<and> prefix p' (n # ps)) \<longleftrightarrow> p = q \<or> (\<exists>p'. p = (q @ [n]) @ p' \<and> prefix p' ps)"
  by (auto simp: prefix_Cons)

text \<open>The three branches of a round: the name is free, is a directory, is a file.\<close>

lemma mkdir_ok_fresh:
  assumes wf: "wf_heap h" and q: "node_at h 0 q = Some cur" and dir: "n_isDir (h ! cur)"
    and none: "map_of (n_children (h ! cur)) name = None"
    and put: "can_put h cur name (new_dir name)"
    and ok: "mkdir_ok (put_child h cur name (new_dir name)) (q @ [name]) parts h' a"
  shows "mkdir_ok h q (name # parts) h' a"
proof -
  have tq: "heap_tree h q = Some Dir" using q dir by (simp add: heap_tree_def entry_of_def)
  have below: "heap_tree h (q @ name # p) = None" for p
    using q none by (simp add: heap_tree_def node_at_append)
  have t: "heap_tree (put_child h cur name (new_dir name)) = (heap_tree h)(q @ [name] \<mapsto> Dir)"
    using put_child_tree [OF wf put q] by simp
  have "heap_tree h' p = (if \<exists>p'. p = q @ p' \<and> prefix p' (name # parts) then Some Dir else heap_tree h p)" for p
    using ok tq unfolding mkdir_ok_def t prefix_step by auto
  moreover have "heap_tree h (q @ p) \<noteq> Some (File d)" if "prefix p (name # parts)" for p d
    using that tq below by (auto simp: prefix_Cons)
  ultimately show ?thesis using ok below unfolding mkdir_ok_def by simp
qed

lemma mkdir_ok_existing:
  assumes tq: "heap_tree h q = Some Dir" and ok: "mkdir_ok h (q @ [name]) parts h' a"
  shows "mkdir_ok h q (name # parts) h' a"
proof -
  have "heap_tree h' p = (if \<exists>p'. p = q @ p' \<and> prefix p' (name # parts) then Some Dir else heap_tree h p)" for p
    using ok tq unfolding mkdir_ok_def prefix_step by auto
  moreover have "heap_tree h (q @ p) \<noteq> Some (File d)" if "prefix p (name # parts)" for p d
    using that tq ok unfolding mkdir_ok_def by (auto simp: prefix_Cons)
  ultimately show ?thesis using ok unfolding mkdir_ok_def by simp
qed

lemma mkdir_failed_below:
  assumes "mkdir_failed h (q @ [name]) parts h' e"
  shows "mkdir_failed h q (name # parts) h' e"
proof -
  obtain p d where "prefix (name # p) (name # parts)" "heap_tree h (q @ name # p) = Some (File d)"
    using assms by (auto simp: mkdir_failed_def)
  then show ?thesis using assms unfolding mkdir_failed_def by blast
qed

lemma mkdir_failed_file:
  assumes "node_at h 0 (q @ [name]) = Some c" "\<not> n_isDir (h ! c)"
  shows "mkdir_failed h q (name # parts) h (Wrap ''%w: %q is a file'' [Sentinel ErrExists])"
proof -
  have "heap_tree h (q @ [name]) = Some (File (n_data (h ! c)))"
    using assms by (simp add: heap_tree_def entry_of_def)
  moreover have "prefix [name] (name # parts)" by simp
  ultimately show ?thesis unfolding mkdir_failed_def by blast
qed

lemma mkdir_loop_spec:
  assumes "wf_heap h" "node_at h 0 q = Some cur" "n_isDir (h ! cur)" "list_all component parts"
    and "mkdir_loop h cur parts = (h', r)"
  shows "case r of Inl e \<Rightarrow> mkdir_failed h q parts h' e | Inr a \<Rightarrow> mkdir_ok h q parts h' a"
  using assms
proof (induction parts arbitrary: h cur q)
  case Nil
  have "heap_tree h q = Some Dir" using Nil.prems(2,3) by (simp add: heap_tree_def entry_of_def)
  then show ?case using Nil.prems by (auto simp: mkdir_ok_def)
next
  case (Cons name parts)
  note wf = Cons.prems(1) and q = Cons.prems(2) and dir = Cons.prems(3)
  have len: "0 < length h" using wf by (simp add: wf_heap_def)
  have tq: "heap_tree h q = Some Dir" using q dir by (simp add: heap_tree_def entry_of_def)
  have comp: "component name" "list_all component parts" using Cons.prems(4) by simp_all
  show ?case
  proof (cases "map_of (n_children (h ! cur)) name")
    case None
    let ?h = "put_child h cur name (new_dir name)"
    have put: "can_put h cur name (new_dir name)"
      using node_at_bound [OF wf len q] dir comp None by (simp add: can_put_def)
    have call: "mkdir_loop ?h (length h) parts = (h', r)" using Cons.prems(5) None by simp
    have fresh: "length h < length ?h" "n_children (?h ! length h) = []" "n_isDir (?h ! length h)"
      by (simp_all add: put_child_nth)
    obtain a where r: "r = Inr a" using mkdir_loop_fresh [OF fresh(1,2), of parts] call by auto
    have at: "node_at ?h 0 (q @ [name]) = Some (length h)"
      using put_child_node_at [OF wf put q] by simp
    show ?thesis
      using Cons.IH [OF put_child_wf [OF wf put] at fresh(3) comp(2) call]
        mkdir_ok_fresh [OF wf q dir None put] r by simp
  next
    case (Some c)
    then have at: "node_at h 0 (q @ [name]) = Some c" using q node_at_snoc by metis
    show ?thesis
    proof (cases "n_isDir (h ! c)")
      case False
      then show ?thesis using Cons.prems(5) Some mkdir_failed_file [OF at False] by auto
    next
      case True
      then have call: "mkdir_loop h c parts = (h', r)" using Cons.prems(5) Some by simp
      show ?thesis
        using Cons.IH [OF wf at True comp(2) call]
        by (auto intro: mkdir_failed_below mkdir_ok_existing [OF tq] split: sum.splits)
    qed
  qed
qed

lemma mkdirAll_spec:
  assumes "wf_builder b" "list_all component parts" "mkdirAll b parts = (b', r)"
  shows "case r of
      Inl e \<Rightarrow> b' = b \<and> errors_is e ErrExists \<and> blocked (tree b) parts
    | Inr a \<Rightarrow> wf_builder b' \<and> node_at (b_heap b') 0 parts = Some a \<and> n_isDir (b_heap b' ! a)
        \<and> \<not> blocked (tree b) parts \<and> tree b' = with_dirs (tree b) parts
        \<and> (tree b parts \<noteq> None \<longrightarrow> b' = b)"
proof -
  have wf: "wf_heap (b_heap b)" "b_root b = 0" using assms(1) by (simp_all add: wf_builder_def)
  obtain h' where call: "mkdir_loop (b_heap b) 0 parts = (h', r)" and b': "b' = b\<lparr>b_heap := h'\<rparr>"
    using assms(3) wf(2) by (auto simp: mkdirAll_def split: prod.splits)
  have dir: "n_isDir (b_heap b ! 0)" using wf(1) by (simp add: wf_heap_def)
  note S = mkdir_loop_spec [OF wf(1) _ dir assms(2) call, of "[]", simplified]
  show ?thesis
  proof (cases r)
    case (Inl e)
    then show ?thesis
      using S b' by (auto simp: mkdir_failed_def blocked_def tree_def)
  next
    case (Inr a)
    then have ok: "mkdir_ok (b_heap b) [] parts h' a" using S by simp
    then have "heap_tree h' = with_dirs (heap_tree (b_heap b)) parts"
      by (intro ext) (simp add: mkdir_ok_def with_dirs_def)
    then show ?thesis
      using ok Inr b' wf(2) by (auto simp: mkdir_ok_def blocked_def tree_def wf_builder_def)
  qed
qed

section \<open>A new builder\<close>

lemma NewBuilder_wf [simp]: "wf_builder (NewBuilder vid now)"
  by (simp add: wf_builder_def NewBuilder_def wf_heap_def wf_node_def single_parents_def)

lemma NewBuilder_tree: "tree (NewBuilder vid now) = [[] \<mapsto> Dir]"
proof
  fix p show "tree (NewBuilder vid now) p = [[] \<mapsto> Dir] p"
    by (cases p) (simp_all add: tree_def heap_tree_def NewBuilder_def)
qed

definition sample_time :: gotime where
  "sample_time = \<lparr>t_Year = 2026, t_Month = 1, t_Day = 2, t_Hour = 3, t_Minute = 4, t_Second = 5, t_Nanosecond = 0\<rparr>"

section \<open>Properties\<close>

text \<open>
  C19: \<^verbatim>\<open>AddDir\<close> refines the update of the tree.  It fails exactly when a prefix of the path is
  a file, with \<^verbatim>\<open>ErrExists\<close> and without touching the builder; otherwise the tree has the
  directory and its parents, and everything else as before.
\<close>

theorem AddDir_refines:
  assumes "wf_builder b" "AddDir b path = (b', e)"
  shows "case e of
      Some err \<Rightarrow> b' = b \<and> errors_is err ErrExists \<and> blocked (tree b) (splitPath path)
    | None \<Rightarrow> wf_builder b' \<and> \<not> blocked (tree b) (splitPath path)
        \<and> tree b' = with_dirs (tree b) (splitPath path)"
proof -
  have comp: "list_all component (splitPath path)"
    using splitPath_components by (auto simp: list_all_iff)
  obtain b1 r where r: "mkdirAll b (splitPath path) = (b1, r)" by fastforce
  show ?thesis
    using mkdirAll_spec [OF assms(1) comp r] assms(2) r by (cases r) (auto simp: AddDir_def)
qed

lemma splitPath_sample: "splitPath (str ''a/b'') = [str ''a'', str ''b'']"
  by (simp add: splitPath_def str_def slash_def dot_def)

theorem AddDir_refines_witness:
  "\<exists>b'. AddDir (NewBuilder [] sample_time) (str ''a/b'') = (b', None) \<and> tree b' [str ''a''] = Some Dir"
proof -
  obtain b' e where c: "AddDir (NewBuilder [] sample_time) (str ''a/b'') = (b', e)" by fastforce
  have "\<not> blocked (tree (NewBuilder [] sample_time)) p" for p
    by (simp add: NewBuilder_tree blocked_def)
  with AddDir_refines [OF NewBuilder_wf c] have "e = None"
    "tree b' = with_dirs (tree (NewBuilder [] sample_time)) [str ''a'', str ''b'']"
    by (simp_all add: splitPath_sample split: option.splits)
  with c show ?thesis by (simp add: with_dirs_def)
qed

lemma tree_at_child:
  "node_at h 0 dirs = Some dir \<Longrightarrow>
   heap_tree h (dirs @ [name]) = map_option (\<lambda>c. entry_of (h ! c)) (map_of (n_children (h ! dir)) name)"
  by (simp add: heap_tree_def node_at_append split: option.splits)

lemma AddFile_at:
  assumes "splitPath path = dirs @ [name]" "mkdirAll b dirs = (b1, Inr dir)" "node_at (b_heap b1) 0 dirs = Some dir"
  shows "AddFile b path data =
    (if tree b1 (dirs @ [name]) = Some Dir
     then (b1, Some (Wrap ''%w: %q is a directory'' [Sentinel ErrExists]))
     else (b1\<lparr>b_heap := put_child (b_heap b1) dir name (new_file name data)\<rparr>, None))"
  using assms by (auto simp: AddFile_def Let_def tree_def tree_at_child entry_of_def split: option.splits)

lemma put_file:
  assumes wf: "wf_heap h" and at: "node_at h 0 dirs = Some dir" "n_isDir (h ! dir)"
    and name: "component name" "heap_tree h (dirs @ [name]) \<noteq> Some Dir"
  shows "wf_heap (put_child h dir name (new_file name data))"
    "heap_tree (put_child h dir name (new_file name data)) = (heap_tree h)(dirs @ [name] \<mapsto> File data)"
proof -
  have len: "0 < length h" using wf by (simp add: wf_heap_def)
  have "\<not> n_isDir (h ! c)" if "map_of (n_children (h ! dir)) name = Some c" for c
    using name(2) tree_at_child [OF at(1)] that by (auto simp: entry_of_def split: if_splits)
  then have put: "can_put h dir name (new_file name data)"
    using at(2) name(1) node_at_bound [OF wf len at(1)] by (simp add: can_put_def)
  show "wf_heap (put_child h dir name (new_file name data))" by (rule put_child_wf [OF wf put])
  show "heap_tree (put_child h dir name (new_file name data)) = (heap_tree h)(dirs @ [name] \<mapsto> File data)"
    using put_child_tree [OF wf put at(1)] by simp
qed

text \<open>
  C14: \<^verbatim>\<open>AddFile\<close> refines the update of the tree.  The empty path is \<^verbatim>\<open>ErrInvalidName\<close>; a file
  in place of a parent, or a directory in place of the file, is \<^verbatim>\<open>ErrExists\<close>; every failure
  leaves the builder as it was.  On success the file is there with exactly the given bytes
  (an earlier file is replaced), its parents exist, and nothing else has changed.
\<close>

theorem AddFile_refines:
  assumes "wf_builder b" "AddFile b path data = (b', e)"
  shows "let parts = splitPath path in case e of
      Some err \<Rightarrow> b' = b
        \<and> (if parts = [] then errors_is err ErrInvalidName
           else errors_is err ErrExists \<and> (blocked (tree b) (butlast parts) \<or> tree b parts = Some Dir))
    | None \<Rightarrow> wf_builder b' \<and> parts \<noteq> [] \<and> \<not> blocked (tree b) (butlast parts)
        \<and> tree b parts \<noteq> Some Dir \<and> tree b' = with_file (tree b) parts data"
proof (cases "splitPath path = []")
  case True
  then show ?thesis using assms(2) by (auto simp: AddFile_def)
next
  case False
  let ?parts = "splitPath path"
  obtain dirs name where parts: "?parts = dirs @ [name]" using False by (cases ?parts rule: rev_cases) auto
  have comp: "list_all component dirs" "component name"
    using splitPath_components [of _ path] by (auto simp: list_all_iff parts)
  obtain b1 r where r: "mkdirAll b dirs = (b1, r)" by fastforce
  note S = mkdirAll_spec [OF assms(1) comp(1) r]
  show ?thesis
  proof (cases r)
    case (Inl err)
    then show ?thesis using S assms(2) r False by (auto simp: AddFile_def parts)
  next
    case (Inr dir)
    have ok: "wf_heap (b_heap b1)" "b_root b1 = 0" "node_at (b_heap b1) 0 dirs = Some dir"
        "n_isDir (b_heap b1 ! dir)" "\<not> blocked (tree b) dirs" "tree b1 = with_dirs (tree b) dirs"
        "tree b dirs \<noteq> None \<longrightarrow> b1 = b"
      using S Inr by (auto simp: wf_builder_def)
    have here: "tree b1 ?parts = tree b ?parts"
      using ok(6) by (simp add: parts with_dirs_def prefix_def)
    note call = AddFile_at [OF parts r [unfolded Inr] ok(3), of data, folded parts, unfolded here]
    show ?thesis
    proof (cases "tree b ?parts = Some Dir")
      case True
      then have "tree b dirs \<noteq> None"
        using heap_tree_prefix [of "b_heap b" dirs "[name]"] assms(1)
        by (auto simp: tree_def parts wf_builder_def)
      then show ?thesis using call assms(2) True False ok(7) by auto
    next
      case notdir: False
      then have res: "b' = b1\<lparr>b_heap := put_child (b_heap b1) dir name (new_file name data)\<rparr>" "e = None"
        using call assms(2) by auto
      have "heap_tree (b_heap b1) (dirs @ [name]) \<noteq> Some Dir"
        using notdir here by (simp add: tree_def parts)
      from put_file [OF ok(1,3,4) comp(2) this, of data] show ?thesis
        using ok(2,5,6) res notdir False by (simp add: parts wf_builder_def tree_def with_file_def)
    qed
  qed
qed

theorem AddFile_refines_witness:
  "\<exists>b'. AddFile (NewBuilder [] sample_time) (str ''a/b'') [1, 2] = (b', None)
     \<and> tree b' [str ''a'', str ''b''] = Some (File [1, 2])"
proof -
  obtain b' e where c: "AddFile (NewBuilder [] sample_time) (str ''a/b'') [1, 2] = (b', e)" by fastforce
  have "\<not> blocked (tree (NewBuilder [] sample_time)) p" for p
    by (simp add: NewBuilder_tree blocked_def)
  with AddFile_refines [OF NewBuilder_wf c] have "e = None"
    "tree b' = with_file (tree (NewBuilder [] sample_time)) [str ''a'', str ''b''] [1, 2]"
    by (cases e; simp add: splitPath_sample NewBuilder_tree)+
  with c show ?thesis by (simp add: with_file_def)
qed

end
