(* ===== verification/Identifiers.thy ===== *)
theory Identifiers
  imports GoText
begin

text \<open>
  The identifier construction of \<^verbatim>\<open>create.go\<close>: interchange level 1 names, their
  disambiguation among siblings, and the volume identifier.  The lemmas give the shape of
  every identifier, show that the variants of a base are pairwise different, and that the
  search for an unused one terminates and finds one.
\<close>

section \<open>Numbers in decimal\<close>

text \<open>\<^verbatim>\<open>%d\<close> and \<^verbatim>\<open>%0nd\<close> of \<^verbatim>\<open>fmt.Sprintf\<close> on a natural number.\<close>

fun decimal :: "nat \<Rightarrow> gostring" where
  "decimal n =
     (if n < 10 then [byte_of_nat (48 + n)]
      else decimal (n div 10) @ [byte_of_nat (48 + n mod 10)])"

declare decimal.simps [simp del]

definition decimal_pad :: "nat \<Rightarrow> nat \<Rightarrow> gostring" where
  "decimal_pad w n = replicate (w - length (decimal n)) (byte_of_nat 48) @ decimal n"

definition digit :: "byte \<Rightarrow> bool" where
  "digit b \<longleftrightarrow> 48 \<le> unat b \<and> unat b \<le> 57"

lemma decimal_digits: "b \<in> set (decimal n) \<Longrightarrow> digit b"
proof (induction n rule: decimal.induct)
  case (1 n)
  show ?case
  proof (cases "n < 10")
    case True
    then show ?thesis using 1 by (simp add: decimal.simps [of n] digit_def)
  next
    case False
    have "n mod 10 \<le> 9" using mod_less_divisor [of 10 n] by linarith
    then show ?thesis using 1 False by (auto simp: decimal.simps [of n] digit_def)
  qed
qed

lemma decimal_nonempty [simp]: "decimal n \<noteq> []"
  by (simp add: decimal.simps [of n])

lemma decimal_inj: "decimal m = decimal n \<Longrightarrow> m = n"
proof (induction m arbitrary: n rule: decimal.induct)
  case (1 m)
  have last: "unat (last (decimal k)) = 48 + k mod 10" for k
  proof -
    have "k mod 10 \<le> 9" using mod_less_divisor [of 10 k] by linarith
    then show ?thesis by (simp add: decimal.simps [of k])
  qed
  have m: "m mod 10 = n mod 10" using last [of m] last [of n] 1(2) by simp
  have len: "length (decimal k) = 1 \<longleftrightarrow> k < 10" for k
    by (simp add: decimal.simps [of k])
  show ?case
  proof (cases "m < 10")
    case True
    then have "n < 10" using len [of m] len [of n] 1(2) by simp
    then show ?thesis using True m by simp
  next
    case False
    then have n: "\<not> n < 10" using len [of m] len [of n] 1(2) by simp
    then have "decimal (m div 10) = decimal (n div 10)"
      using False 1(2) by (simp add: decimal.simps [of m] decimal.simps [of n])
    then have "m div 10 = n div 10" using 1(1) False by simp
    then show ?thesis using m by (metis div_mult_mod_eq)
  qed
qed

lemma length_decimal: "n < 10 ^ k \<Longrightarrow> 0 < k \<Longrightarrow> length (decimal n) \<le> k"
proof (induction k arbitrary: n)
  case (Suc k)
  show ?case
  proof (cases "n < 10")
    case True
    then show ?thesis by (simp add: decimal.simps [of n])
  next
    case False
    then have "0 < k" using Suc.prems by (cases k) auto
    moreover have "n div 10 < 10 ^ k" using Suc.prems(1) by (simp add: less_mult_imp_div_less mult.commute)
    ultimately show ?thesis using Suc.IH [of "n div 10"] False by (simp add: decimal.simps [of n])
  qed
qed simp

lemma length_decimal_pad: "n < 10 ^ w \<Longrightarrow> 0 < w \<Longrightarrow> length (decimal_pad w n) = w"
  using length_decimal [of n w] by (simp add: decimal_pad_def)

section \<open>Fields\<close>

definition clampField :: "gostring \<Rightarrow> int \<Rightarrow> gostring" where
  "clampField s n0 =
     (let n = (if n0 < 0 then 0 else n0) in
      if int (length s) > n then take (nat n) s else s)"

lemma clampField_take: "clampField s n = take (nat n) s"
  by (auto simp: clampField_def Let_def)

lemma length_clampField: "length (clampField s n) = min (nat n) (length s)"
  by (simp add: clampField_take min.commute)

text \<open>\<^verbatim>\<open>strings.ToUpper\<close>, rune by rune.\<close>

definition to_upper :: "gostring \<Rightarrow> gostring" where
  "to_upper s = encode_runes (map rune_upper (runes s))"

definition under :: byte where "under = 0x5F"

definition sanitize_rune :: "rune \<Rightarrow> gostring" where
  "sanitize_rune r =
     (if (0x41 \<le> r \<and> r \<le> 0x5A) \<or> (0x30 \<le> r \<and> r \<le> 0x39) \<or> r = 0x5F
      then encode_rune r else [under])"

definition sanitize :: "gostring \<Rightarrow> gostring" where
  "sanitize name = concat (map sanitize_rune (runes (to_upper name)))"

text \<open>The d-characters of level 1.\<close>

definition dchar :: "byte \<Rightarrow> bool" where
  "dchar b \<longleftrightarrow> (0x41 \<le> unat b \<and> unat b \<le> 0x5A) \<or> (0x30 \<le> unat b \<and> unat b \<le> 0x39) \<or> unat b = 0x5F"

lemma sanitize_rune_dchar:
  "\<exists>b. sanitize_rune r = [b] \<and> dchar b"
proof (cases "(0x41 \<le> r \<and> r \<le> 0x5A) \<or> (0x30 \<le> r \<and> r \<le> 0x39) \<or> r = 0x5F")
  case True
  then have "r < 0x80" "valid_rune r" by (auto simp: valid_rune_def)
  then show ?thesis using True by (auto simp: sanitize_rune_def encode_rune_def dchar_def)
next
  case False
  then show ?thesis by (auto simp: sanitize_rune_def under_def dchar_def)
qed

lemma concat_sanitize:
  "list_all dchar (concat (map sanitize_rune rs)) \<and> length (concat (map sanitize_rune rs)) = length rs"
proof (induction rs)
  case (Cons r rs)
  obtain b where "sanitize_rune r = [b]" "dchar b" using sanitize_rune_dchar by blast
  then show ?case using Cons by simp
qed simp

lemma sanitize_dchars: "list_all dchar (sanitize s)"
  using concat_sanitize by (simp add: sanitize_def)

lemma runes_nonempty: "s \<noteq> [] \<Longrightarrow> runes s \<noteq> []"
  by (cases s) (simp_all add: runes.simps(2))

lemma encode_runes_nonempty: "rs \<noteq> [] \<Longrightarrow> encode_runes rs \<noteq> []"
  by (cases rs) (simp_all add: encode_runes_def)

lemma sanitize_nonempty: "s \<noteq> [] \<Longrightarrow> sanitize s \<noteq> []"
proof -
  assume "s \<noteq> []"
  then have "runes (to_upper s) \<noteq> []"
    by (simp add: to_upper_def runes_nonempty encode_runes_nonempty)
  then have "0 < length (sanitize s)" using concat_sanitize by (simp add: sanitize_def)
  then show ?thesis by simp
qed

text \<open>A name that already consists of d-characters is kept.\<close>

lemma dchar_rune:
  assumes "dchar b"
  shows "unat b < 0x80" "rune_upper (unat b) = unat b" "encode_rune (unat b) = [b]"
    "sanitize_rune (unat b) = [b]"
proof -
  show b: "unat b < 0x80" and "rune_upper (unat b) = unat b"
    using assms by (auto simp: dchar_def rune_upper_def)
  then show e: "encode_rune (unat b) = [b]" by (simp add: encode_rune_def valid_rune_def)
  show "sanitize_rune (unat b) = [b]"
    unfolding sanitize_rune_def e using assms by (auto simp: dchar_def)
qed

lemma sanitize_id:
  assumes "list_all dchar s"
  shows "sanitize s = s"
proof -
  have a: "ascii s" using assms dchar_rune(1) by (auto simp: ascii_def list_all_iff)
  have u: "map rune_upper (map unat s) = map unat s"
    using assms dchar_rune(2) by (auto simp: list_all_iff)
  have e: "encode_runes (map unat s) = s"
    using assms by (induction s) (simp_all add: encode_runes_def dchar_rune(3))
  have c: "concat (map sanitize_rune (map unat s)) = s"
    using assms by (induction s) (simp_all add: dchar_rune(4))
  show ?thesis
    using c by (simp only: sanitize_def to_upper_def runes_ascii [OF a] u e)
qed

section \<open>Identifiers\<close>

definition dot_byte :: byte where "dot_byte = 0x2E"

definition isoIdentifier :: "gostring \<Rightarrow> bool \<Rightarrow> gostring" where
  "isoIdentifier name isDir =
     (if isDir then clampField (sanitize name) 8
      else
        let (base, ext) =
              (case last_index_byte name dot_byte of
                 Some i \<Rightarrow> if i > 0 then (take i name, drop (i + 1) name) else (name, [])
               | None \<Rightarrow> (name, []));
            base' = clampField (sanitize base) 8;
            base'' = (if base' = [] then str ''_'' else base');
            ext' = clampField (sanitize ext) 3
        in if ext' \<noteq> [] then base'' @ str ''.'' @ ext' @ str '';1'' else base'' @ str '';1'')"

definition disambiguate :: "gostring \<Rightarrow> bool \<Rightarrow> nat \<Rightarrow> gostring" where
  "disambiguate base isDir k =
     (let suffix = str ''~'' @ decimal k in
      if isDir then clampField base (8 - int (length suffix)) @ suffix
      else
        let (name, rest) =
              (case index_byte base dot_byte of
                 Some i \<Rightarrow> (take i base, drop i base)
               | None \<Rightarrow>
                   (case index_byte base 0x3B of
                      Some i \<Rightarrow> (take i base, drop i base)
                    | None \<Rightarrow> (base, [])))
        in clampField name (8 - int (length suffix)) @ suffix @ rest)"

definition volumeIdent :: "gostring \<Rightarrow> gostring" where
  "volumeIdent name =
     (let ident = clampField (sanitize name) 32 in if ident = [] then str ''CDROM'' else ident)"

section \<open>Different counters, different identifiers\<close>

definition tilde :: byte where "tilde = 0x7E"

lemma str_tilde: "str ''~'' = [tilde]"
  by (simp add: str_def tilde_def)

lemma tilde_not_decimal: "tilde \<notin> set (decimal k)"
  using decimal_digits [of tilde k] by (auto simp: tilde_def digit_def)

lemma last_split_unique:
  assumes "x @ c # u = y @ c # v" "c \<notin> set u" "c \<notin> set v"
  shows "u = v"
proof -
  have "takeWhile (\<lambda>b. b \<noteq> c) (rev (z @ c # w)) = rev w" if "c \<notin> set w" for z w
    using that by (simp add: takeWhile_append_stop)
      (metis (mono_tags, lifting) set_rev takeWhile_append_stop)
  from this [OF assms(2), of x] this [OF assms(3), of y] assms(1) show ?thesis
    by (metis rev_rev_ident)
qed

lemma disambiguate_form:
  "\<exists>rest. \<forall>k. \<exists>name. disambiguate base isDir k = name @ tilde # decimal k @ rest"
  unfolding disambiguate_def Let_def str_tilde
  by (cases isDir; cases "index_byte base dot_byte"; cases "index_byte base 0x3B") auto

lemma disambiguate_inj: "disambiguate base isDir j = disambiguate base isDir k \<Longrightarrow> j = k"
proof -
  assume eq: "disambiguate base isDir j = disambiguate base isDir k"
  obtain rest where f: "\<And>k. \<exists>name. disambiguate base isDir k = name @ tilde # decimal k @ rest"
    using disambiguate_form by blast
  obtain x y where "disambiguate base isDir j = x @ tilde # decimal j @ rest"
    "disambiguate base isDir k = y @ tilde # decimal k @ rest" using f by metis
  with eq have "x @ tilde # decimal j = y @ tilde # decimal k"
    by (metis append.assoc append_Cons append_same_eq)
  then have "decimal j = decimal k"
    by (rule last_split_unique) (rule tilde_not_decimal)+
  then show ?thesis by (rule decimal_inj)
qed

section \<open>The search for an unused identifier\<close>

lemma finite_variants: "finite {j. disambiguate base isDir j \<in> set used}"
proof (rule finite_imageD)
  show "finite (disambiguate base isDir ` {j. disambiguate base isDir j \<in> set used})"
    by (rule finite_subset [of _ "set used"]) auto
  show "inj_on (disambiguate base isDir) {j. disambiguate base isDir j \<in> set used}"
    by (rule inj_onI) (rule disambiguate_inj)
qed

function unique_loop :: "gostring list \<Rightarrow> gostring \<Rightarrow> bool \<Rightarrow> gostring \<Rightarrow> nat \<Rightarrow> gostring" where
  "unique_loop used base isDir ident k =
     (if ident \<in> set used then unique_loop used base isDir (disambiguate base isDir k) (k + 1)
      else ident)"
  by pat_completeness auto
termination
proof (relation "measure (\<lambda>(used, base, isDir, ident, k).
    card {j. k \<le> j \<and> disambiguate base isDir j \<in> set used} + (if ident \<in> set used then 1 else 0))",
    simp)
  fix used :: "gostring list" and base isDir ident and k :: nat
  assume "ident \<in> set used"
  let ?S = "\<lambda>k. {j. k \<le> j \<and> disambiguate base isDir j \<in> set used}"
  have fin: "finite (?S k)" for k
    by (rule finite_subset [OF _ finite_variants [of base isDir used]]) auto
  have "card (?S (k + 1)) + (if disambiguate base isDir k \<in> set used then 1 else 0) \<le> card (?S k)"
  proof (cases "disambiguate base isDir k \<in> set used")
    case True
    then have "?S k = insert k (?S (k + 1))" by (auto simp: not_less_eq_eq order_le_less)
    then show ?thesis using True fin [of "k + 1"] by simp
  next
    case False
    have "card (?S (k + 1)) \<le> card (?S k)" by (rule card_mono [OF fin]) auto
    then show ?thesis using False by simp
  qed
  then show "((used, base, isDir, disambiguate base isDir k, k + 1), (used, base, isDir, ident, k))
      \<in> measure (\<lambda>(used, base, isDir, ident, k).
        card {j. k \<le> j \<and> disambiguate base isDir j \<in> set used} + (if ident \<in> set used then 1 else 0))"
    using \<open>ident \<in> set used\<close> by simp
qed

declare unique_loop.simps [simp del]

text \<open>The inner loop of \<^verbatim>\<open>assignIdentifiers\<close>.\<close>

definition unique_id :: "gostring list \<Rightarrow> gostring \<Rightarrow> bool \<Rightarrow> gostring" where
  "unique_id used base isDir = unique_loop used base isDir base 2"

lemma unique_id_new: "base \<notin> set used \<Longrightarrow> unique_id used base isDir = base"
  by (simp add: unique_id_def unique_loop.simps)

lemma unique_loop_fresh: "unique_loop used base isDir ident k \<notin> set used"
  by (induction used base isDir ident k rule: unique_loop.induct)
    (subst unique_loop.simps, simp)

lemma unique_loop_result:
  "unique_loop used base isDir ident k = ident
   \<or> (\<exists>j \<ge> k. unique_loop used base isDir ident k = disambiguate base isDir j
        \<and> (\<forall>i. k \<le> i \<and> i < j \<longrightarrow> disambiguate base isDir i \<in> set used))"
proof (induction used base isDir ident k rule: unique_loop.induct)
  case (1 used base isDir ident k)
  show ?case
  proof (cases "ident \<in> set used")
    case False
    then show ?thesis by (simp add: unique_loop.simps [of used base isDir ident])
  next
    case True
    then have eq: "unique_loop used base isDir ident k
        = unique_loop used base isDir (disambiguate base isDir k) (k + 1)"
      by (simp add: unique_loop.simps [of used base isDir ident])
    have low: "disambiguate base isDir k \<in> set used"
      if "unique_loop used base isDir (disambiguate base isDir k) (k + 1) \<noteq> disambiguate base isDir k"
    proof (rule ccontr)
      assume "disambiguate base isDir k \<notin> set used"
      then show False
        using that unique_loop.simps [of used base isDir "disambiguate base isDir k" "k + 1"] by simp
    qed
    let ?r = "unique_loop used base isDir (disambiguate base isDir k) (k + 1)"
    from 1 [OF True] consider (now) "?r = disambiguate base isDir k"
      | (later) j where "k + 1 \<le> j" "?r = disambiguate base isDir j"
          "\<forall>i. k + 1 \<le> i \<and> i < j \<longrightarrow> disambiguate base isDir i \<in> set used"
      by blast
    then show ?thesis
    proof cases
      case now
      then show ?thesis unfolding eq by (intro disjI2 exI [of _ k]) auto
    next
      case later
      then have "disambiguate base isDir j \<noteq> disambiguate base isDir k"
        using disambiguate_inj by fastforce
      then have "disambiguate base isDir k \<in> set used" using low later(2) by simp
      then have "disambiguate base isDir i \<in> set used" if "k \<le> i" "i < j" for i
        using that later(3) by (cases "i = k") auto
      then show ?thesis using later(1,2) eq by (intro disjI2 exI [of _ j]) auto
    qed
  qed
qed

lemma unique_id_counter:
  "unique_id used base isDir = base
   \<or> (\<exists>j. 2 \<le> j \<and> j \<le> 2 + length used \<and> unique_id used base isDir = disambiguate base isDir j)"
proof (cases "unique_id used base isDir = base")
  case False
  then obtain j where j: "2 \<le> j" "unique_id used base isDir = disambiguate base isDir j"
      "\<And>i. 2 \<le> i \<Longrightarrow> i < j \<Longrightarrow> disambiguate base isDir i \<in> set used"
    using unique_loop_result [of used base isDir base 2] by (auto simp: unique_id_def)
  have "card (disambiguate base isDir ` {2..<j}) \<le> card (set used)"
    by (rule card_mono) (use j(3) in auto)
  moreover have "inj_on (disambiguate base isDir) {2..<j}"
    by (rule inj_onI) (rule disambiguate_inj)
  ultimately have "j - 2 \<le> length used"
    using card_length [of used] by (simp add: card_image)
  then show ?thesis using j by auto
qed simp

section \<open>Level 1 identifiers\<close>

definition idchar :: "byte \<Rightarrow> bool" where
  "idchar b \<longleftrightarrow> dchar b \<or> b = tilde"

text \<open>Directories: one to eight characters.  Files: the same, up to three more after a dot, and a version.\<close>

definition level1_dir :: "gostring \<Rightarrow> bool" where
  "level1_dir s \<longleftrightarrow> s \<noteq> [] \<and> length s \<le> 8 \<and> list_all idchar s"

definition level1_ext :: "gostring \<Rightarrow> gostring" where
  "level1_ext e = (if e = [] then [] else str ''.'' @ e) @ str '';1''"

definition level1_file :: "gostring \<Rightarrow> bool" where
  "level1_file s \<longleftrightarrow>
     (\<exists>b e. s = b @ level1_ext e \<and> level1_dir b \<and> length e \<le> 3 \<and> list_all dchar e)"

definition level1 :: "bool \<Rightarrow> gostring \<Rightarrow> bool" where
  "level1 isDir s = (if isDir then level1_dir s else level1_file s)"

lemma list_all_clamp: "list_all P s \<Longrightarrow> list_all P (clampField s n)"
  by (auto simp: clampField_take list_all_iff dest: in_set_takeD)

lemma dchar_idchar: "list_all dchar s \<Longrightarrow> list_all idchar s"
  by (auto simp: list_all_iff idchar_def)

lemma clamp_sanitize: "list_all dchar (clampField (sanitize s) n)"
  by (rule list_all_clamp [OF sanitize_dchars])

lemma isoIdentifier_level1:
  assumes "isDir \<Longrightarrow> name \<noteq> []"
  shows "level1 isDir (isoIdentifier name isDir)"
proof (cases isDir)
  case True
  then have "sanitize name \<noteq> []" using assms sanitize_nonempty by simp
  then have "clampField (sanitize name) 8 \<noteq> []" by (simp add: clampField_take)
  then show ?thesis
    using True clamp_sanitize [of name 8]
    by (simp add: level1_def level1_dir_def isoIdentifier_def length_clampField dchar_idchar)
next
  case False
  obtain b e where be: "(case last_index_byte name dot_byte of
       Some i \<Rightarrow> if i > 0 then (take i name, drop (i + 1) name) else (name, [])
     | None \<Rightarrow> (name, [])) = (b, e)"
    by (cases "case last_index_byte name dot_byte of
       Some i \<Rightarrow> if i > 0 then (take i name, drop (i + 1) name) else (name, [])
     | None \<Rightarrow> (name, [])") auto
  let ?b = "if clampField (sanitize b) 8 = [] then str ''_'' else clampField (sanitize b) 8"
  let ?e = "clampField (sanitize e) 3"
  have "isoIdentifier name isDir = ?b @ level1_ext ?e"
    using False be by (simp add: isoIdentifier_def level1_ext_def)
  moreover have "level1_dir ?b"
    using clamp_sanitize [of b 8]
    by (auto simp: level1_dir_def length_clampField dchar_idchar str_def idchar_def dchar_def)
  moreover have "length ?e \<le> 3" "list_all dchar ?e"
    by (simp_all add: length_clampField clamp_sanitize)
  ultimately have "level1_file (isoIdentifier name isDir)" unfolding level1_file_def by blast
  then show ?thesis using False by (simp add: level1_def)
qed

lemma idchar_not: "list_all idchar s \<Longrightarrow> dot_byte \<notin> set s \<and> (0x3B :: byte) \<notin> set s"
  by (auto simp: list_all_iff idchar_def dchar_def tilde_def dot_byte_def)

lemma index_byte_append: "c \<notin> set b \<Longrightarrow> index_byte (b @ c # r) c = Some (length b)"
  by (induction b) auto

lemma disambiguate_file:
  assumes "list_all idchar b" "list_all dchar e"
  shows "disambiguate (b @ level1_ext e) False k
    = clampField b (8 - int (length (str ''~'' @ decimal k))) @ (str ''~'' @ decimal k) @ level1_ext e"
proof -
  note n = idchar_not [OF assms(1)]
  show ?thesis
  proof (cases "e = []")
    case True
    have x: "level1_ext e = 0x3B # [0x31]" using True by (simp add: level1_ext_def str_def)
    have "index_byte (b @ level1_ext e) dot_byte = None"
      unfolding x index_byte_None using n by (simp add: dot_byte_def)
    moreover have "index_byte (b @ level1_ext e) 0x3B = Some (length b)"
      unfolding x by (rule index_byte_append) (use n in simp)
    ultimately show ?thesis by (simp add: disambiguate_def)
  next
    case False
    have x: "level1_ext e = dot_byte # e @ str '';1''"
      using False by (simp add: level1_ext_def str_def dot_byte_def)
    have "index_byte (b @ level1_ext e) dot_byte = Some (length b)"
      unfolding x by (rule index_byte_append) (use n in simp)
    then show ?thesis by (simp add: disambiguate_def)
  qed
qed

lemma disambiguate_level1:
  assumes "level1 isDir base" "k < 10 ^ 7"
  shows "level1 isDir (disambiguate base isDir k)"
proof -
  let ?s = "str ''~'' @ decimal k"
  have len: "length ?s \<le> 8" using length_decimal [OF assms(2)] by simp
  have dc: "dchar b" if "digit b" for b using that by (auto simp: digit_def dchar_def)
  have s: "?s \<noteq> []" "list_all idchar ?s"
    using decimal_digits dc by (auto simp: list_all_iff idchar_def str_tilde)
  have pre: "level1_dir (clampField b (8 - int (length ?s)) @ ?s)" if "list_all idchar b" for b
    using s len list_all_clamp [OF that] by (auto simp: level1_dir_def length_clampField)
  show ?thesis
  proof (cases isDir)
    case True
    then show ?thesis
      using assms(1) pre [of base] by (simp add: level1_def level1_dir_def disambiguate_def Let_def)
  next
    case False
    then obtain b e where b: "base = b @ level1_ext e" "level1_dir b" "length e \<le> 3" "list_all dchar e"
      using assms(1) by (auto simp: level1_def level1_file_def)
    then have i: "list_all idchar b" by (simp add: level1_dir_def)
    have "level1_file (disambiguate base False k)"
      unfolding b(1) disambiguate_file [OF i b(4)] level1_file_def
      using pre [OF i] b(3,4) by (metis append.assoc)
    then show ?thesis using False by (simp add: level1_def)
  qed
qed

lemma unique_id_fresh_level1:
  assumes "name \<noteq> []" "length used < 9999998"
  shows "unique_id used (isoIdentifier name isDir) isDir \<notin> set used
    \<and> level1 isDir (unique_id used (isoIdentifier name isDir) isDir)"
proof -
  have base: "level1 isDir (isoIdentifier name isDir)" by (rule isoIdentifier_level1) (rule assms(1))
  have "level1 isDir (unique_id used (isoIdentifier name isDir) isDir)"
    using unique_id_counter [of used "isoIdentifier name isDir" isDir] base assms(2)
      disambiguate_level1 [OF base] by fastforce
  then show ?thesis using unique_loop_fresh by (simp add: unique_id_def)
qed

text \<open>A file whose name has an extension keeps the dot before it.\<close>

lemma unique_id_dot:
  assumes "name \<noteq> []" "length used < 9999998" "dot_byte \<in> set (isoIdentifier name isDir)"
  shows "dot_byte \<in> set (unique_id used (isoIdentifier name isDir) isDir)"
proof -
  let ?base = "isoIdentifier name isDir"
  have l: "level1 isDir ?base" by (rule isoIdentifier_level1) (rule assms(1))
  have plain: "\<not> isDir" using l idchar_not assms(3) by (auto simp: level1_def level1_dir_def)
  then obtain b e where b: "?base = b @ level1_ext e" "list_all idchar b" "list_all dchar e"
    using l by (auto simp: level1_def level1_file_def level1_dir_def)
  have "dot_byte \<in> set (level1_ext e)" using assms(3) b idchar_not by auto
  then have "dot_byte \<in> set (disambiguate ?base False k)" for k
    unfolding b(1) disambiguate_file [OF b(2,3)] by simp
  then show ?thesis
    using unique_id_counter [of used ?base isDir] assms(2,3) plain by fastforce
qed

section \<open>Properties\<close>

text \<open>
  The search for an identifier always ends; with fewer than 9999998 identifiers in use the
  result is none of them and has the 8.3 shape (1 to 8 characters of A-Z, 0-9, _ and the tilde of
  a counter, an extension of at most 3, version 1 on files), whatever bytes the caller's name
  contains.  That the siblings of a laid-out tree have different ones is \<open>layout_total\<close>.
\<close>

theorem unique_id_level1:
  assumes "name \<noteq> []" "length used < 9999998"
  shows "unique_id used (isoIdentifier name isDir) isDir \<notin> set used
    \<and> level1 isDir (unique_id used (isoIdentifier name isDir) isDir)"
  by (rule unique_id_fresh_level1 [OF assms])

theorem unique_id_level1_witness:
  "level1 True (unique_id [str ''DOCS''] (isoIdentifier (str ''docs'') True) True)"
  using unique_id_level1 [of "str ''docs''" "[str ''DOCS'']" True] by (simp add: str_def)

text \<open>
  The variants of an identifier are pairwise different, for every base, also when the
  counter crowds the base out completely.
\<close>

theorem disambiguate_distinct:
  "(disambiguate base isDir j = disambiguate base isDir k) = (j = k)"
  using disambiguate_inj by blast

end
