(* ===== verification/Device.thy ===== *)
theory Device
  imports Prelude
begin

text \<open>
  The byte source of an image: \<^verbatim>\<open>io.ReaderAt\<close>.  The caller supplies it, so the model takes
  it as a function, which may answer anything.  Its documented contract is stated in steps.
  \<open>counted\<close>: the count is between 0 and the length of the buffer.  The locale \<open>device\<close>: a read
  delivers at most the bytes asked for, fewer only with an error, the bytes are those of the
  medium, and a read that lies inside the medium delivers all of them, with a nil error or with
  \<^verbatim>\<open>io.EOF\<close>.  \<open>reader_at\<close>: \<^verbatim>\<open>io.EOF\<close> then means that the read ended exactly at the end of the
  medium, where the contract leaves the choice to the reader.  \<open>image_reader\<close>: there is nothing
  outside the medium to deliver.  \<open>strict_device\<close> is a reader that answers nil wherever it may,
  as \<^verbatim>\<open>bytes.Reader\<close> and \<^verbatim>\<open>os.File\<close> do.
\<close>

section \<open>Readers\<close>

text \<open>
  \<open>rs n off\<close> is \<^verbatim>\<open>rs.ReadAt(p, off)\<close> with \<open>length p = n\<close>: the bytes put at the start of
  \<open>p\<close>, the count returned and the error.  A reader that breaks the contract may return any
  count; it cannot write past the end of the buffer it was given.
\<close>

type_synonym reader = "nat \<Rightarrow> int \<Rightarrow> byte list \<times> int \<times> goerror option"

text \<open>A read into an existing buffer: bytes past those written keep their old value.\<close>

definition read_into :: "reader \<Rightarrow> byte list \<Rightarrow> int \<Rightarrow> byte list \<times> int \<times> goerror option" where
  "read_into rs p off =
     (let (d, m, e) = rs (length p) off in (take (length p) d @ drop (length d) p, m, e))"

lemma read_into_length: "read_into rs p off = (p', m, e) \<Longrightarrow> length p' = length p"
  by (auto simp: read_into_def Let_def split: prod.splits)

lemma read_into_len [simp]: "length (fst (read_into rs p off)) = length p"
  using read_into_length [of rs p off] by (cases "read_into rs p off") auto

definition counted :: "reader \<Rightarrow> bool" where
  "counted rs \<longleftrightarrow> (\<forall>n off. 0 \<le> fst (snd (rs n off)) \<and> fst (snd (rs n off)) \<le> int n)"

lemma counted_read:
  "counted rs \<Longrightarrow> read_into rs p off = (p', m, e) \<Longrightarrow> 0 \<le> m \<and> m \<le> int (length p)"
  by (auto simp: counted_def read_into_def Let_def split: prod.splits) (metis fst_conv snd_conv)+

section \<open>The contract\<close>

text \<open>\<open>bytes_at content off n\<close>: the \<open>n\<close> bytes of a medium from offset \<open>off\<close> on.\<close>

definition bytes_at :: "(int \<Rightarrow> byte) \<Rightarrow> int \<Rightarrow> nat \<Rightarrow> byte list" where
  "bytes_at content off n = map (\<lambda>i. content (off + int i)) [0..<n]"

lemma length_bytes_at [simp]: "length (bytes_at c off n) = n"
  by (simp add: bytes_at_def)

lemma nth_bytes_at [simp]: "i < n \<Longrightarrow> bytes_at c off n ! i = c (off + int i)"
  by (simp add: bytes_at_def)

lemma bytes_at_0 [simp]: "bytes_at c off 0 = []"
  by (simp add: bytes_at_def)

lemma bytes_at_add: "bytes_at c off (m + n) = bytes_at c off m @ bytes_at c (off + int m) n"
  by (rule nth_equalityI) (auto simp: nth_append algebra_simps)

lemma bytes_at_extend:
  "k \<le> j \<Longrightarrow> bytes_at c (off + int k) (j - k) @ bytes_at c (off + int j) i
     = bytes_at c (off + int k) (j + i - k)"
  using bytes_at_add [of c "off + int k" "j - k" i] by (simp add: of_nat_diff)

lemma take_bytes_at: "take k (bytes_at c off n) = bytes_at c off (min k n)"
  by (rule nth_equalityI) auto

lemma drop_bytes_at: "drop k (bytes_at c off n) = bytes_at c (off + int k) (n - k)"
  by (rule nth_equalityI) (auto simp: algebra_simps)

locale device =
  fixes rs :: reader and content :: "int \<Rightarrow> byte" and limit :: int
  assumes read_count: "fst (snd (rs n off)) = int (length (fst (rs n off)))"
    and read_short: "length (fst (rs n off)) \<le> n"
    and read_full: "snd (snd (rs n off)) = None \<Longrightarrow> length (fst (rs n off)) = n"
    and read_bytes: "i < length (fst (rs n off)) \<Longrightarrow> fst (rs n off) ! i = content (off + int i)"
    and read_inside: "0 \<le> off \<Longrightarrow> off + int n \<le> limit \<Longrightarrow> 0 < n \<Longrightarrow>
       length (fst (rs n off)) = n
       \<and> (snd (snd (rs n off)) = None \<or> snd (snd (rs n off)) = Some (Sentinel EOF))"
begin

lemma device_counted: "counted rs"
  by (simp add: counted_def read_count read_short)

lemma data_prefix: "fst (rs n off) = bytes_at content off (length (fst (rs n off)))"
  by (rule nth_equalityI) (simp_all add: read_bytes)

lemma data_full: "length (fst (rs n off)) = n \<Longrightarrow> fst (rs n off) = bytes_at content off n"
  using data_prefix [of n off] by simp

lemma data_inside:
  "0 \<le> off \<Longrightarrow> off + int n \<le> limit \<Longrightarrow> 0 < n \<Longrightarrow> fst (rs n off) = bytes_at content off n"
  using read_inside data_full by blast

text \<open>A read into a buffer puts a prefix of the medium's bytes at its start.\<close>

lemma read_into_data:
  assumes "read_into rs p off = (p', m, e)"
  obtains k where "m = int k" "k \<le> length p" "p' = bytes_at content off k @ drop k p"
    "e = None \<Longrightarrow> k = length p"
proof -
  obtain d where d: "rs (length p) off = (d, m, e)" "p' = take (length p) d @ drop (length d) p"
    using assms by (auto simp: read_into_def Let_def split: prod.splits)
  then have len: "length d \<le> length p" and m: "m = int (length d)"
    using read_short [of "length p" off] read_count [of "length p" off] by simp_all
  have "d = bytes_at content off (length d)" using data_prefix [of "length p" off] d by simp
  then have "p' = bytes_at content off (length d) @ drop (length d) p" using d(2) len by simp
  moreover have "length d = length p" if "e = None" using read_full [of "length p" off] d(1) that by simp
  ultimately show thesis using that len m by blast
qed

lemma read_into_nil:
  assumes "read_into rs p off = (p', m, None)"
  shows "p' = bytes_at content off (length p) \<and> m = int (length p)"
  using assms by (rule read_into_data) simp

lemma read_into_ok:
  assumes "read_into rs p off = (p', m, e)" and "0 \<le> off" "off + int (length p) \<le> limit" "p \<noteq> []"
  shows "p' = bytes_at content off (length p) \<and> m = int (length p) \<and> (e = None \<or> e = Some (Sentinel EOF))"
proof -
  obtain d where d: "rs (length p) off = (d, m, e)" "p' = take (length p) d @ drop (length d) p"
    using assms(1) by (auto simp: read_into_def Let_def split: prod.splits)
  with read_inside [of off "length p"] read_count [of "length p" off] assms(2-4)
  have "length d = length p" "m = int (length p)" "e = None \<or> e = Some (Sentinel EOF)" by auto
  then show ?thesis using d(2) data_full [of "length p" off] d(1) by simp
qed

end

locale reader_at = device +
  assumes read_eof: "0 \<le> off \<Longrightarrow> off + int n < limit \<Longrightarrow> 0 < n \<Longrightarrow> snd (snd (rs n off)) = None"

locale strict_device = device +
  assumes read_nil: "0 \<le> off \<Longrightarrow> off + int n \<le> limit \<Longrightarrow> 0 < n \<Longrightarrow> snd (snd (rs n off)) = None"
begin

lemma read_into_inside:
  assumes "0 \<le> off" "off + int (length p) \<le> limit" "p \<noteq> []"
  shows "read_into rs p off = (bytes_at content off (length p), int (length p), None)"
proof -
  obtain p' m e where r: "read_into rs p off = (p', m, e)" by (cases "read_into rs p off") auto
  moreover have "e = snd (snd (rs (length p) off))"
    using r by (auto simp: read_into_def Let_def split: prod.splits)
  then have "e = None" using read_nil assms by simp
  ultimately show ?thesis using read_into_ok [OF r assms] by simp
qed

end

sublocale strict_device \<subseteq> reader_at
  by unfold_locales (use read_nil in simp)

text \<open>Except for its last byte, every reader serves the medium like a strict one.\<close>

context reader_at
begin

lemma strict_before_end: "strict_device rs content (limit - 1)"
  by unfold_locales (use read_count read_short read_full read_bytes read_inside read_eof in auto)

end

locale image_reader = reader_at +
  assumes read_outside: "0 < n \<Longrightarrow> \<not> (0 \<le> off \<and> off + int n \<le> limit) \<Longrightarrow> length (fst (rs n off)) < n"
begin

lemma read_into_outside:
  assumes "read_into rs p off = (p', m, e)" "p \<noteq> []" "m = int (length p)"
  shows "0 \<le> off \<and> off + int (length p) \<le> limit"
proof -
  obtain d where "rs (length p) off = (d, m, e)"
    using assms(1) by (auto simp: read_into_def Let_def split: prod.splits)
  then have "length (fst (rs (length p) off)) = length p" using read_count [of "length p" off] assms(3) by simp
  then show ?thesis using read_outside [of "length p" off] assms(2) by fastforce
qed

end

section \<open>In-memory readers\<close>

text \<open>\<^verbatim>\<open>bytes.Reader.ReadAt\<close> over an image held in memory.\<close>

definition bytes_reader :: "byte list \<Rightarrow> reader" where
  "bytes_reader img n off =
     (if off < 0 then ([], 0, Some (Device 0))
      else if int (length img) \<le> off then ([], 0, Some (Sentinel EOF))
      else let d = take n (drop (nat off) img) in
           (d, int (length d), if length d < n then Some (Sentinel EOF) else None))"

text \<open>
  Another reader the contract allows: \<^verbatim>\<open>io.EOF\<close> comes together with the last bytes of the
  medium.
\<close>

definition eof_reader :: "byte list \<Rightarrow> reader" where
  "eof_reader img n off =
     (case bytes_reader img n off of
        (d, m, e) \<Rightarrow> (d, m, if 0 \<le> off \<and> off + int n = int (length img) then Some (Sentinel EOF) else e))"

definition image_content :: "byte list \<Rightarrow> int \<Rightarrow> byte" where
  "image_content img i = (if 0 \<le> i \<and> i < int (length img) then img ! nat i else 0)"

lemma bytes_reader_nth:
  "i < length (fst (bytes_reader img n off)) \<Longrightarrow>
   fst (bytes_reader img n off) ! i = image_content img (off + int i)"
  by (auto simp: bytes_reader_def image_content_def Let_def nat_add_distrib split: if_splits)

lemma bytes_reader_inside:
  "0 \<le> off \<Longrightarrow> off + int n \<le> int (length img) \<Longrightarrow> 0 < n \<Longrightarrow>
   length (fst (bytes_reader img n off)) = n \<and> snd (snd (bytes_reader img n off)) = None"
  by (auto simp: bytes_reader_def Let_def min_def)

lemma bytes_reader_outside:
  "0 < n \<Longrightarrow> \<not> (0 \<le> off \<and> off + int n \<le> int (length img)) \<Longrightarrow> length (fst (bytes_reader img n off)) < n"
  by (auto simp: bytes_reader_def Let_def min_def)

interpretation mem: strict_device "bytes_reader img" "image_content img" "int (length img)" for img
proof unfold_locales
  fix n off
  show "fst (snd (bytes_reader img n off)) = int (length (fst (bytes_reader img n off)))"
    by (simp add: bytes_reader_def Let_def)
  show "length (fst (bytes_reader img n off)) \<le> n"
    by (simp add: bytes_reader_def Let_def)
  show "length (fst (bytes_reader img n off)) = n" if "snd (snd (bytes_reader img n off)) = None"
    using that by (auto simp: bytes_reader_def Let_def split: if_splits)
qed (use bytes_reader_nth bytes_reader_inside in auto)

interpretation mem_image: image_reader "bytes_reader img" "image_content img" "int (length img)" for img
  by unfold_locales (rule bytes_reader_outside)

lemma eof_reader_parts:
  "fst (eof_reader img n off) = fst (bytes_reader img n off)"
  "fst (snd (eof_reader img n off)) = fst (snd (bytes_reader img n off))"
  "snd (snd (eof_reader img n off)) =
     (if 0 \<le> off \<and> off + int n = int (length img) then Some (Sentinel EOF) else snd (snd (bytes_reader img n off)))"
  by (simp_all add: eof_reader_def split: prod.splits)

interpretation eof: image_reader "eof_reader img" "image_content img" "int (length img)" for img
proof unfold_locales
  fix n off
  show "length (fst (eof_reader img n off)) = n" if "snd (snd (eof_reader img n off)) = None"
    using that mem.read_full [of img n off] by (auto simp: eof_reader_parts split: if_splits)
  show "length (fst (eof_reader img n off)) = n
      \<and> (snd (snd (eof_reader img n off)) = None \<or> snd (snd (eof_reader img n off)) = Some (Sentinel EOF))"
    if "0 \<le> off" "off + int n \<le> int (length img)" "0 < n"
    using mem.read_inside [OF that] by (simp add: eof_reader_parts)
  show "snd (snd (eof_reader img n off)) = None" if "0 \<le> off" "off + int n < int (length img)" "0 < n"
    using mem.read_nil [of off n img] that by (simp add: eof_reader_parts)
qed (use mem.read_count mem.read_short mem.read_bytes bytes_reader_outside in \<open>auto simp: eof_reader_parts\<close>)

lemma bytes_at_image:
  "0 \<le> off \<Longrightarrow> off + int n \<le> int (length img) \<Longrightarrow>
   bytes_at (image_content img) off n = take n (drop (nat off) img)"
  by (rule nth_equalityI) (auto simp: image_content_def nat_add_distrib)

end
