(* ===== verification/VolumeDesc.thy ===== *)
theory VolumeDesc
  imports DirRecord Device
begin

text \<open>
  \<^verbatim>\<open>volume.go\<close>: the scan of the volume-descriptor set.  Sectors 16 to 99 are read in
  order into one buffer; a primary descriptor sets the volume data and the primary root,
  a supplementary descriptor with a Joliet escape sets the Joliet root, the terminator ends
  the scan.
\<close>

section \<open>Constants and types\<close>

definition sectorSize :: nat where "sectorSize = 2048"
definition systemAreaSectors :: nat where "systemAreaSectors = 16"
definition vdTypePrimary :: byte where "vdTypePrimary = 1"
definition vdTypeSupplement :: byte where "vdTypeSupplement = 2"
definition vdTypeTerminator :: byte where "vdTypeTerminator = 255"
definition maxDescriptorSector :: nat where "maxDescriptorSector = 100"

definition standardID :: "byte list" where
  "standardID = str ''CD001''"

definition jolietEscapes :: "byte list list" where
  "jolietEscapes = [str ''%/@'', str ''%/C'', str ''%/E'']"

record Volume =
  v_VolumeID :: gostring
  v_BlockSize :: u32
  v_SpaceSize :: u32
  v_pvdRoot :: dirRecord
  v_jolietRoot :: dirRecord
  v_hasJoliet :: bool

definition zero_Volume :: Volume where
  "zero_Volume =
     \<lparr>v_VolumeID = [], v_BlockSize = 0, v_SpaceSize = 0, v_pvdRoot = zero_dirRecord,
      v_jolietRoot = zero_dirRecord, v_hasJoliet = False\<rparr>"

section \<open>Descriptors\<close>

definition trimSpace :: "byte list \<Rightarrow> gostring" where
  "trimSpace b = trim_right b [0x20, 0x00]"

definition isJolietEscape :: "byte list \<Rightarrow> bool" where
  "isJolietEscape esc =
     list_ex (\<lambda>e. length esc \<ge> length e \<and> take (length e) esc = e) jolietEscapes"

text \<open>The case of \<^verbatim>\<open>vdTypePrimary\<close>.\<close>

definition decode_primary :: "byte list \<Rightarrow> Volume \<Rightarrow> Volume res" where
  "decode_primary buf v =
     res_bind (subslice buf 40 72) (\<lambda>ident.
     res_bind (res_bind (slice_from buf 80) le32) (\<lambda>space.
     res_bind (res_bind (slice_from buf 128) le16) (\<lambda>bs16.
     let bs = (ucast bs16 :: u32); bs' = (if bs = 0 then of_nat sectorSize else bs) in
     res_bind (slice_from buf 156) (\<lambda>root.
     res_bind (wrap_error (\<lambda>e. Wrap ''iso9660: root dir record: %w'' [e]) (parseDirRecord root))
       (\<lambda>(rec, _).
     Inr (v\<lparr>v_VolumeID := trimSpace ident, v_SpaceSize := space, v_BlockSize := bs',
             v_pvdRoot := rec\<rparr>))))))"

text \<open>The case of \<^verbatim>\<open>vdTypeSupplement\<close>: a record that does not parse is ignored.\<close>

definition decode_supplement :: "byte list \<Rightarrow> Volume \<Rightarrow> Volume res" where
  "decode_supplement buf v =
     res_bind (subslice buf 88 120) (\<lambda>esc.
     if isJolietEscape esc then
       res_bind (slice_from buf 156) (\<lambda>root.
         case parseDirRecord root of
           Inr (rec, _) \<Rightarrow> Inr (v\<lparr>v_jolietRoot := rec, v_hasJoliet := True\<rparr>)
         | Inl e \<Rightarrow> if is_panic e then Inl e else Inr v)
     else Inr v)"

section \<open>The scan\<close>

text \<open>
  The body of the loop on one descriptor: the volume, whether a primary descriptor has been
  seen, and whether this descriptor was the terminator.
\<close>

definition descriptor_step :: "byte list \<Rightarrow> Volume \<Rightarrow> bool \<Rightarrow> (Volume \<times> bool \<times> bool) res" where
  "descriptor_step buf v havePVD =
     res_bind (subslice buf 1 6) (\<lambda>ident.
     if ident \<noteq> standardID then Inl (Sentinel ErrBadDescriptor)
     else res_bind (index buf 0) (\<lambda>t.
       if t = vdTypePrimary then
         res_bind (decode_primary buf v) (\<lambda>v'. Inr (v', True, False))
       else if t = vdTypeSupplement then
         res_bind (decode_supplement buf v) (\<lambda>v'. Inr (v', havePVD, False))
       else if t = vdTypeTerminator then
         (if \<not> havePVD then Inl (Sentinel ErrBadDescriptor) else Inr (v, havePVD, True))
       else Inr (v, havePVD, False)))"

function read_volume_loop :: "reader \<Rightarrow> nat \<Rightarrow> byte list \<Rightarrow> Volume \<Rightarrow> bool \<Rightarrow> Volume res" where
  "read_volume_loop rs sector buf0 v havePVD =
     (if sector < maxDescriptorSector then
        (case read_into rs buf0 (int sector * int sectorSize) of
           (buf, _, Some e) \<Rightarrow>
             Inl (Wrap ''iso9660: read volume descriptor @sector %d: %w'' [e])
         | (buf, _, None) \<Rightarrow>
             res_bind (descriptor_step buf v havePVD) (\<lambda>(v', havePVD', found).
               if found then Inr v' else read_volume_loop rs (sector + 1) buf v' havePVD'))
      else Inl (Wrap ''%w: no terminator in sectors %d-%d'' [Sentinel ErrBadDescriptor]))"
  by pat_completeness auto
termination
  by (relation "measure (\<lambda>(rs, sector, _). maxDescriptorSector - sector)") auto

declare read_volume_loop.simps [simp del]

definition readVolume :: "reader \<Rightarrow> Volume res" where
  "readVolume rs =
     read_volume_loop rs systemAreaSectors (replicate sectorSize 0) zero_Volume False"

section \<open>Descriptors never panic\<close>

lemma decode_primary_safe [safe_intros]: "2048 \<le> length buf \<Longrightarrow> safe (decode_primary buf v)"
  unfolding decode_primary_def Let_def
  by (intro safe_bind) (auto intro!: safe_intros split: prod.splits)

lemma decode_supplement_safe [safe_intros]: "2048 \<le> length buf \<Longrightarrow> safe (decode_supplement buf v)"
  unfolding decode_supplement_def
  by (auto intro!: safe_intros dest: parseDirRecord_no_panic split: sum.splits prod.splits)

lemma descriptor_step_safe [safe_intros]:
  assumes "2048 \<le> length buf"
  shows "safe (descriptor_step buf v havePVD)"
proof -
  have "buf \<noteq> []" using assms by auto
  with assms show ?thesis
    unfolding descriptor_step_def by (auto intro!: safe_bind safe_intros)
qed

lemma read_volume_loop_safe:
  "2048 \<le> length buf \<Longrightarrow> safe (read_volume_loop rs sector buf v havePVD)"
proof (induction "maxDescriptorSector - sector" arbitrary: sector buf v havePVD)
  case 0
  then show ?case by (simp add: read_volume_loop.simps [of rs sector])
next
  case (Suc k)
  obtain b m e where r: "read_into rs buf (int sector * int sectorSize) = (b, m, e)"
    by (cases "read_into rs buf (int sector * int sectorSize)") auto
  have len: "2048 \<le> length b" using read_into_length [OF r] Suc.prems by simp
  have "safe (read_volume_loop rs (sector + 1) b w h)" for w h
    using Suc.hyps(2) len by (intro Suc.hyps(1)) auto
  then show ?case
    using r len
    by (auto simp: read_volume_loop.simps [of rs sector] intro!: safe_bind safe_intros
        split: option.splits)
qed

lemma readVolume_safe [safe_intros]: "safe (readVolume rs)"
  unfolding readVolume_def sectorSize_def by (rule read_volume_loop_safe) simp

section \<open>The block size is never zero\<close>

lemma decode_primary_block:
  "decode_primary buf v = Inr v' \<Longrightarrow> 0 < v_BlockSize v' \<and> unat (v_BlockSize v') < 65536"
proof -
  assume "decode_primary buf v = Inr v'"
  then obtain bs :: u16 where
    "v_BlockSize v' = (if (ucast bs :: u32) = 0 then of_nat sectorSize else ucast bs)"
    by (auto simp: decode_primary_def Let_def res_inv)
  moreover have "unat (ucast bs :: u32) < 65536"
    using u16_bound [of bs] by simp
  ultimately show ?thesis
    by (auto simp: sectorSize_def word_gt_0)
qed

text \<open>A supplementary descriptor only touches the Joliet root.\<close>

lemma decode_supplement_cases:
  assumes "decode_supplement buf v = Inr v'"
  obtains "v' = v" | rec where "v' = v\<lparr>v_jolietRoot := rec, v_hasJoliet := True\<rparr>"
proof -
  from assms consider "v' = v"
    | root where "(case parseDirRecord root of
           Inr (rec, _) \<Rightarrow> Inr (v\<lparr>v_jolietRoot := rec, v_hasJoliet := True\<rparr>)
         | Inl e \<Rightarrow> if is_panic e then Inl e else Inr v) = Inr v'"
    by (auto simp: decode_supplement_def res_inv split: if_splits)
  then show thesis
  proof cases
    case 2
    then show thesis
      using that by (cases "parseDirRecord root") (auto split: if_splits)
  qed (rule that)
qed

text \<open>
  What every descriptor keeps holds for the volume the scan returns, and a scan only
  returns after a primary descriptor.
\<close>

lemma read_volume_loop_inv:
  assumes "read_volume_loop rs sector buf v h = Inr v'" and "I v h"
    and prim: "\<And>b w h w'. I w h \<Longrightarrow> decode_primary b w = Inr w' \<Longrightarrow> I w' True"
    and supp: "\<And>b w h w'. I w h \<Longrightarrow> decode_supplement b w = Inr w' \<Longrightarrow> I w' h"
  shows "I v' True"
  using assms(1,2)
proof (induction "maxDescriptorSector - sector" arbitrary: sector buf v h)
  case 0
  then show ?case by (simp add: read_volume_loop.simps [of rs sector])
next
  case (Suc k)
  then obtain b w h' found where st: "descriptor_step b v h = Inr (w, h', found)"
    and nxt: "if found then w = v' else read_volume_loop rs (sector + 1) b w h' = Inr v'"
    by (auto simp: read_volume_loop.simps [of rs sector] res_inv
        split: if_splits prod.splits option.splits)
  from st Suc.prems(2) have "I w h'" and "found \<Longrightarrow> h'"
    by (auto simp: descriptor_step_def res_inv dest: prim supp split: if_splits)
  moreover have "k = maxDescriptorSector - (sector + 1)" using Suc.hyps(2) by simp
  ultimately show ?case
    using nxt Suc.hyps(1) [of "sector + 1" b w h'] by (cases found) auto
qed

lemma readVolume_block:
  "readVolume rs = Inr v \<Longrightarrow> 0 < v_BlockSize v \<and> unat (v_BlockSize v) < 65536"
proof -
  assume "readVolume rs = Inr v"
  then have "(\<lambda>w h. h \<longrightarrow> 0 < v_BlockSize w \<and> unat (v_BlockSize w) < 65536) v True"
    unfolding readVolume_def
    by (rule read_volume_loop_inv)
      (auto dest: decode_primary_block elim: decode_supplement_cases)
  then show ?thesis by simp
qed

section \<open>The scan as a fold\<close>

text \<open>
  The specification: the descriptors of a set, in order, up to the first terminator
  (\<open>None\<close> when there is none).
\<close>

fun scan :: "byte list list \<Rightarrow> Volume \<Rightarrow> bool \<Rightarrow> Volume option res" where
  "scan [] v havePVD = Inr None"
| "scan (d # ds) v havePVD =
     res_bind (descriptor_step d v havePVD) (\<lambda>(v', havePVD', found).
       if found then Inr (Some v') else scan ds v' havePVD')"

lemma scan_append:
  "scan ds v h = Inr (Some w) \<Longrightarrow> scan (ds @ es) v h = Inr (Some w)"
proof (induction ds arbitrary: v h)
  case (Cons d ds)
  then show ?case by (cases "descriptor_step d v h") (auto split: if_splits)
qed simp

definition descriptor_at :: "(int \<Rightarrow> byte) \<Rightarrow> nat \<Rightarrow> byte list" where
  "descriptor_at content k = bytes_at content (int k * int sectorSize) sectorSize"

context strict_device
begin

lemma read_volume_loop_scan:
  assumes "scan (map (descriptor_at content) [s..<t]) v h = r" "r \<noteq> Inr None"
    and "s \<le> t" "t \<le> maxDescriptorSector" "int t * int sectorSize \<le> limit"
    and "length buf = sectorSize"
  shows "read_volume_loop rs s buf v h = res_bind r (\<lambda>w. Inr (the w))"
  using assms
proof (induction "t - s" arbitrary: s buf v h)
  case (Suc k)
  let ?d = "descriptor_at content s"
  have s: "s < t" "s < maxDescriptorSector" using Suc.hyps(2) Suc.prems(4) by simp_all
  have "[s..<t] = s # [Suc s..<t]" using s(1) by (rule upt_conv_Cons)
  then have sc: "res_bind (descriptor_step ?d v h) (\<lambda>(v', h', found).
       if found then Inr (Some v') else scan (map (descriptor_at content) [Suc s..<t]) v' h') = r"
    using Suc.prems(1) by simp
  have "int s * int sectorSize + int sectorSize \<le> int t * int sectorSize"
    using mult_right_mono [of "int (Suc s)" "int t" "int sectorSize"] s(1) by (simp add: algebra_simps)
  then have rd: "read_into rs buf (int s * int sectorSize) = (?d, int sectorSize, None)"
    using read_into_inside [of "int s * int sectorSize" buf] Suc.prems(5,6)
    by (cases buf) (simp_all add: descriptor_at_def sectorSize_def)
  have step: "read_volume_loop rs s buf v h =
      res_bind (descriptor_step ?d v h) (\<lambda>(v', h', found).
        if found then Inr v' else read_volume_loop rs (s + 1) ?d v' h')"
    by (subst read_volume_loop.simps) (simp only: s(2) rd if_True prod.case option.case)
  show ?case
  proof (cases "descriptor_step ?d v h")
    case (Inl e)
    then show ?thesis using sc step by auto
  next
    case (Inr x)
    obtain v' h' found where x: "x = (v', h', found)" by (cases x)
    show ?thesis
    proof (cases found)
      case True
      then show ?thesis using sc step Inr x by auto
    next
      case False
      with sc Inr x have "scan (map (descriptor_at content) [Suc s..<t]) v' h' = r" by simp
      then have "read_volume_loop rs (Suc s) ?d v' h' = res_bind r (\<lambda>w. Inr (the w))"
        using Suc.hyps(2) Suc.prems s(1)
        by (intro Suc.hyps(1)) (auto simp: descriptor_at_def)
      then show ?thesis using step Inr x False by simp
    qed
  qed
qed auto

lemma readVolume_scan:
  assumes "scan (map (descriptor_at content) [systemAreaSectors..<t]) zero_Volume False = r"
    and "r \<noteq> Inr None" "systemAreaSectors \<le> t" "t \<le> maxDescriptorSector"
    and "int t * int sectorSize \<le> limit"
  shows "readVolume rs = res_bind r (\<lambda>w. Inr (the w))"
  unfolding readVolume_def by (rule read_volume_loop_scan [OF assms]) simp

end

section \<open>Properties\<close>

text \<open>
  Whatever the reader answers, the descriptor scan ends with a volume or an error value,
  never a panic, and the volume it accepts has a block size between 1 and 65535, so that the
  divisions and products of the reader are defined and cannot overflow.
\<close>

theorem readVolume_sound:
  "case readVolume rs of
     Inl e \<Rightarrow> \<not> is_panic e
   | Inr v \<Rightarrow> 0 < v_BlockSize v \<and> unat (v_BlockSize v) < 65536"
  using readVolume_safe [of rs] readVolume_block [of rs] by (cases "readVolume rs") auto

text \<open>
  C36: on a reader that serves the sectors of the descriptor set, the scan is the fold of the
  descriptors from sector 16 on up to the first terminator, errors included: nothing after
  the terminator is read, and the first descriptor that is wrong decides the error.
\<close>

theorem readVolume_descriptors:
  assumes "strict_device rs content limit"
    and "scan (map (descriptor_at content) [systemAreaSectors..<t]) zero_Volume False = r"
    and "r \<noteq> Inr None" "systemAreaSectors \<le> t" "t \<le> maxDescriptorSector"
    and "int t * int sectorSize \<le> limit"
  shows "readVolume rs = res_bind r (\<lambda>w. Inr (the w))"
  by (rule strict_device.readVolume_scan [OF assms])

theorem readVolume_descriptors_witness:
  "readVolume (bytes_reader (replicate 34816 0)) = Inl (Sentinel ErrBadDescriptor)"
proof -
  have d: "descriptor_at (image_content (replicate 34816 0)) 16 = replicate 2048 0"
    by (simp add: descriptor_at_def sectorSize_def bytes_at_image)
  have zeros: "replicate 5 0 \<noteq> standardID"
    by (rule notI, drule arg_cong [where f = hd]) (simp add: standardID_def str_def)
  have "descriptor_step (replicate 2048 0) zero_Volume False = Inl (Sentinel ErrBadDescriptor)"
    using zeros by (simp add: descriptor_step_def)
  then have "scan (map (descriptor_at (image_content (replicate 34816 0))) [systemAreaSectors..<17])
      zero_Volume False = Inl (Sentinel ErrBadDescriptor)"
    by (simp add: systemAreaSectors_def d upt_rec)
  from readVolume_descriptors [OF mem.strict_device_axioms this] show ?thesis
    by (simp add: systemAreaSectors_def maxDescriptorSector_def sectorSize_def)
qed

end
