(* ===== verification/Layout.thy ===== *)
theory Layout
  imports Builder Identifiers VolumeDesc
begin

text \<open>
  \<^verbatim>\<open>create.go\<close>, the layout of an image: identifiers and parent pointers, the order of the
  directories and of the children of a directory, and the extents.

  The recursive functions of the source follow the child pointers.  Their models carry a
  bound on the depth; running out of it is the panic \<open>stack overflow\<close> (for the breadth-first
  loop, \<open>endless loop\<close>).  The bound given is the number of nodes, which is enough for a heap
  whose children lie above their parents (\<open>assignIdentifiers_ok\<close> in theory LayoutFacts,
  \<open>orderedDirs_ok\<close> in theory Traversal).
\<close>

section \<open>Order of the children\<close>

text \<open>\<^verbatim>\<open><\<close> on strings.\<close>

fun str_less :: "gostring \<Rightarrow> gostring \<Rightarrow> bool" where
  "str_less s [] = False"
| "str_less [] (b # t) = True"
| "str_less (a # s) (b # t) = (a < b \<or> (a = b \<and> str_less s t))"

definition node_less :: "heap \<Rightarrow> addr \<Rightarrow> addr \<Rightarrow> bool" where
  "node_less h i j =
     (let a = n_id (h ! i); b = n_id (h ! j) in
      if a = [] \<or> b = [] then str_less (n_name (h ! i)) (n_name (h ! j)) else str_less a b)"

text \<open>
  \<^verbatim>\<open>sort.Slice\<close>.  The elements compared by the source have pairwise different keys, so the
  result does not depend on the algorithm nor on the order in which the map is iterated
  (\<open>sort_by_unique\<close> in theory LayoutFacts).
\<close>

fun insert_by :: "('a \<Rightarrow> 'a \<Rightarrow> bool) \<Rightarrow> 'a \<Rightarrow> 'a list \<Rightarrow> 'a list" where
  "insert_by lt x [] = [x]"
| "insert_by lt x (y # ys) = (if lt y x then y # insert_by lt x ys else x # y # ys)"

definition sort_by :: "('a \<Rightarrow> 'a \<Rightarrow> bool) \<Rightarrow> 'a list \<Rightarrow> 'a list" where
  "sort_by lt xs = foldr (insert_by lt) xs []"

definition sortedChildren :: "heap \<Rightarrow> addr \<Rightarrow> addr list" where
  "sortedChildren h d =
     (if \<not> n_isDir (h ! d) then [] else sort_by (node_less h) (map snd (n_children (h ! d))))"

section \<open>Identifiers and parents\<close>

function (sequential) assignIdentifiers :: "nat \<Rightarrow> heap \<Rightarrow> addr \<Rightarrow> addr option \<Rightarrow> heap res"
  and assign_children :: "nat \<Rightarrow> heap \<Rightarrow> addr \<Rightarrow> addr list \<Rightarrow> gostring list \<Rightarrow> heap res"
where
  "assignIdentifiers 0 h n parent = Inl (Panic ''stack overflow'')"
| "assignIdentifiers (Suc k) h n parent =
     (let h1 = h[n := (h ! n)\<lparr>n_parent := parent\<rparr>];
          h2 = (if n_parent (h1 ! n) = None then h1[n := (h1 ! n)\<lparr>n_id := []\<rparr>] else h1)
      in assign_children k h2 n (sortedChildren h2 n) [])"
| "assign_children k h n [] used = Inr h"
| "assign_children k h n (c # cs) used =
     (let base = isoIdentifier (n_name (h ! c)) (n_isDir (h ! c));
          ident = unique_id used base (n_isDir (h ! c))
      in res_bind (assignIdentifiers k (h[c := (h ! c)\<lparr>n_id := ident\<rparr>]) c (Some n))
           (\<lambda>h'. assign_children k h' n cs (ident # used)))"
  by pat_completeness auto
termination
  by (relation "measures
        [\<lambda>x. (case x of Inl (k, _) \<Rightarrow> k | Inr (k, _) \<Rightarrow> k),
         \<lambda>x. (case x of Inl _ \<Rightarrow> 0 | Inr (_, _, _, cs, _) \<Rightarrow> Suc (length cs))]") auto

section \<open>Directories breadth first\<close>

fun bfs_loop :: "nat \<Rightarrow> heap \<Rightarrow> addr list \<Rightarrow> nat \<Rightarrow> addr list res" where
  "bfs_loop fuel h dirs i =
     (if i < length dirs then
        (case fuel of
           0 \<Rightarrow> Inl (Panic ''endless loop'')
         | Suc k \<Rightarrow>
             bfs_loop k h (dirs @ filter (\<lambda>c. n_isDir (h ! c)) (sortedChildren h (dirs ! i))) (i + 1))
      else Inr dirs)"

declare bfs_loop.simps [simp del]

definition orderedDirs :: "heap \<Rightarrow> addr \<Rightarrow> addr list res" where
  "orderedDirs h root = bfs_loop (length h) h [root] 0"

section \<open>Sizes\<close>

definition dirRecordHeaderLen :: nat where "dirRecordHeaderLen = 33"

definition dirRecordLen :: "nat \<Rightarrow> nat" where
  "dirRecordLen idLen = dirRecordHeaderLen + idLen + (if idLen mod 2 = 0 then 1 else 0)"

definition pathTableEntryLen :: "nat \<Rightarrow> nat" where
  "pathTableEntryLen idLen = 8 + idLen + (if idLen mod 2 \<noteq> 0 then 1 else 0)"

definition sectorsFor :: "u32 \<Rightarrow> u32" where
  "sectorsFor n = (n + of_nat sectorSize - 1) div of_nat sectorSize"

text \<open>The position of a record of \<open>rl\<close> bytes: it is moved to the next sector rather than split.\<close>

definition place_record :: "nat \<Rightarrow> nat \<Rightarrow> nat" where
  "place_record pos rl =
     (if pos div sectorSize \<noteq> (pos + rl - 1) div sectorSize
      then (pos div sectorSize + 1) * sectorSize else pos)"

definition add_record :: "nat \<Rightarrow> nat \<Rightarrow> nat" where
  "add_record idLen pos =
     (let rl = dirRecordLen idLen in place_record pos rl + rl)"

definition directoryExtentSize :: "heap \<Rightarrow> addr \<Rightarrow> u32" where
  "directoryExtentSize h d =
     (let pos = fold (\<lambda>c. add_record (length (n_id (h ! c)))) (sortedChildren h d)
                  (add_record 1 (add_record 1 0))
      in of_nat ((pos + sectorSize - 1) div sectorSize * sectorSize))"

definition pathTableIdent :: "heap \<Rightarrow> addr \<Rightarrow> byte list" where
  "pathTableIdent h d = (if n_parent (h ! d) = None then [0x00] else n_id (h ! d))"

definition pathTableSize :: "heap \<Rightarrow> addr list \<Rightarrow> nat" where
  "pathTableSize h dirs =
     fold (\<lambda>d tot. tot + pathTableEntryLen (length (pathTableIdent h d))) dirs 0"

section \<open>Visiting the files\<close>

text \<open>A loop that handles one item after the other and stops at the first error.\<close>

fun write_each :: "('a \<Rightarrow> 'w \<Rightarrow> 'w res) \<Rightarrow> 'a list \<Rightarrow> 'w \<Rightarrow> 'w res" where
  "write_each f [] w = Inr w"
| "write_each f (x # xs) w = res_bind (f x w) (write_each f xs)"

text \<open>
  The shape of the three recursive closures \<^verbatim>\<open>place\<close>, \<^verbatim>\<open>walk\<close> and \<^verbatim>\<open>writeFiles\<close>: descend
  into the directories of the sorted children, run a body on every file, stop at the first
  error.  \<open>heap_of\<close> is the heap of the current state.
\<close>

function (sequential) visit_files ::
    "('s \<Rightarrow> heap) \<Rightarrow> (addr \<Rightarrow> 's \<Rightarrow> 's res) \<Rightarrow> nat \<Rightarrow> addr \<Rightarrow> 's \<Rightarrow> 's res"
  and visit_list ::
    "('s \<Rightarrow> heap) \<Rightarrow> (addr \<Rightarrow> 's \<Rightarrow> 's res) \<Rightarrow> nat \<Rightarrow> addr list \<Rightarrow> 's \<Rightarrow> 's res"
where
  "visit_files heap_of body 0 d s = Inl (Panic ''stack overflow'')"
| "visit_files heap_of body (Suc k) d s = visit_list heap_of body k (sortedChildren (heap_of s) d) s"
| "visit_list heap_of body k [] s = Inr s"
| "visit_list heap_of body k (c # cs) s =
     res_bind (if n_isDir (heap_of s ! c) then visit_files heap_of body k c s else body c s)
       (visit_list heap_of body k cs)"
  by pat_completeness auto
termination
  by (relation "measures
        [\<lambda>x. (case x of Inl (_, _, k, _) \<Rightarrow> k | Inr (_, _, k, _) \<Rightarrow> k),
         \<lambda>x. (case x of Inl _ \<Rightarrow> 0 | Inr (_, _, _, cs, _) \<Rightarrow> Suc (length cs))]") auto

section \<open>Extents\<close>

definition set_extent :: "addr \<Rightarrow> u32 \<Rightarrow> heap \<times> u32 \<Rightarrow> heap \<times> u32" where
  "set_extent a len s =
     (case s of (h, nxt) \<Rightarrow>
        (h[a := (h ! a)\<lparr>n_extentLen := len, n_extentLBA := nxt\<rparr>], nxt + sectorsFor len))"

definition number_dirs :: "addr list \<Rightarrow> heap \<Rightarrow> heap" where
  "number_dirs dirs h =
     fold (\<lambda>(i, d) h. h[d := (h ! d)\<lparr>n_dirIndex := i + 1\<rparr>]) (enumerate 0 dirs) h"

definition place_dir :: "addr \<Rightarrow> heap \<times> u32 \<Rightarrow> heap \<times> u32" where
  "place_dir d s = set_extent d (directoryExtentSize (fst s) d) s"

definition place_file :: "addr \<Rightarrow> heap \<times> u32 \<Rightarrow> (heap \<times> u32) res" where
  "place_file c s = Inr (set_extent c (of_nat (length (n_data (fst s ! c)))) s)"

definition pathTableLLBA :: u32 where "pathTableLLBA = 18"

definition layout :: "Builder \<Rightarrow> (Builder \<times> addr list) res" where
  "layout b =
     res_bind (assignIdentifiers (length (b_heap b)) (b_heap b) (b_root b) None) (\<lambda>h1.
     res_bind (orderedDirs h1 (b_root b)) (\<lambda>dirs.
     let h2 = number_dirs dirs h1;
         ptSectors = sectorsFor (of_nat (pathTableSize h2 dirs));
         mlba = pathTableLLBA + ptSectors;
         s3 = fold place_dir dirs (h2, mlba + ptSectors)
     in res_bind (visit_files fst place_file (length h2) (b_root b) s3) (\<lambda>(h4, _).
          Inr (b\<lparr>b_heap := h4, b_pathTableMLBA := mlba\<rparr>, dirs))))"

text \<open>The end of the last extent.\<close>

definition extent_end :: "u32 \<Rightarrow> u32 \<Rightarrow> u32 \<Rightarrow> u32" where
  "extent_end lba len mx = (let e = lba + sectorsFor len in if e > mx then e else mx)"

definition totalSectors :: "Builder \<Rightarrow> addr list \<Rightarrow> u32 res" where
  "totalSectors b dirs =
     (let h = b_heap b;
          mx = b_pathTableMLBA b + sectorsFor (of_nat (pathTableSize h dirs));
          mx' = fold (\<lambda>d. extent_end (n_extentLBA (h ! d)) (n_extentLen (h ! d))) dirs mx
      in visit_files (\<lambda>_. h) (\<lambda>c m. Inr (extent_end (n_extentLBA (h ! c)) (n_extentLen (h ! c)) m))
           (length h) (b_root b) mx')"

end
