(* ===== verification/LayoutFacts.thy ===== *)
theory LayoutFacts
  imports Layout
begin

text \<open>
  What the layout of \<^verbatim>\<open>create.go\<close> guarantees: a well-defined order of the children, unique
  identifiers and correct parent pointers, every directory exactly once in the path table, and
  extents that follow each other without gaps or overlaps.
\<close>

section \<open>Sorting\<close>

lemma set_insert_by [simp]: "set (insert_by lt x ys) = insert x (set ys)"
  by (induction ys) auto

lemma set_sort_by [simp]: "set (sort_by lt xs) = set xs"
  by (induction xs) (auto simp: sort_by_def)

lemma length_insert_by [simp]: "length (insert_by lt x ys) = Suc (length ys)"
  by (induction ys) auto

lemma length_sort_by [simp]: "length (sort_by lt xs) = length xs"
  by (induction xs) (auto simp: sort_by_def)

lemma distinct_insert_by: "distinct (insert_by lt x ys) = (x \<notin> set ys \<and> distinct ys)"
  by (induction ys) auto

lemma distinct_sort_by [simp]: "distinct (sort_by lt xs) = distinct xs"
proof (induction xs)
  case (Cons x xs)
  then show ?case
    using set_sort_by [of lt xs] by (simp add: sort_by_def distinct_insert_by)
qed (simp add: sort_by_def)

text \<open>A strict linear order on a set of elements.\<close>

definition strict_order_on :: "'a set \<Rightarrow> ('a \<Rightarrow> 'a \<Rightarrow> bool) \<Rightarrow> bool" where
  "strict_order_on A lt \<longleftrightarrow>
     (\<forall>x \<in> A. \<not> lt x x) \<and> (\<forall>x \<in> A. \<forall>y \<in> A. \<forall>z \<in> A. lt x y \<longrightarrow> lt y z \<longrightarrow> lt x z)
     \<and> (\<forall>x \<in> A. \<forall>y \<in> A. x \<noteq> y \<longrightarrow> lt x y \<or> lt y x)"

lemma strict_order_irrefl: "strict_order_on A lt \<Longrightarrow> x \<in> A \<Longrightarrow> \<not> lt x x"
  by (simp add: strict_order_on_def)

lemma strict_order_trans:
  "strict_order_on A lt \<Longrightarrow> x \<in> A \<Longrightarrow> y \<in> A \<Longrightarrow> z \<in> A \<Longrightarrow> lt x y \<Longrightarrow> lt y z \<Longrightarrow> lt x z"
  unfolding strict_order_on_def by blast

lemma strict_order_total:
  "strict_order_on A lt \<Longrightarrow> x \<in> A \<Longrightarrow> y \<in> A \<Longrightarrow> x \<noteq> y \<Longrightarrow> \<not> lt y x \<Longrightarrow> lt x y"
  unfolding strict_order_on_def by blast

lemma strict_order_subset: "strict_order_on A lt \<Longrightarrow> B \<subseteq> A \<Longrightarrow> strict_order_on B lt"
  unfolding strict_order_on_def subset_iff by (intro conjI) (simp, blast, simp)

lemma sorted_insert_by:
  assumes "strict_order_on (insert x (set ys)) lt" "sorted_wrt lt ys" "x \<notin> set ys"
  shows "sorted_wrt lt (insert_by lt x ys)"
  using assms
proof (induction ys)
  case (Cons y ys)
  have ord: "strict_order_on (insert x (set ys)) lt"
    by (rule strict_order_subset [OF Cons.prems(1)]) auto
  have srt: "sorted_wrt lt ys" "\<And>z. z \<in> set ys \<Longrightarrow> lt y z" using Cons.prems(2) by simp_all
  show ?case
  proof (cases "lt y x")
    case True
    then show ?thesis using Cons.IH [OF ord srt(1)] Cons.prems(3) srt(2) by simp
  next
    case False
    then have xy: "lt x y"
      by (rule strict_order_total [OF Cons.prems(1), rotated 3]) (use Cons.prems(3) in auto)
    have "lt x z" if "z \<in> set ys" for z
      by (rule strict_order_trans [OF Cons.prems(1) _ _ _ xy srt(2) [OF that]]) (use that in auto)
    then show ?thesis using False xy srt by simp
  qed
qed simp

lemma sorted_sort_by:
  assumes "strict_order_on (set xs) lt" "distinct xs"
  shows "sorted_wrt lt (sort_by lt xs)"
  using assms
proof (induction xs)
  case (Cons x xs)
  have "strict_order_on (set xs) lt"
    by (rule strict_order_subset [OF Cons.prems(1)]) auto
  then have "sorted_wrt lt (sort_by lt xs)" using Cons by simp
  moreover have "sort_by lt (x # xs) = insert_by lt x (sort_by lt xs)" by (simp add: sort_by_def)
  ultimately show ?case
    using sorted_insert_by [of x "sort_by lt xs" lt] Cons.prems by simp
qed (simp add: sort_by_def)

text \<open>The sorted arrangement of a set is unique, so the algorithm and the input order do not matter.\<close>

lemma sort_by_unique:
  assumes "strict_order_on (set xs) lt" "sorted_wrt lt xs" "sorted_wrt lt ys" "set ys = set xs"
  shows "xs = ys"
  using assms
proof (induction xs arbitrary: ys)
  case (Cons x xs)
  then obtain y ys' where ys: "ys = y # ys'" by (cases ys) auto
  have yin: "y \<in> set (x # xs)" "set ys' \<subseteq> set (x # xs)" using Cons.prems(4) ys by auto
  have irr: "\<not> lt z z" if "z \<in> set (x # xs)" for z
    by (rule strict_order_irrefl [OF Cons.prems(1) that])
  have xy: "x = y"
  proof (rule ccontr)
    assume "x \<noteq> y"
    then have "x \<in> set ys'" "y \<in> set xs" using Cons.prems(4) ys by auto
    then have "lt y x" "lt x y" using Cons.prems(2,3) ys by simp_all
    then have "lt x x" using strict_order_trans [OF Cons.prems(1) _ yin(1)] by simp
    then show False using irr by simp
  qed
  have "lt x z" if "z \<in> set xs" for z using Cons.prems(2) that by simp
  then have nx: "x \<notin> set xs" using irr [of x] by auto
  have "lt x z" if "z \<in> set ys'" for z using Cons.prems(3) that unfolding ys xy by simp
  then have ny: "x \<notin> set ys'" using irr [of x] by auto
  have "insert x (set ys') = insert x (set xs)" using Cons.prems(4) unfolding ys xy by simp
  then have st: "set ys' = set xs" using insert_ident [OF ny nx] by simp
  have od: "strict_order_on (set xs) lt"
    by (rule strict_order_subset [OF Cons.prems(1)]) auto
  have so: "sorted_wrt lt xs" "sorted_wrt lt ys'" using Cons.prems(2,3) unfolding ys by simp_all
  have "xs = ys'" by (rule Cons.IH [OF od so st])
  then show ?case unfolding ys xy by simp
qed simp

lemma str_less_irrefl: "\<not> str_less s s"
  by (induction s) auto

lemma str_less_trans: "str_less s t \<Longrightarrow> str_less t u \<Longrightarrow> str_less s u"
proof (induction s t arbitrary: u rule: str_less.induct)
  case (2 b t)
  then show ?case by (cases u) auto
next
  case (3 a s b t)
  then show ?case by (cases u) auto
qed simp

lemma str_less_total: "s \<noteq> t \<Longrightarrow> str_less s t \<or> str_less t s"
  by (induction s t rule: str_less.induct) (auto simp: not_less_iff_gr_or_eq neq_Nil_conv)

text \<open>
  The comparison of siblings is a strict order in the two states a builder is in: before the
  first layout (no identifier, different names) and after one (different identifiers).
\<close>

definition key_order :: "heap \<Rightarrow> addr set \<Rightarrow> bool" where
  "key_order h A \<longleftrightarrow>
     (inj_on (\<lambda>c. n_name (h ! c)) A \<and> (\<forall>c \<in> A. n_id (h ! c) = []))
     \<or> (inj_on (\<lambda>c. n_id (h ! c)) A \<and> (\<forall>c \<in> A. n_id (h ! c) \<noteq> []))"

lemma strict_order_key:
  assumes "inj_on f A" and "\<And>i j. i \<in> A \<Longrightarrow> j \<in> A \<Longrightarrow> lt i j = str_less (f i) (f j)"
  shows "strict_order_on A lt"
  unfolding strict_order_on_def
proof (intro conjI ballI impI)
  show "\<not> lt x x" if "x \<in> A" for x using assms(2) [OF that that] str_less_irrefl by simp
  show "lt x z" if "x \<in> A" "y \<in> A" "z \<in> A" "lt x y" "lt y z" for x y z
    using assms(2) that str_less_trans [of "f x" "f y" "f z"] by simp
  show "lt x y \<or> lt y x" if "x \<in> A" "y \<in> A" "x \<noteq> y" for x y
    using assms that str_less_total [of "f x" "f y"] by (auto dest: inj_onD)
qed

lemma key_order_strict: "key_order h A \<Longrightarrow> strict_order_on A (node_less h)"
  unfolding key_order_def
proof (elim disjE conjE)
  assume "inj_on (\<lambda>c. n_name (h ! c)) A" "\<forall>c \<in> A. n_id (h ! c) = []"
  then show ?thesis by (intro strict_order_key [of "\<lambda>c. n_name (h ! c)"]) (simp_all add: node_less_def)
next
  assume "inj_on (\<lambda>c. n_id (h ! c)) A" "\<forall>c \<in> A. n_id (h ! c) \<noteq> []"
  then show ?thesis by (intro strict_order_key [of "\<lambda>c. n_id (h ! c)"]) (simp_all add: node_less_def)
qed

section \<open>The children of a directory\<close>

definition children :: "heap \<Rightarrow> addr \<Rightarrow> addr list" where
  "children h d = map snd (n_children (h ! d))"

lemma children_facts:
  assumes "wf_heap h" "d < length h" "c \<in> set (children h d)"
  shows "d < c" "c < length h" "component (n_name (h ! c))" "n_isDir (h ! d)"
    "map_of (n_children (h ! d)) (n_name (h ! c)) = Some c"
proof -
  have wf: "wf_node h d" using assms(1,2) by (simp add: wf_heap_def)
  obtain k where k: "(k, c) \<in> set (n_children (h ! d))" using assms(3) by (auto simp: children_def)
  then show "d < c" "c < length h" "component (n_name (h ! c))" "n_isDir (h ! d)"
    using wf by (auto simp: wf_node_def)
  have "n_name (h ! c) = k" using k wf by (auto simp: wf_node_def)
  then show "map_of (n_children (h ! d)) (n_name (h ! c)) = Some c"
    using k wf by (simp add: wf_node_def)
qed

lemma children_names:
  assumes "wf_heap h" "d < length h"
  shows "map (\<lambda>c. n_name (h ! c)) (children h d) = map fst (n_children (h ! d))"
proof -
  have "n_name (h ! c) = k" if "(k, c) \<in> set (n_children (h ! d))" for k c
    using assms that by (auto simp: wf_heap_def wf_node_def)
  then show ?thesis by (auto simp: children_def)
qed

lemma distinct_names: "wf_heap h \<Longrightarrow> d < length h \<Longrightarrow> distinct (map fst (n_children (h ! d)))"
  by (simp add: wf_heap_def wf_node_def)

lemma distinct_children: "wf_heap h \<Longrightarrow> d < length h \<Longrightarrow> distinct (children h d)"
  using children_names distinct_names by (metis distinct_map)

lemma sortedChildren_set: "wf_heap h \<Longrightarrow> d < length h \<Longrightarrow> set (sortedChildren h d) = set (children h d)"
  by (auto simp: sortedChildren_def children_def wf_heap_def wf_node_def)

lemma sortedChildren_distinct: "wf_heap h \<Longrightarrow> d < length h \<Longrightarrow> distinct (sortedChildren h d)"
  using distinct_children [of h d] by (simp add: sortedChildren_def children_def)

lemma sortedChildren_length: "length (sortedChildren h d) \<le> length (children h d)"
  by (simp add: sortedChildren_def children_def)

text \<open>The identifier \<^verbatim>\<open>isoIdentifier\<close> gives a node, before collisions are resolved.\<close>

definition base_id :: "heap \<Rightarrow> addr \<Rightarrow> gostring" where
  "base_id h c = isoIdentifier (n_name (h ! c)) (n_isDir (h ! c))"

section \<open>Heaps with the same tree\<close>

definition same_node :: "node \<Rightarrow> node \<Rightarrow> bool" where
  "same_node m n \<longleftrightarrow>
     n_name n = n_name m \<and> n_isDir n = n_isDir m \<and> n_data n = n_data m \<and> n_children n = n_children m"

definition same_tree :: "heap \<Rightarrow> heap \<Rightarrow> bool" where
  "same_tree h g \<longleftrightarrow> length g = length h \<and> (\<forall>a < length h. same_node (h ! a) (g ! a))"

lemma same_tree_refl [simp]: "same_tree h h"
  by (simp add: same_tree_def same_node_def)

lemma same_tree_trans: "same_tree h g \<Longrightarrow> same_tree g k \<Longrightarrow> same_tree h k"
  by (simp add: same_tree_def same_node_def)

lemma same_tree_update:
  "same_tree h g \<Longrightarrow> same_node (g ! a) nd \<Longrightarrow> same_tree h (g[a := nd])"
  by (cases "a < length g") (auto simp: same_tree_def same_node_def nth_list_update list_update_beyond)

lemma same_tree_fields:
  assumes "same_tree h g" "a < length h"
  shows "n_name (g ! a) = n_name (h ! a)" "n_isDir (g ! a) = n_isDir (h ! a)"
    "n_data (g ! a) = n_data (h ! a)" "n_children (g ! a) = n_children (h ! a)"
    "children g a = children h a"
  using assms by (simp_all add: same_tree_def same_node_def children_def)

lemma same_tree_base: "same_tree h g \<Longrightarrow> a < length h \<Longrightarrow> base_id g a = base_id h a"
  using same_tree_fields(1,2) [of h g a] by (simp add: base_id_def)

lemma same_tree_wf: "same_tree h g \<Longrightarrow> wf_heap h \<Longrightarrow> wf_heap g"
proof -
  assume st: "same_tree h g" and wf: "wf_heap h"
  have len: "length g = length h" using st by (simp add: same_tree_def)
  have node: "wf_node g a" if "a < length h" for a
  proof -
    have w: "wf_node h a" using wf that by (simp add: wf_heap_def)
    have "n_name (g ! c) = n_name (h ! c)" if "(k, c) \<in> set (n_children (h ! a))" for k c
      using w that same_tree_fields(1) [OF st, of c] by (auto simp: wf_node_def)
    then show ?thesis
      using w same_tree_fields [OF st that] by (auto simp: wf_node_def len)
  qed
  have "single_parents g"
    using wf same_tree_fields(4) [OF st] by (simp add: wf_heap_def single_parents_def len)
  then show ?thesis using node wf same_tree_fields(2) [OF st] by (auto simp: wf_heap_def len)
qed

lemma same_tree_node_at:
  "same_tree h g \<Longrightarrow> wf_heap h \<Longrightarrow> a < length h \<Longrightarrow> node_at g a p = node_at h a p"
proof (induction p arbitrary: a)
  case (Cons k p)
  then show ?case
    using same_tree_fields(4) [OF Cons.prems(1,3)] child_facts(2) [OF Cons.prems(2,3)]
    by (auto split: option.splits)
qed simp

lemma same_tree_heap_tree: "same_tree h g \<Longrightarrow> wf_heap h \<Longrightarrow> heap_tree g = heap_tree h"
proof
  fix p assume st: "same_tree h g" and wf: "wf_heap h"
  have "entry_of (g ! a) = entry_of (h ! a)" if "node_at h 0 p = Some a" for a
    using that node_at_bound [OF wf _ that] wf same_tree_fields [OF st, of a]
    by (simp add: entry_of_def wf_heap_def)
  then show "heap_tree g p = heap_tree h p"
    using same_tree_node_at [OF st wf, of 0 p] wf
    by (cases "node_at h 0 p") (auto simp: heap_tree_def wf_heap_def)
qed

section \<open>Descendants\<close>

definition desc :: "heap \<Rightarrow> addr \<Rightarrow> addr \<Rightarrow> bool" where
  "desc h a x \<longleftrightarrow> (\<exists>p. node_at h a p = Some x)"

definition reachable :: "heap \<Rightarrow> addr \<Rightarrow> bool" where
  "reachable h a \<longleftrightarrow> desc h 0 a"

lemma desc_refl [simp]: "desc h a a"
  unfolding desc_def by (rule exI [of _ "[]"]) simp

lemma desc_trans: "desc h a b \<Longrightarrow> desc h b c \<Longrightarrow> desc h a c"
proof -
  assume "desc h a b" "desc h b c"
  then obtain p q where "node_at h a p = Some b" "node_at h b q = Some c" by (auto simp: desc_def)
  then have "node_at h a (p @ q) = Some c" by (simp add: node_at_append)
  then show ?thesis unfolding desc_def by blast
qed

lemma desc_child:
  "wf_heap h \<Longrightarrow> a < length h \<Longrightarrow> c \<in> set (children h a) \<Longrightarrow> desc h a c"
proof -
  assume "wf_heap h" "a < length h" "c \<in> set (children h a)"
  from children_facts(5) [OF this] have "node_at h a [n_name (h ! c)] = Some c" by simp
  then show ?thesis unfolding desc_def by blast
qed

lemma reachable_child:
  "wf_heap h \<Longrightarrow> reachable h a \<Longrightarrow> a < length h \<Longrightarrow> c \<in> set (children h a) \<Longrightarrow> reachable h c"
  unfolding reachable_def using desc_trans desc_child by blast

lemma reachable_bound: "wf_heap h \<Longrightarrow> reachable h a \<Longrightarrow> a < length h"
  by (auto simp: reachable_def desc_def wf_heap_def intro: node_at_bound)

lemma desc_ge: "wf_heap h \<Longrightarrow> a < length h \<Longrightarrow> desc h a x \<Longrightarrow> a \<le> x \<and> x < length h"
proof -
  assume wf: "wf_heap h"
  have "a \<le> x" if "node_at h a p = Some x" "a < length h" for p
    using that
  proof (induction p arbitrary: a)
    case (Cons k p)
    then obtain c where c: "map_of (n_children (h ! a)) k = Some c" "node_at h c p = Some x"
      by (auto split: option.splits)
    show ?case using Cons.IH [OF c(2)] child_facts(1,2) [OF wf Cons.prems(2) c(1)] by simp
  qed simp
  moreover assume "a < length h" "desc h a x"
  ultimately show ?thesis using node_at_bound [OF wf] by (auto simp: desc_def)
qed

text \<open>The subtrees of different children have nothing in common.\<close>

lemma desc_siblings:
  assumes wf: "wf_heap h" and n: "reachable h n"
    and c: "c \<in> set (children h n)" "c' \<in> set (children h n)" and x: "desc h c x" "desc h c' x"
  shows "c = c'"
proof -
  have nl: "n < length h" by (rule reachable_bound [OF wf n])
  obtain q where q: "node_at h 0 q = Some n" using n by (auto simp: reachable_def desc_def)
  obtain p p' where p: "node_at h c p = Some x" "node_at h c' p' = Some x"
    using x by (auto simp: desc_def)
  have "node_at h 0 (q @ n_name (h ! c) # p) = Some x" "node_at h 0 (q @ n_name (h ! c') # p') = Some x"
    using q p children_facts(5) [OF wf nl c(1)] children_facts(5) [OF wf nl c(2)]
    by (simp_all add: node_at_append)
  then have "q @ n_name (h ! c) # p = q @ n_name (h ! c') # p'" by (rule node_at_unique [OF wf])
  then have nm: "n_name (h ! c) = n_name (h ! c')" by simp
  have "map_of (n_children (h ! n)) (n_name (h ! c)) = Some c'"
    unfolding nm by (rule children_facts(5) [OF wf nl c(2)])
  then have "Some c = Some c'" unfolding children_facts(5) [OF wf nl c(1)] .
  then show ?thesis by simp
qed

lemma desc_children_cases:
  assumes "wf_heap h" "a < length h" "desc h a x"
  shows "x = a \<or> (\<exists>c \<in> set (children h a). desc h c x)"
proof -
  obtain p where p: "node_at h a p = Some x" using assms(3) by (auto simp: desc_def)
  show ?thesis
  proof (cases p)
    case (Cons k p')
    then obtain c where c: "map_of (n_children (h ! a)) k = Some c" "node_at h c p' = Some x"
      using p by (auto split: option.splits)
    have "c \<in> set (children h a)"
      using child_facts(5) [OF assms(1,2) c(1)] by (force simp: children_def)
    then show ?thesis using c(2) by (auto simp: desc_def)
  qed (use p in simp)
qed

section \<open>Identifiers\<close>

text \<open>
  The identifiers of siblings as a function of their names and kinds, in the order they are
  handled; \<open>used\<close> are the ones given so far.
\<close>

fun assign_ids :: "gostring list \<Rightarrow> (gostring \<times> bool) list \<Rightarrow> gostring list" where
  "assign_ids used [] = []"
| "assign_ids used ((name, dir) # ks) =
     (let i = unique_id used (isoIdentifier name dir) dir in i # assign_ids (i # used) ks)"

definition plain_id :: "gostring \<times> bool \<Rightarrow> gostring" where
  "plain_id k = isoIdentifier (fst k) (snd k)"

lemma length_assign_ids [simp]: "length (assign_ids used ks) = length ks"
  by (induction used ks rule: assign_ids.induct) (simp_all add: Let_def)

lemma assign_ids_level1:
  assumes "length used + length ks < 9999999" "\<forall>k \<in> set ks. fst k \<noteq> []"
  shows "distinct (assign_ids used ks) \<and> set (assign_ids used ks) \<inter> set used = {}
    \<and> list_all2 (\<lambda>k i. level1 (snd k) i \<and> (dot_byte \<in> set (plain_id k) \<longrightarrow> dot_byte \<in> set i)) ks (assign_ids used ks)"
  using assms
proof (induction used ks rule: assign_ids.induct)
  case (2 used name dir ks)
  let ?i = "unique_id used (isoIdentifier name dir) dir"
  have "?i \<notin> set used \<and> level1 dir ?i" using unique_id_fresh_level1 [of name used dir] 2(2,3) by simp
  moreover have "dot_byte \<in> set (isoIdentifier name dir) \<longrightarrow> dot_byte \<in> set ?i"
    using unique_id_dot [of name used dir] 2(2,3) by simp
  ultimately show ?case using "2.IH" [OF refl] 2(2,3) by (auto simp: Let_def plain_id_def)
qed simp

lemma assign_ids_plain:
  "distinct (map plain_id ks) \<Longrightarrow> set (map plain_id ks) \<inter> set used = {} \<Longrightarrow> assign_ids used ks = map plain_id ks"
proof (induction used ks rule: assign_ids.induct)
  case (2 used name dir ks)
  then have "unique_id used (isoIdentifier name dir) dir = plain_id (name, dir)"
    by (simp add: plain_id_def unique_id_new)
  with 2 show ?case by (auto simp: Let_def)
qed simp

definition id_key :: "heap \<Rightarrow> addr \<Rightarrow> gostring \<times> bool" where
  "id_key h c = (n_name (h ! c), n_isDir (h ! c))"

lemma base_id_key: "base_id h c = plain_id (id_key h c)"
  by (simp add: base_id_def plain_id_def id_key_def)

text \<open>A directory whose children got their identifiers in this way, and point back to it.\<close>

definition ids_given :: "heap \<Rightarrow> addr \<Rightarrow> bool" where
  "ids_given h d \<longleftrightarrow>
     (\<forall>c \<in> set (children h d). n_parent (h ! c) = Some d)
     \<and> (\<exists>cs. distinct cs \<and> set cs = set (children h d)
          \<and> map (\<lambda>c. n_id (h ! c)) cs = assign_ids [] (map (id_key h) cs))"

text \<open>
  A directory whose children have distinct level 1 identifiers and point back to it; where
  the names do not collide, the identifiers are those of the names, and where they do, a file
  keeps the dot before its extension.
\<close>

definition ids_ok :: "heap \<Rightarrow> addr \<Rightarrow> bool" where
  "ids_ok h d \<longleftrightarrow>
     distinct (map (\<lambda>c. n_id (h ! c)) (children h d))
     \<and> (\<forall>c \<in> set (children h d). level1 (n_isDir (h ! c)) (n_id (h ! c)) \<and> n_parent (h ! c) = Some d
          \<and> (dot_byte \<in> set (base_id h c) \<longrightarrow> dot_byte \<in> set (n_id (h ! c))))
     \<and> (distinct (map (base_id h) (children h d)) \<longrightarrow> (\<forall>c \<in> set (children h d). n_id (h ! c) = base_id h c))"

text \<open>Fewer than the number of counters that fit the eight characters of a name.\<close>

definition few_children :: "heap \<Rightarrow> bool" where
  "few_children h \<longleftrightarrow> (\<forall>a < length h. length (n_children (h ! a)) < 9999998)"

lemma ids_given_ok:
  assumes "ids_given h d" "distinct (children h d)" "length (children h d) < 9999999"
    and "\<forall>c \<in> set (children h d). n_name (h ! c) \<noteq> []"
  shows "ids_ok h d"
proof -
  obtain cs where cs: "distinct cs" "set cs = set (children h d)"
      "map (\<lambda>c. n_id (h ! c)) cs = assign_ids [] (map (id_key h) cs)"
    and par: "\<forall>c \<in> set (children h d). n_parent (h ! c) = Some d"
    using assms(1) by (auto simp: ids_given_def)
  have "length cs = length (children h d)" using cs(1,2) assms(2) by (metis distinct_card)
  then have len: "length ([] :: gostring list) + length (map (id_key h) cs) < 9999999" using assms(3) by simp
  have ne: "\<forall>k \<in> set (map (id_key h) cs). fst k \<noteq> []" using assms(4) cs(2) by (simp add: id_key_def)
  note A = assign_ids_level1 [OF len ne, folded cs(3)]
  have inj: "inj_on (\<lambda>c. n_id (h ! c)) (set (children h d))" using A cs(2) by (simp add: distinct_map)
  have one: "level1 (n_isDir (h ! c)) (n_id (h ! c)) \<and> (dot_byte \<in> set (base_id h c) \<longrightarrow> dot_byte \<in> set (n_id (h ! c)))"
    if c: "c \<in> set (children h d)" for c
  proof -
    have "c \<in> set cs" using c cs(2) by simp
    then show ?thesis
      using A by (auto simp: list_all2_map1 list_all2_map2 list_all2_same id_key_def base_id_key)
  qed
  have "n_id (h ! c) = base_id h c"
    if "distinct (map (base_id h) (children h d))" "c \<in> set (children h d)" for c
  proof -
    have "inj_on (base_id h) (set cs)" using that(1) cs(2) by (simp add: distinct_map)
    then have "distinct (map plain_id (map (id_key h) cs))"
      using cs(1) by (simp add: distinct_map base_id_key comp_def inj_on_def)
    from assign_ids_plain [OF this] have "map (\<lambda>c. n_id (h ! c)) cs = map (base_id h) cs"
      using cs(3) by (simp add: base_id_key)
    then show ?thesis using that(2) cs(2) by simp
  qed
  then show ?thesis using one par inj assms(2) by (simp add: ids_ok_def distinct_map)
qed

lemma ids_given_cong:
  assumes "children g d = children h d" "\<And>c. c \<in> set (children h d) \<Longrightarrow> g ! c = h ! c"
  shows "ids_given g d = ids_given h d"
proof -
  have "map (\<lambda>c. n_id (g ! c)) cs = map (\<lambda>c. n_id (h ! c)) cs \<and> map (id_key g) cs = map (id_key h) cs"
    if "set cs = set (children h d)" for cs
    using that assms(2) by (auto simp: id_key_def)
  then show ?thesis unfolding ids_given_def assms(1) using assms(2) by metis
qed

lemma few_children_same: "same_tree h g \<Longrightarrow> few_children g = few_children h"
  by (simp add: few_children_def same_tree_def same_node_def)

text \<open>
  What processing a set of subtrees may change: nodes outside of them are untouched, nodes
  inside keep everything but identifier and parent pointer.
\<close>

definition touched :: "heap \<Rightarrow> addr set \<Rightarrow> heap \<Rightarrow> heap \<Rightarrow> bool" where
  "touched h0 A h g \<longleftrightarrow> same_tree h0 g \<and>
     (\<forall>x < length h0. (\<forall>a \<in> A. \<not> desc h0 a x) \<longrightarrow> g ! x = h ! x)"

definition assign_post :: "heap \<Rightarrow> heap \<Rightarrow> addr \<Rightarrow> addr option \<Rightarrow> heap \<Rightarrow> bool" where
  "assign_post h0 h n parent g \<longleftrightarrow>
     touched h0 {n} h g
     \<and> n_parent (g ! n) = parent \<and> n_id (g ! n) = (if parent = None then [] else n_id (h ! n))
     \<and> (\<forall>x. desc h0 n x \<longrightarrow> ids_given g x)"

definition children_post :: "heap \<Rightarrow> heap \<Rightarrow> addr \<Rightarrow> addr list \<Rightarrow> gostring list \<Rightarrow> heap \<Rightarrow> bool" where
  "children_post h0 h n cs used g \<longleftrightarrow>
     touched h0 (set cs) h g
     \<and> map (\<lambda>c. n_id (g ! c)) cs = assign_ids used (map (id_key h0) cs)
     \<and> (\<forall>c \<in> set cs. n_parent (g ! c) = Some n \<and> (\<forall>x. desc h0 c x \<longrightarrow> ids_given g x))"

text \<open>The node itself, before its children are handled.\<close>

definition entered :: "heap \<Rightarrow> addr \<Rightarrow> addr option \<Rightarrow> heap" where
  "entered h n parent =
     (let h1 = h[n := (h ! n)\<lparr>n_parent := parent\<rparr>]
      in if n_parent (h1 ! n) = None then h1[n := (h1 ! n)\<lparr>n_id := []\<rparr>] else h1)"

lemma entered_facts:
  assumes "same_tree h0 h" "n < length h0"
  shows "same_tree h0 (entered h n parent)" "n_parent (entered h n parent ! n) = parent"
    "n_id (entered h n parent ! n) = (if parent = None then [] else n_id (h ! n))"
    "x \<noteq> n \<Longrightarrow> entered h n parent ! x = h ! x"
proof -
  have n: "n < length h" using assms by (simp add: same_tree_def)
  define h1 where "h1 = h[n := (h ! n)\<lparr>n_parent := parent\<rparr>]"
  have st: "same_tree h0 h1"
    unfolding h1_def by (rule same_tree_update [OF assms(1)]) (simp add: same_node_def)
  have "same_tree h0 (h1[n := (h1 ! n)\<lparr>n_id := []\<rparr>])"
    by (rule same_tree_update [OF st]) (simp add: same_node_def)
  with st show "same_tree h0 (entered h n parent)" by (simp add: entered_def flip: h1_def)
  show "n_parent (entered h n parent ! n) = parent"
    "n_id (entered h n parent ! n) = (if parent = None then [] else n_id (h ! n))"
    "x \<noteq> n \<Longrightarrow> entered h n parent ! x = h ! x"
    using n by (auto simp: entered_def Let_def)
qed

lemma assign_node:
  assumes wf: "wf_heap h0" and n: "reachable h0 n" and st0: "same_tree h0 h"
    and cs: "distinct cs" "set cs = set (children h0 n)"
    and post: "children_post h0 (entered h n parent) n cs [] g"
  shows "assign_post h0 h n parent g"
proof -
  have nl: "n < length h0" by (rule reachable_bound [OF wf n])
  note ent = entered_facts [OF st0 nl, where parent = parent]
  note post = post [unfolded children_post_def]
  have st: "same_tree h0 g" using post by (simp add: touched_def)
  have frame: "g ! x = entered h n parent ! x"
    if "x < length h0" "\<And>c. c \<in> set (children h0 n) \<Longrightarrow> \<not> desc h0 c x" for x
    using post that cs(2) by (simp add: touched_def)
  have self: "g ! n = entered h n parent ! n"
  proof (rule frame [OF nl])
    fix c assume c: "c \<in> set (children h0 n)"
    show "\<not> desc h0 c n"
      using desc_ge [OF wf children_facts(2) [OF wf nl c], of n] children_facts(1) [OF wf nl c] by auto
  qed
  have out: "g ! x = h ! x" if "x < length h0" "\<not> desc h0 n x" for x
  proof -
    have "x \<noteq> n" using that(2) by auto
    moreover have "g ! x = entered h n parent ! x"
    proof (rule frame [OF that(1)])
      fix c assume "c \<in> set (children h0 n)"
      then show "\<not> desc h0 c x" using desc_child [OF wf nl] desc_trans that(2) by blast
    qed
    ultimately show ?thesis using ent(4) by simp
  qed
  have chg: "children g n = children h0 n" by (rule same_tree_fields(5) [OF st nl])
  have "id_key g c = id_key h0 c" if "c \<in> set cs" for c
    using same_tree_fields [OF st children_facts(2) [OF wf nl]] that cs(2) by (simp add: id_key_def)
  then have "map (id_key g) cs = map (id_key h0) cs" by simp
  then have "ids_given g n" using post cs unfolding ids_given_def chg by metis
  then have "ids_given g x" if "desc h0 n x" for x
    using desc_children_cases [OF wf nl that] post cs(2) by auto
  then show ?thesis
    using st out ent(2,3) self by (simp add: assign_post_def touched_def)
qed

lemma assign_child:
  assumes wf: "wf_heap h0" and n: "reachable h0 n" and st0: "same_tree h0 h"
    and cs: "distinct (c # cs)" "set (c # cs) \<subseteq> set (children h0 n)"
    and ident: "ident = unique_id used (plain_id (id_key h c)) (n_isDir (h ! c))"
    and h1: "assign_post h0 (h[c := (h ! c)\<lparr>n_id := ident\<rparr>]) c (Some n) h1"
    and g: "children_post h0 h1 n cs (ident # used) g"
  shows "children_post h0 h n (c # cs) used g"
proof -
  have nl: "n < length h0" by (rule reachable_bound [OF wf n])
  have cin: "c \<in> set (children h0 n)" using cs(2) by simp
  note cf = children_facts [OF wf nl cin]
  have cl: "c < length h" using cf(2) st0 by (simp add: same_tree_def)
  note p1 = h1 [unfolded assign_post_def] and pg = g [unfolded children_post_def]
  have st1: "same_tree h0 h1" and st: "same_tree h0 g" using p1 pg by (simp_all add: touched_def)
  have keep: "g ! x = h1 ! x" if "desc h0 c x" for x
  proof -
    have "\<not> desc h0 c' x" if "c' \<in> set cs" for c'
      using desc_siblings [OF wf n cin _ \<open>desc h0 c x\<close>, of c'] that cs by auto
    moreover have "x < length h0" using desc_ge [OF wf cf(2) that] by simp
    ultimately show ?thesis using pg by (simp add: touched_def)
  qed
  have cid: "n_id (g ! c) = ident" "n_parent (g ! c) = Some n"
    using keep [of c] p1 cl by simp_all
  have "id_key h c = id_key h0 c" using same_tree_fields [OF st0 cf(2)] by (simp add: id_key_def)
  then have ident0: "ident = unique_id used (isoIdentifier (n_name (h0 ! c)) (n_isDir (h0 ! c))) (n_isDir (h0 ! c))"
    using ident by (simp add: plain_id_def id_key_def)
  have okc: "ids_given g x" if "desc h0 c x" for x
  proof -
    have x: "x < length h0" using desc_ge [OF wf cf(2) that] by simp
    have ch: "children g x = children h1 x" "children h1 x = children h0 x"
      using same_tree_fields(5) [OF st x] same_tree_fields(5) [OF st1 x] by simp_all
    have "g ! y = h1 ! y" if "y \<in> set (children h1 x)" for y
      by (rule keep, rule desc_trans [OF \<open>desc h0 c x\<close>], rule desc_child [OF wf x]) (use that ch(2) in simp)
    then have "ids_given g x = ids_given h1 x" by (rule ids_given_cong [OF ch(1)])
    then show ?thesis using p1 that by simp
  qed
  have "touched h0 (set (c # cs)) h g"
    unfolding touched_def
  proof (intro conjI allI impI st)
    fix x assume x: "x < length h0" "\<forall>a \<in> set (c # cs). \<not> desc h0 a x"
    then have "x \<noteq> c" by auto
    then show "g ! x = h ! x" using x pg p1 by (simp add: touched_def)
  qed
  moreover have "map (\<lambda>c. n_id (g ! c)) (c # cs) = assign_ids used (map (id_key h0) (c # cs))"
    using pg cid(1) ident0 by (simp add: Let_def id_key_def)
  ultimately show ?thesis using pg cid(2) okc by (simp add: children_post_def)
qed

lemma assign_spec:
  assumes wf: "wf_heap h0"
  shows "same_tree h0 h \<Longrightarrow> reachable h0 n \<Longrightarrow> length h0 \<le> k + n \<Longrightarrow>
      \<exists>g. assignIdentifiers k h n parent = Inr g \<and> assign_post h0 h n parent g"
    and "same_tree h0 h \<Longrightarrow> reachable h0 n \<Longrightarrow> length h0 \<le> Suc (k + n) \<Longrightarrow> distinct cs \<Longrightarrow>
      set cs \<subseteq> set (children h0 n) \<Longrightarrow>
      \<exists>g. assign_children k h n cs used = Inr g \<and> children_post h0 h n cs used g"
proof (induction k h n parent and k h n cs used rule: assignIdentifiers_assign_children.induct)
  case (1 h n parent)
  then show ?case using reachable_bound [OF wf 1(2)] by simp
next
  case (2 k h n parent)
  have nl: "n < length h0" by (rule reachable_bound [OF wf 2(3)])
  let ?h = "entered h n parent" and ?cs = "sortedChildren (entered h n parent) n"
  have st: "same_tree h0 ?h" by (rule entered_facts(1) [OF 2(2) nl])
  have "n < length ?h" using st nl by (simp add: same_tree_def)
  then have cs: "set ?cs = set (children h0 n)" "distinct ?cs"
    using sortedChildren_set [OF same_tree_wf [OF st wf]] sortedChildren_distinct [OF same_tree_wf [OF st wf]]
      same_tree_fields(5) [OF st nl] by simp_all
  have fuel: "length h0 \<le> Suc (k + n)" using 2(4) by simp
  obtain g where g: "assign_children k ?h n ?cs [] = Inr g" "children_post h0 ?h n ?cs [] g"
    using 2(1) [OF refl refl, folded entered_def [unfolded Let_def], OF st 2(3) fuel cs(2)] cs(1)
    by (auto simp: entered_def Let_def)
  have "assign_post h0 h n parent g" by (rule assign_node [OF wf 2(3,2) cs(2,1) g(2)])
  moreover have "assignIdentifiers (Suc k) h n parent = Inr g"
    using g(1) unfolding assignIdentifiers.simps Let_def entered_def .
  ultimately show ?case by blast
next
  case (3 k h n used)
  then show ?case by (simp add: children_post_def touched_def)
next
  case (4 k h n c cs used)
  have cin: "c \<in> set (children h0 n)" and csin: "set cs \<subseteq> set (children h0 n)" and cd: "distinct cs"
    using 4(6,7) by auto
  have nl: "n < length h0" by (rule reachable_bound [OF wf 4(4)])
  define base where "base = isoIdentifier (n_name (h ! c)) (n_isDir (h ! c))"
  define ident where "ident = unique_id used base (n_isDir (h ! c))"
  let ?h = "h[c := (h ! c)\<lparr>n_id := ident\<rparr>]"
  have st: "same_tree h0 ?h" by (rule same_tree_update [OF 4(3)]) (simp add: same_node_def)
  have fuel: "length h0 \<le> k + c" using 4(5) children_facts(1) [OF wf nl cin] by simp
  obtain h1 where h1: "assignIdentifiers k ?h c (Some n) = Inr h1" "assign_post h0 ?h c (Some n) h1"
    using 4(1) [OF base_def ident_def st reachable_child [OF wf 4(4) nl cin] fuel] by blast
  have st1: "same_tree h0 h1" using h1(2) by (simp add: assign_post_def touched_def)
  obtain g where g: "assign_children k h1 n cs (ident # used) = Inr g" "children_post h0 h1 n cs (ident # used) g"
    using 4(2) [OF base_def ident_def h1(1) st1 4(4,5) cd csin] by blast
  have "ident = unique_id used (plain_id (id_key h c)) (n_isDir (h ! c))"
    by (simp add: ident_def base_def plain_id_def id_key_def)
  from assign_child [OF wf 4(4,3,6,7) this h1(2) g(2)]
  have "children_post h0 h n (c # cs) used g" .
  moreover have "assign_children k h n (c # cs) used = Inr g"
    using g(1) h1(1) by (simp add: Let_def flip: base_def ident_def)
  ultimately show ?case by blast
qed

lemma assignIdentifiers_ok:
  assumes wf: "wf_heap h" and few: "few_children h"
  shows "\<exists>g. assignIdentifiers (length h) h 0 None = Inr g \<and> same_tree h g
    \<and> n_parent (g ! 0) = None \<and> n_id (g ! 0) = []
    \<and> (\<forall>x. reachable h x \<longrightarrow> ids_ok g x)
    \<and> (\<forall>x < length h. \<not> reachable h x \<longrightarrow> g ! x = h ! x)"
proof -
  have "reachable h 0" by (simp add: reachable_def)
  from assign_spec(1) [OF wf same_tree_refl this, of "length h" None]
  obtain g where g: "assignIdentifiers (length h) h 0 None = Inr g" "assign_post h h 0 None g" by auto
  have st: "same_tree h g" using g(2) by (simp add: assign_post_def touched_def)
  have wfg: "wf_heap g" by (rule same_tree_wf [OF st wf])
  have "ids_ok g x" if r: "reachable h x" for x
  proof (rule ids_given_ok)
    have xl: "x < length g" using reachable_bound [OF wf r] st by (simp add: same_tree_def)
    show "ids_given g x" using g(2) r by (simp add: assign_post_def reachable_def)
    show "distinct (children g x)" by (rule distinct_children [OF wfg xl])
    show "length (children g x) < 9999999"
      using few few_children_same [OF st] xl by (auto simp: few_children_def children_def)
    show "\<forall>c \<in> set (children g x). n_name (g ! c) \<noteq> []"
      using children_facts(3) [OF wfg xl] by (auto simp: component_def)
  qed
  then show ?thesis using g st by (auto simp: assign_post_def touched_def reachable_def)
qed

end
