(* ===== verification/Traversal.thy ===== *)
theory Traversal
  imports LayoutFacts
begin

text \<open>
  The two traversals of \<^verbatim>\<open>create.go\<close>: breadth first over the directories (\<^verbatim>\<open>orderedDirs\<close>) and
  depth first over the files (the closures \<^verbatim>\<open>place\<close>, \<^verbatim>\<open>walk\<close> and \<^verbatim>\<open>writeFiles\<close>).  Both visit
  every node below the root exactly once; the closures are a loop over one fixed list.
\<close>

section \<open>Heaps with the same order\<close>

text \<open>Placing extents changes neither the tree nor the identifiers, so the order stays.\<close>

definition same_order :: "heap \<Rightarrow> heap \<Rightarrow> bool" where
  "same_order h g \<longleftrightarrow> same_tree h g \<and> (\<forall>a < length h. n_id (g ! a) = n_id (h ! a))"

lemma same_order_refl [simp]: "same_order h h"
  by (simp add: same_order_def)

lemma same_order_trans: "same_order h g \<Longrightarrow> same_order g k \<Longrightarrow> same_order h k"
  using same_tree_trans [of h g k] by (auto simp: same_order_def same_tree_def)

lemma same_order_update:
  "same_order h g \<Longrightarrow> same_node (g ! a) nd \<Longrightarrow> n_id nd = n_id (g ! a) \<Longrightarrow> same_order h (g[a := nd])"
  by (cases "a < length g")
    (auto simp: same_order_def same_tree_update nth_list_update same_tree_def same_node_def)

lemma insert_by_cong:
  "(\<And>y. y \<in> set ys \<Longrightarrow> lt y x = lt' y x) \<Longrightarrow> insert_by lt x ys = insert_by lt' x ys"
  by (induction ys) auto

lemma sort_by_cong:
  "(\<And>x y. x \<in> set xs \<Longrightarrow> y \<in> set xs \<Longrightarrow> lt x y = lt' x y) \<Longrightarrow> sort_by lt xs = sort_by lt' xs"
proof (induction xs)
  case (Cons x xs)
  have "sort_by lt xs = sort_by lt' xs" by (rule Cons.IH) (use Cons.prems in auto)
  moreover have "insert_by lt x (sort_by lt' xs) = insert_by lt' x (sort_by lt' xs)"
    by (rule insert_by_cong) (use Cons.prems in auto)
  ultimately show ?case by (simp add: sort_by_def)
qed (simp add: sort_by_def)

lemma same_order_sorted:
  assumes "same_order h g" "wf_heap h" "d < length h"
  shows "sortedChildren g d = sortedChildren h d"
proof -
  have st: "same_tree h g" and ids: "\<And>a. a < length h \<Longrightarrow> n_id (g ! a) = n_id (h ! a)"
    using assms(1) by (simp_all add: same_order_def)
  have "node_less g x y = node_less h x y"
    if "x \<in> set (children h d)" "y \<in> set (children h d)" for x y
    using children_facts(2) [OF assms(2,3)] that ids same_tree_fields(1) [OF st]
    by (simp add: node_less_def)
  then have "sort_by (node_less g) (children h d) = sort_by (node_less h) (children h d)"
    by (intro sort_by_cong)
  then show ?thesis
    using same_tree_fields(2,4) [OF st assms(3)] by (simp add: sortedChildren_def children_def)
qed

section \<open>Breadth first\<close>

definition subdirs :: "heap \<Rightarrow> addr \<Rightarrow> addr list" where
  "subdirs h d = filter (\<lambda>c. n_isDir (h ! c)) (sortedChildren h d)"

text \<open>
  The invariant of the loop: after \<open>i\<close> rounds the list is the root followed by the
  subdirectories of its first \<open>i\<close> elements.
\<close>

definition bfs_inv :: "heap \<Rightarrow> addr list \<Rightarrow> nat \<Rightarrow> bool" where
  "bfs_inv h dirs i \<longleftrightarrow>
     i \<le> length dirs \<and> distinct dirs \<and> dirs = 0 # concat (map (subdirs h) (take i dirs))
     \<and> (\<forall>d \<in> set dirs. reachable h d \<and> n_isDir (h ! d))
     \<and> (\<forall>j. 0 < j \<longrightarrow> j < length dirs \<longrightarrow> (\<exists>k < j. dirs ! j \<in> set (subdirs h (dirs ! k))))"

lemma subdirs_facts:
  assumes "wf_heap h" "reachable h d" "c \<in> set (subdirs h d)"
  shows "c \<in> set (children h d)" "n_isDir (h ! c)" "reachable h c" "0 < c"
  using assms reachable_bound [OF assms(1,2)] sortedChildren_set [OF assms(1)]
    reachable_child [OF assms(1,2)] children_facts(1) [OF assms(1), of d c]
  by (auto simp: subdirs_def)

lemma single_parent:
  assumes "wf_heap h" "a < length h" "b < length h" "c \<in> set (children h a)" "c \<in> set (children h b)"
  shows "a = b"
  using assms unfolding wf_heap_def single_parents_def children_def by fastforce

text \<open>What a round appends is new: a directory has one parent, and each is visited once.\<close>

lemma bfs_new:
  assumes wf: "wf_heap h" and inv: "bfs_inv h dirs i" and i: "i < length dirs"
    and c: "c \<in> set (subdirs h (dirs ! i))"
  shows "c \<notin> set dirs"
proof
  assume cin: "c \<in> set dirs"
  let ?d = "dirs ! i"
  have eq: "dirs = 0 # concat (map (subdirs h) (take i dirs))" and dist: "distinct dirs"
    and dd: "\<And>d. d \<in> set dirs \<Longrightarrow> reachable h d"
    using inv by (simp_all add: bfs_inv_def)
  have rd: "reachable h ?d" using dd i by simp
  have "set dirs = insert 0 (\<Union>d \<in> set (take i dirs). set (subdirs h d))"
    using arg_cong [OF eq, of set] by (simp only: list.set set_concat set_map image_image)
  from cin [unfolded this] obtain d where d: "d \<in> set (take i dirs)" "c \<in> set (subdirs h d)"
    using subdirs_facts(4) [OF wf rd c] by auto
  have rd': "reachable h d" using dd [OF in_set_takeD [OF d(1)]] .
  have "d = ?d"
    using single_parent [OF wf reachable_bound [OF wf rd'] reachable_bound [OF wf rd]]
      subdirs_facts(1) [OF wf rd' d(2)] subdirs_facts(1) [OF wf rd c] by simp
  then show False
    using d(1) dist i by (auto simp: in_set_conv_nth nth_eq_iff_index_eq)
qed

lemma bfs_parents:
  assumes "\<And>j. 0 < j \<Longrightarrow> j < length dirs \<Longrightarrow> \<exists>k < j. dirs ! j \<in> set (subdirs h (dirs ! k))"
    and "i < length dirs" "0 < j" "j < length (dirs @ subdirs h (dirs ! i))"
  shows "\<exists>k < j. (dirs @ subdirs h (dirs ! i)) ! j \<in> set (subdirs h ((dirs @ subdirs h (dirs ! i)) ! k))"
proof (cases "j < length dirs")
  case True
  then obtain k where "k < j" "dirs ! j \<in> set (subdirs h (dirs ! k))" using assms(1,3) by blast
  then show ?thesis using True by (intro exI [of _ k]) (simp add: nth_append)
next
  case False
  then have "(dirs @ subdirs h (dirs ! i)) ! j \<in> set (subdirs h (dirs ! i))"
    using assms(4) by (simp add: nth_append)
  then show ?thesis using False assms(2) by (intro exI [of _ i]) (simp add: nth_append)
qed

lemma bfs_step:
  assumes wf: "wf_heap h" and inv: "bfs_inv h dirs i" and i: "i < length dirs"
  shows "bfs_inv h (dirs @ subdirs h (dirs ! i)) (Suc i)"
proof -
  let ?d = "dirs ! i" and ?new = "dirs @ subdirs h (dirs ! i)"
  have eq: "dirs = 0 # concat (map (subdirs h) (take i dirs))" and dist: "distinct dirs"
    and dd: "\<And>d. d \<in> set dirs \<Longrightarrow> reachable h d \<and> n_isDir (h ! d)"
    and old: "\<And>j. 0 < j \<Longrightarrow> j < length dirs \<Longrightarrow> \<exists>k < j. dirs ! j \<in> set (subdirs h (dirs ! k))"
    using inv by (simp_all add: bfs_inv_def)
  have rd: "reachable h ?d" using dd i by simp
  have "take (Suc i) ?new = take i dirs @ [?d]" using i by (simp add: take_Suc_conv_app_nth)
  then have tk: "concat (map (subdirs h) (take (Suc i) ?new))
      = concat (map (subdirs h) (take i dirs)) @ subdirs h ?d"
    by (simp only: map_append concat_append list.map concat.simps append_Nil2)
  have shape: "?new = 0 # concat (map (subdirs h) (take (Suc i) ?new))"
    using arg_cong [OF eq, of "\<lambda>l. l @ subdirs h ?d"] unfolding tk append_Cons .
  have new: "distinct ?new"
    using dist bfs_new [OF wf inv i] sortedChildren_distinct [OF wf reachable_bound [OF wf rd]]
    by (auto simp: subdirs_def)
  have all: "\<forall>d \<in> set ?new. reachable h d \<and> n_isDir (h ! d)"
    using dd subdirs_facts(2,3) [OF wf rd] by auto
  have parents: "\<forall>j. 0 < j \<longrightarrow> j < length ?new \<longrightarrow> (\<exists>k < j. ?new ! j \<in> set (subdirs h (?new ! k)))"
    using bfs_parents [OF old i] by blast
  have "Suc i \<le> length ?new" using i by simp
  then show ?thesis unfolding bfs_inv_def by (intro conjI shape new all parents)
qed

lemma bfs_inv_length:
  assumes "wf_heap h" "bfs_inv h dirs i"
  shows "length dirs \<le> length h"
proof -
  have "set dirs \<subseteq> {..<length h}"
    using assms reachable_bound by (auto simp: bfs_inv_def)
  then have "card (set dirs) \<le> length h" using card_mono [of "{..<length h}"] by simp
  then show ?thesis using assms(2) by (simp add: bfs_inv_def distinct_card)
qed

lemma bfs_loop_ok:
  assumes "wf_heap h" "bfs_inv h dirs i" "length h \<le> fuel + i"
  shows "\<exists>out. bfs_loop fuel h dirs i = Inr out \<and> bfs_inv h out (length out)"
  using assms(2,3)
proof (induction fuel arbitrary: dirs i)
  case 0
  then have "\<not> i < length dirs" using bfs_inv_length [OF assms(1) 0(1)] by simp
  then show ?case using 0 by (subst bfs_loop.simps) (simp add: bfs_inv_def)
next
  case (Suc k)
  show ?case
  proof (cases "i < length dirs")
    case True
    then have "bfs_loop (Suc k) h dirs i = bfs_loop k h (dirs @ subdirs h (dirs ! i)) (Suc i)"
      by (subst bfs_loop.simps) (simp add: subdirs_def)
    then show ?thesis
      using Suc.IH [OF bfs_step [OF assms(1) Suc.prems(1) True]] Suc.prems(2) by simp
  next
    case False
    then show ?thesis using Suc.prems by (subst bfs_loop.simps) (simp add: bfs_inv_def)
  qed
qed

text \<open>The order of the path table: the root, then the subdirectories of the listed directories.\<close>

lemma orderedDirs_ok:
  assumes wf: "wf_heap h"
  shows "\<exists>dirs. orderedDirs h 0 = Inr dirs \<and> distinct dirs
    \<and> dirs = 0 # concat (map (subdirs h) dirs)
    \<and> set dirs = {d. reachable h d \<and> n_isDir (h ! d)}
    \<and> (\<forall>j. 0 < j \<longrightarrow> j < length dirs \<longrightarrow> (\<exists>k < j. dirs ! j \<in> set (subdirs h (dirs ! k))))"
proof -
  have "bfs_inv h [0] 0" using wf by (simp add: bfs_inv_def reachable_def wf_heap_def)
  from bfs_loop_ok [OF wf this, of "length h"] obtain dirs where
    d: "orderedDirs h 0 = Inr dirs" "bfs_inv h dirs (length dirs)"
    by (auto simp: orderedDirs_def)
  have eq: "dirs = 0 # concat (map (subdirs h) dirs)" using d(2) by (simp add: bfs_inv_def)
  have closed: "c \<in> set dirs" if "x \<in> set dirs" "c \<in> set (subdirs h x)" for c x
    using that by (subst eq) auto
  have "x \<in> set dirs" if "node_at h 0 p = Some x" "n_isDir (h ! x)" for p x
    using that
  proof (induction p arbitrary: x rule: rev_induct)
    case Nil
    then show ?case by (subst eq) simp
  next
    case (snoc k p)
    then obtain a where a: "node_at h 0 p = Some a" "map_of (n_children (h ! a)) k = Some x"
      using node_at_snoc by metis
    have al: "a < length h" using node_at_bound [OF wf _ a(1)] wf by (simp add: wf_heap_def)
    note cf = child_facts [OF wf al a(2)]
    have "x \<in> set (children h a)" using cf(5) by (force simp: children_def)
    then have "x \<in> set (subdirs h a)"
      using snoc.prems(2) sortedChildren_set [OF wf al] by (simp add: subdirs_def)
    then show ?case using closed snoc.IH [OF a(1) cf(6)] by blast
  qed
  then have "set dirs = {d. reachable h d \<and> n_isDir (h ! d)}"
    using d(2) by (auto simp: bfs_inv_def reachable_def desc_def)
  then show ?thesis using d unfolding bfs_inv_def by (intro exI [of _ dirs]) simp
qed

section \<open>Depth first\<close>

primrec dfs_files :: "nat \<Rightarrow> heap \<Rightarrow> addr \<Rightarrow> addr list" where
  "dfs_files 0 h d = []"
| "dfs_files (Suc k) h d =
     concat (map (\<lambda>c. if n_isDir (h ! c) then dfs_files k h c else [c]) (sortedChildren h d))"

lemma write_each_append:
  "write_each f (xs @ ys) w = res_bind (write_each f xs w) (write_each f ys)"
  by (induction xs arbitrary: w) (simp_all add: res_bind_def split: sum.splits)

text \<open>
  A closure that keeps the order of the heap is a loop over the files of the heap it starts
  with.
\<close>

definition keeps_order :: "heap \<Rightarrow> ('s \<Rightarrow> heap) \<Rightarrow> (addr \<Rightarrow> 's \<Rightarrow> 's res) \<Rightarrow> bool" where
  "keeps_order h heap_of body \<longleftrightarrow>
     (\<forall>c s s'. same_order h (heap_of s) \<longrightarrow> body c s = Inr s' \<longrightarrow> same_order h (heap_of s'))"

lemma write_each_keeps:
  "keeps_order h heap_of body \<Longrightarrow> same_order h (heap_of s) \<Longrightarrow> write_each body cs s = Inr s' \<Longrightarrow>
   same_order h (heap_of s')"
proof (induction cs arbitrary: s)
  case (Cons c cs)
  then obtain t where "body c s = Inr t" "write_each body cs t = Inr s'" by (auto simp: res_inv)
  moreover have "same_order h (heap_of t)"
    using Cons.prems(1,2) calculation(1) unfolding keeps_order_def by blast
  ultimately show ?case using Cons.IH Cons.prems(1) by blast
qed simp

lemma visit_loop:
  assumes wf: "wf_heap h"
  shows "keeps_order h heap_of body \<Longrightarrow> same_order h (heap_of s) \<Longrightarrow> d < length h \<Longrightarrow> length h \<le> k + d \<Longrightarrow>
      visit_files heap_of body k d s = write_each body (dfs_files k h d) s"
    and "keeps_order h heap_of body \<Longrightarrow> same_order h (heap_of s) \<Longrightarrow> set cs \<subseteq> {..<length h} \<Longrightarrow>
      (\<forall>c \<in> set cs. length h \<le> k + c) \<Longrightarrow>
      visit_list heap_of body k cs s
        = write_each body (concat (map (\<lambda>c. if n_isDir (h ! c) then dfs_files k h c else [c]) cs)) s"
proof (induction heap_of body k d s and heap_of body k cs s rule: visit_files_visit_list.induct)
  case (1 heap_of body d s)
  then show ?case by simp
next
  case (2 heap_of body k d s)
  have c: "set (sortedChildren h d) \<subseteq> {..<length h}" "\<forall>c \<in> set (sortedChildren h d). length h \<le> k + c"
    using children_facts(1,2) [OF wf 2(4)] 2(5) sortedChildren_set [OF wf 2(4)] by fastforce+
  show ?case
    using 2(1) [unfolded same_order_sorted [OF 2(3) wf 2(4)], OF 2(2,3) c]
    by (simp add: same_order_sorted [OF 2(3) wf 2(4)])
next
  case (3 heap_of body k s)
  then show ?case by simp
next
  case (4 heap_of body k c cs s)
  let ?one = "if n_isDir (h ! c) then dfs_files k h c else [c]"
  have cl: "c < length h" "length h \<le> k + c" using 4(5,6) by simp_all
  have dir: "n_isDir (heap_of s ! c) = n_isDir (h ! c)"
    using 4(4) cl(1) same_tree_fields(2) by (simp add: same_order_def)
  have one: "(if n_isDir (heap_of s ! c) then visit_files heap_of body k c s else body c s)
      = write_each body ?one s"
    using 4(1) [unfolded dir, OF _ 4(3,4) cl]
    by (cases "body c s") (simp_all add: dir)
  show ?case
  proof (cases "write_each body ?one s")
    case (Inl e)
    then show ?thesis by (simp add: one write_each_append del: write_each.simps)
  next
    case (Inr t)
    have t: "same_order h (heap_of t)" by (rule write_each_keeps [OF 4(3,4) Inr])
    have "visit_list heap_of body k cs t
        = write_each body (concat (map (\<lambda>c. if n_isDir (h ! c) then dfs_files k h c else [c]) cs)) t"
      by (rule 4(2)) (use Inr one 4(3,5,6) t in auto)
    then show ?thesis using Inr by (simp add: one write_each_append del: write_each.simps)
  qed
qed

text \<open>The files below a directory, each once.\<close>

lemma dfs_files_set:
  assumes wf: "wf_heap h"
  shows "d < length h \<Longrightarrow> n_isDir (h ! d) \<Longrightarrow> length h \<le> k + d \<Longrightarrow>
    set (dfs_files k h d) = {x. desc h d x \<and> \<not> n_isDir (h ! x)}"
proof (induction k arbitrary: d)
  case (Suc k)
  have sub: "set (if n_isDir (h ! c) then dfs_files k h c else [c]) = {x. desc h c x \<and> \<not> n_isDir (h ! x)}"
    if c: "c \<in> set (children h d)" for c
  proof (cases "n_isDir (h ! c)")
    case True
    then show ?thesis
      using Suc.IH [of c] children_facts(1,2) [OF wf Suc.prems(1) c] Suc.prems(3) by simp
  next
    case False
    have "wf_node h c" using wf children_facts(2) [OF wf Suc.prems(1) c] by (simp add: wf_heap_def)
    then have "children h c = []" using False by (simp add: wf_node_def children_def)
    then have "x = c" if "desc h c x" for x
      using desc_children_cases [OF wf children_facts(2) [OF wf Suc.prems(1) c] that] by simp
    then show ?thesis using False by auto
  qed
  have "set (dfs_files (Suc k) h d)
      = (\<Union>c \<in> set (children h d). {x. desc h c x \<and> \<not> n_isDir (h ! x)})"
    unfolding dfs_files.simps set_concat set_map image_image sortedChildren_set [OF wf Suc.prems(1)]
    by (intro SUP_cong refl) (rule sub)
  also have "\<dots> = {x. desc h d x \<and> \<not> n_isDir (h ! x)}"
  proof (intro set_eqI iffI)
    fix x assume "x \<in> (\<Union>c \<in> set (children h d). {x. desc h c x \<and> \<not> n_isDir (h ! x)})"
    then obtain c where "c \<in> set (children h d)" "desc h c x" "\<not> n_isDir (h ! x)" by blast
    then show "x \<in> {x. desc h d x \<and> \<not> n_isDir (h ! x)}"
      using desc_trans [OF desc_child [OF wf Suc.prems(1)]] by simp
  next
    fix x assume "x \<in> {x. desc h d x \<and> \<not> n_isDir (h ! x)}"
    then have x: "desc h d x" "\<not> n_isDir (h ! x)" by simp_all
    then have "x \<noteq> d" using Suc.prems(2) by auto
    then show "x \<in> (\<Union>c \<in> set (children h d). {x. desc h c x \<and> \<not> n_isDir (h ! x)})"
      using desc_children_cases [OF wf Suc.prems(1) x(1)] x(2) by auto
  qed
  finally show ?case .
qed simp

lemma dfs_files_distinct:
  assumes wf: "wf_heap h"
  shows "reachable h d \<Longrightarrow> n_isDir (h ! d) \<Longrightarrow> length h \<le> k + d \<Longrightarrow> distinct (dfs_files k h d)"
proof (induction k arbitrary: d)
  case (Suc k)
  have dl: "d < length h" by (rule reachable_bound [OF wf Suc.prems(1)])
  let ?f = "\<lambda>c. if n_isDir (h ! c) then dfs_files k h c else [c]"
  have ch: "c \<in> set (children h d) \<Longrightarrow> reachable h c \<and> d < c \<and> c < length h" for c
    using reachable_child [OF wf Suc.prems(1) dl] children_facts(1,2) [OF wf dl] by blast
  have sub: "desc h c x" if "c \<in> set (children h d)" "x \<in> set (?f c)" for c x
    using that dfs_files_set [OF wf, of c k] ch [OF that(1)] Suc.prems(3) by (auto split: if_splits)
  have one: "distinct (?f c)" if "c \<in> set (children h d)" for c
    using Suc.IH [of c] ch [OF that] Suc.prems(3) by simp
  have disj: "set (?f c) \<inter> set (?f c') = {}"
    if "c \<in> set (children h d)" "c' \<in> set (children h d)" "c \<noteq> c'" for c c'
    using desc_siblings [OF wf Suc.prems(1) that(1,2)] that(3) sub [OF that(1)] sub [OF that(2)] by blast
  have gen: "distinct (concat (map ?f cs))" if "distinct cs" "set cs \<subseteq> set (children h d)" for cs
    using that
  proof (induction cs)
    case (Cons c cs)
    have "set (?f c) \<inter> set (?f c') = {}" if "c' \<in> set cs" for c'
      by (rule disj) (use Cons.prems that in auto)
    then have "set (?f c) \<inter> set (concat (map ?f cs)) = {}" by (simp only: set_concat set_map) blast
    moreover have "distinct (?f c)" "distinct (concat (map ?f cs))"
      using one Cons by simp_all
    ultimately show ?case by (simp del: if_split)
  qed simp
  show ?case
    using gen [OF sortedChildren_distinct [OF wf dl]] sortedChildren_set [OF wf dl] by simp
qed simp

end
