(* ===== verification/Extents.thy ===== *)
theory Extents
  imports Traversal
begin

text \<open>
  \<^verbatim>\<open>layout\<close> in \<^verbatim>\<open>create.go\<close>: it always returns, and the heap it leaves is described
  by \<open>laid_out\<close>: the tree is unchanged, identifiers, parents and path-table indices are
  assigned, and every directory and file has an extent, one after the other.
\<close>

section \<open>Heaps that differ in extents and indices only\<close>

definition same_links :: "heap \<Rightarrow> heap \<Rightarrow> bool" where
  "same_links h g \<longleftrightarrow> same_order h g \<and> (\<forall>a < length h. n_parent (g ! a) = n_parent (h ! a))"

lemma same_links_refl [simp]: "same_links h h"
  by (simp add: same_links_def)

lemma same_links_trans: "same_links h g \<Longrightarrow> same_links g k \<Longrightarrow> same_links h k"
  using same_order_trans [of h g k] by (auto simp: same_links_def same_order_def same_tree_def)

lemma same_links_update:
  "same_links h g \<Longrightarrow> same_node (g ! a) nd \<Longrightarrow> n_id nd = n_id (g ! a) \<Longrightarrow> n_parent nd = n_parent (g ! a) \<Longrightarrow>
   same_links h (g[a := nd])"
  using same_order_update [of h g a nd]
  by (cases "a < length g") (auto simp: same_links_def nth_list_update list_update_beyond)

lemma same_links_tree: "same_links h g \<Longrightarrow> same_tree h g" "same_links h g \<Longrightarrow> same_order h g"
  by (simp_all add: same_links_def same_order_def)

lemma same_links_length: "same_links h g \<Longrightarrow> length g = length h"
  by (simp add: same_links_def same_order_def same_tree_def)

lemma same_links_fields:
  assumes "same_links h g" "a < length h"
  shows "n_name (g ! a) = n_name (h ! a)" "n_isDir (g ! a) = n_isDir (h ! a)"
    "n_data (g ! a) = n_data (h ! a)" "n_children (g ! a) = n_children (h ! a)"
    "children g a = children h a" "n_id (g ! a) = n_id (h ! a)" "n_parent (g ! a) = n_parent (h ! a)"
  using assms same_tree_fields [OF same_links_tree(1) [OF assms(1)] assms(2)]
  by (simp_all add: same_links_def same_order_def)

lemma links_sorted:
  "same_links h g \<Longrightarrow> wf_heap h \<Longrightarrow> d < length h \<Longrightarrow> sortedChildren g d = sortedChildren h d"
  by (rule same_order_sorted [OF same_links_tree(2)])

lemma sorted_child_bound:
  "wf_heap h \<Longrightarrow> d < length h \<Longrightarrow> c \<in> set (sortedChildren h d) \<Longrightarrow> c < length h"
  using children_facts(2) sortedChildren_set by blast

lemma links_subdirs:
  assumes "same_links h g" "wf_heap h" "d < length h"
  shows "subdirs g d = subdirs h d"
  using sorted_child_bound [OF assms(2,3)] same_links_fields(2) [OF assms(1)]
  by (auto simp: subdirs_def links_sorted [OF assms] intro: filter_cong)

lemma links_extent_size:
  assumes "same_links h g" "wf_heap h" "d < length h"
  shows "directoryExtentSize g d = directoryExtentSize h d"
  unfolding directoryExtentSize_def links_sorted [OF assms]
  using sorted_child_bound [OF assms(2,3)] same_links_fields(6) [OF assms(1)] by (simp cong: fold_cong)

lemma links_path_table:
  assumes "same_links h g" "set dirs \<subseteq> {..<length h}"
  shows "pathTableSize g dirs = pathTableSize h dirs"
  unfolding pathTableSize_def pathTableIdent_def
  using assms(2) same_links_fields(6,7) [OF assms(1)] by (intro fold_cong) auto

lemma links_bfs:
  assumes "same_links h g" "wf_heap h"
  shows "set dirs \<subseteq> {..<length h} \<Longrightarrow> bfs_loop fuel g dirs i = bfs_loop fuel h dirs i"
proof (induction fuel arbitrary: dirs i)
  case 0
  then show ?case by (simp add: bfs_loop.simps [of 0])
next
  case (Suc k)
  show ?case
  proof (cases "i < length dirs")
    case True
    then have d: "dirs ! i < length h" using Suc.prems nth_mem by blast
    then have "set (subdirs h (dirs ! i)) \<subseteq> {..<length h}"
      using sorted_child_bound [OF assms(2) d] by (auto simp: subdirs_def)
    then show ?thesis
      using Suc.prems Suc.IH [of "dirs @ subdirs h (dirs ! i)" "i + 1"] links_subdirs [OF assms d] True
      by (simp add: bfs_loop.simps [of "Suc k"] subdirs_def)
  next
    case False
    then show ?thesis by (simp add: bfs_loop.simps [of "Suc k"])
  qed
qed

lemma links_orderedDirs: "same_links h g \<Longrightarrow> wf_heap h \<Longrightarrow> orderedDirs g 0 = orderedDirs h 0"
  using links_bfs by (simp add: orderedDirs_def same_links_length wf_heap_def)

lemma links_dfs:
  assumes "same_links h g" "wf_heap h"
  shows "d < length h \<Longrightarrow> dfs_files k g d = dfs_files k h d"
proof (induction k arbitrary: d)
  case (Suc k)
  have "(if n_isDir (g ! c) then dfs_files k g c else [c]) = (if n_isDir (h ! c) then dfs_files k h c else [c])"
    if "c \<in> set (sortedChildren h d)" for c
    using Suc sorted_child_bound [OF assms(2) Suc.prems that] same_links_fields(2) [OF assms(1)] by simp
  then show ?case by (simp add: links_sorted [OF assms Suc.prems] cong: map_cong)
qed simp

lemma links_ids_ok:
  assumes "same_links h g" "wf_heap h" "d < length h"
  shows "ids_ok g d = ids_ok h d"
proof -
  have ch: "children g d = children h d" by (rule same_links_fields(5) [OF assms(1,3)])
  have "n_id (g ! c) = n_id (h ! c) \<and> n_isDir (g ! c) = n_isDir (h ! c) \<and> n_parent (g ! c) = n_parent (h ! c)
      \<and> base_id g c = base_id h c"
    if "c \<in> set (children h d)" for c
    using same_links_fields [OF assms(1) children_facts(2) [OF assms(2,3) that]] by (simp add: base_id_def)
  then show ?thesis unfolding ids_ok_def ch by (simp cong: map_cong)
qed

lemma tree_reachable: "same_tree h g \<Longrightarrow> wf_heap h \<Longrightarrow> reachable g a = reachable h a"
  using same_tree_node_at [of h g 0] by (simp add: reachable_def desc_def wf_heap_def)

section \<open>Indices\<close>

lemma number_dirs_from:
  assumes "distinct dirs" "set dirs \<subseteq> {..<length h}"
    and "g = fold (\<lambda>(i, d) h. h[d := (h ! d)\<lparr>n_dirIndex := i + 1\<rparr>]) (enumerate k dirs) h"
  shows "length g = length h \<and> (\<forall>a. a \<notin> set dirs \<longrightarrow> g ! a = h ! a)
    \<and> (\<forall>i < length dirs. g ! (dirs ! i) = (h ! (dirs ! i))\<lparr>n_dirIndex := k + i + 1\<rparr>)"
  using assms
proof (induction dirs arbitrary: k h)
  case (Cons d dirs)
  let ?h = "h[d := (h ! d)\<lparr>n_dirIndex := k + 1\<rparr>]"
  have "g = fold (\<lambda>(i, d) h. h[d := (h ! d)\<lparr>n_dirIndex := i + 1\<rparr>]) (enumerate (Suc k) dirs) ?h"
    using Cons.prems(3) by simp
  from Cons.IH [OF _ _ this] Cons.prems(1,2)
  have IH: "length g = length h" "\<And>a. a \<notin> set dirs \<Longrightarrow> g ! a = ?h ! a"
    "\<And>i. i < length dirs \<Longrightarrow> g ! (dirs ! i) = (?h ! (dirs ! i))\<lparr>n_dirIndex := Suc k + i + 1\<rparr>"
    by simp_all
  have "g ! ((d # dirs) ! i) = (h ! ((d # dirs) ! i))\<lparr>n_dirIndex := k + i + 1\<rparr>"
    if i: "i < length (d # dirs)" for i
  proof (cases i)
    case 0
    then show ?thesis using IH(2) [of d] Cons.prems(1,2) by simp
  next
    case (Suc j)
    then have j: "j < length dirs" using i by simp
    then have "dirs ! j \<noteq> d" using Cons.prems(1) by auto
    then show ?thesis using IH(3) [OF j] Suc by simp
  qed
  then show ?case using IH(1,2) by simp
next
  case Nil
  have "g = h" unfolding Nil.prems(3) by simp
  then show ?case by simp
qed

lemma number_dirs_spec:
  assumes "distinct dirs" "set dirs \<subseteq> {..<length h}"
  shows "i < length dirs \<Longrightarrow> number_dirs dirs h ! (dirs ! i) = (h ! (dirs ! i))\<lparr>n_dirIndex := i + 1\<rparr>"
    and "a \<notin> set dirs \<Longrightarrow> number_dirs dirs h ! a = h ! a"
    and "length (number_dirs dirs h) = length h"
  using number_dirs_from [OF assms number_dirs_def] by simp_all

lemma number_dirs_links:
  assumes "distinct dirs" "set dirs \<subseteq> {..<length h}"
  shows "same_links h (number_dirs dirs h)"
proof -
  note spec = number_dirs_spec [OF assms]
  have "\<exists>k. number_dirs dirs h ! a = (h ! a)\<lparr>n_dirIndex := k\<rparr>" if "a < length h" for a
  proof (cases "a \<in> set dirs")
    case True
    then obtain i where "i < length dirs" "a = dirs ! i" by (metis in_set_conv_nth)
    then show ?thesis using spec(1) by blast
  next
    case False
    then show ?thesis using spec(2) by (intro exI [of _ "n_dirIndex (h ! a)"]) simp
  qed
  then show ?thesis
    using spec(3) by (fastforce simp: same_links_def same_order_def same_tree_def same_node_def)
qed

section \<open>Extents\<close>

definition place_all :: "(addr \<Rightarrow> u32) \<Rightarrow> addr list \<Rightarrow> heap \<times> u32 \<Rightarrow> heap \<times> u32" where
  "place_all len xs = fold (\<lambda>x. set_extent x (len x)) xs"

definition sectors_of :: "(addr \<Rightarrow> u32) \<Rightarrow> addr list \<Rightarrow> u32" where
  "sectors_of len xs = sum_list (map (\<lambda>x. sectorsFor (len x)) xs)"

lemma place_all_append: "place_all len (xs @ ys) s = place_all len ys (place_all len xs s)"
  by (simp add: place_all_def)

lemma place_all_spec:
  assumes "distinct xs" "set xs \<subseteq> {..<length h}" "place_all len xs (h, nxt) = (h', nxt')"
  shows "length h' = length h \<and> nxt' = nxt + sectors_of len xs
    \<and> (\<forall>a. a \<notin> set xs \<longrightarrow> h' ! a = h ! a)
    \<and> (\<forall>i < length xs. h' ! (xs ! i)
          = (h ! (xs ! i))\<lparr>n_extentLen := len (xs ! i), n_extentLBA := nxt + sectors_of len (take i xs)\<rparr>)"
  using assms
proof (induction xs arbitrary: h nxt)
  case Nil
  then show ?case by (simp add: place_all_def sectors_of_def)
next
  case (Cons x xs)
  let ?h = "h[x := (h ! x)\<lparr>n_extentLen := len x, n_extentLBA := nxt\<rparr>]"
  have "place_all len xs (?h, nxt + sectorsFor (len x)) = (h', nxt')"
    using Cons.prems(3) by (simp add: place_all_def set_extent_def)
  from Cons.IH [OF _ _ this] Cons.prems(1,2)
  have IH: "length h' = length h" "nxt' = nxt + sectorsFor (len x) + sectors_of len xs"
    "\<And>a. a \<notin> set xs \<Longrightarrow> h' ! a = ?h ! a"
    "\<And>i. i < length xs \<Longrightarrow> h' ! (xs ! i) = (?h ! (xs ! i))\<lparr>n_extentLen := len (xs ! i),
        n_extentLBA := nxt + sectorsFor (len x) + sectors_of len (take i xs)\<rparr>"
    by simp_all
  have "h' ! ((x # xs) ! i) = (h ! ((x # xs) ! i))\<lparr>n_extentLen := len ((x # xs) ! i),
      n_extentLBA := nxt + sectors_of len (take i (x # xs))\<rparr>" if i: "i < length (x # xs)" for i
  proof (cases i)
    case 0
    then show ?thesis using IH(3) [of x] Cons.prems(1,2) by (simp add: sectors_of_def)
  next
    case (Suc j)
    then have j: "j < length xs" using i by simp
    then have "xs ! j \<noteq> x" using Cons.prems(1) by auto
    then show ?thesis using IH(4) [OF j] Suc by (simp add: sectors_of_def add.assoc)
  qed
  then show ?case using IH(1-3) by (simp add: sectors_of_def add.assoc)
qed

lemma place_all_links:
  assumes "same_links h g"
  shows "same_links h (fst (place_all len xs (g, nxt)))"
  using assms
proof (induction xs arbitrary: g nxt)
  case (Cons x xs)
  have "same_links h (g[x := (g ! x)\<lparr>n_extentLen := len x, n_extentLBA := nxt\<rparr>])"
    by (rule same_links_update [OF Cons.prems]) (simp_all add: same_node_def)
  then show ?case using Cons.IH by (simp add: place_all_def set_extent_def)
qed (simp add: place_all_def)

lemma place_all_Cons: "place_all len (x # xs) s = place_all len xs (set_extent x (len x) s)"
  by (simp add: place_all_def)

text \<open>The lengths the layout gives, which do not depend on extents.\<close>

definition planned_len :: "heap \<Rightarrow> addr \<Rightarrow> u32" where
  "planned_len h x = (if n_isDir (h ! x) then directoryExtentSize h x else of_nat (length (n_data (h ! x))))"

lemma set_extent_links:
  "same_links h (fst s) \<Longrightarrow> same_links h (fst (set_extent x len s))"
  by (auto simp: set_extent_def same_node_def intro: same_links_update split: prod.splits)

lemma fold_place_dir:
  assumes "wf_heap h" "same_links h (fst s)" "set dirs \<subseteq> {d. d < length h \<and> n_isDir (h ! d)}"
  shows "fold place_dir dirs s = place_all (planned_len h) dirs s"
  using assms(2,3)
proof (induction dirs arbitrary: s)
  case (Cons d dirs)
  have "place_dir d s = set_extent d (planned_len h d) s"
    using Cons.prems links_extent_size [OF Cons.prems(1) assms(1)] by (simp add: place_dir_def planned_len_def)
  then show ?case
    using Cons.IH [OF set_extent_links [OF Cons.prems(1)]] Cons.prems(2) by (simp add: place_all_Cons)
qed (simp add: place_all_def)

lemma write_each_place_file:
  assumes "same_links h (fst s)" "set fs \<subseteq> {c. c < length h \<and> \<not> n_isDir (h ! c)}"
  shows "write_each place_file fs s = Inr (place_all (planned_len h) fs s)"
  using assms
proof (induction fs arbitrary: s)
  case (Cons c fs)
  have "place_file c s = Inr (set_extent c (planned_len h c) s)"
    using Cons.prems same_links_fields(3) [OF Cons.prems(1)] by (simp add: place_file_def planned_len_def)
  then show ?case
    using Cons.IH [OF set_extent_links [OF Cons.prems(1)]] Cons.prems(2) by (simp add: place_all_Cons)
qed (simp add: place_all_def)

section \<open>The layout\<close>

definition files_of :: "heap \<Rightarrow> addr list" where
  "files_of h = dfs_files (length h) h 0"

definition items_of :: "heap \<Rightarrow> addr list \<Rightarrow> addr list" where
  "items_of h dirs = dirs @ files_of h"

definition table_sectors :: "heap \<Rightarrow> addr list \<Rightarrow> u32" where
  "table_sectors h dirs = sectorsFor (of_nat (pathTableSize h dirs))"

definition laid_out :: "Builder \<Rightarrow> Builder \<Rightarrow> addr list \<Rightarrow> bool" where
  "laid_out b b' dirs \<longleftrightarrow>
     (let h = b_heap b'; items = items_of h dirs in
      b' = b\<lparr>b_heap := h, b_pathTableMLBA := pathTableLLBA + table_sectors h dirs\<rparr>
      \<and> same_tree (b_heap b) h \<and> wf_heap h
      \<and> n_parent (h ! 0) = None \<and> n_id (h ! 0) = [] \<and> (\<forall>x. reachable h x \<longrightarrow> ids_ok h x)
      \<and> orderedDirs h 0 = Inr dirs
      \<and> (\<forall>i < length dirs. n_dirIndex (h ! (dirs ! i)) = i + 1)
      \<and> (\<forall>i < length items.
            n_extentLen (h ! (items ! i)) = planned_len h (items ! i)
            \<and> n_extentLBA (h ! (items ! i))
                = pathTableLLBA + table_sectors h dirs + table_sectors h dirs
                  + sectors_of (planned_len h) (take i items)))"

lemma files_of_facts:
  assumes "wf_heap h"
  shows "set (files_of h) = {x. reachable h x \<and> \<not> n_isDir (h ! x)}" "distinct (files_of h)"
  using assms dfs_files_set [OF assms, of 0 "length h"] dfs_files_distinct [OF assms, of 0 "length h"]
  by (simp_all add: files_of_def reachable_def wf_heap_def)

lemma items_distinct:
  assumes "wf_heap h" "orderedDirs h 0 = Inr dirs"
  shows "distinct (items_of h dirs)" "set (items_of h dirs) = {x. reachable h x}"
    "set dirs \<subseteq> {d. d < length h \<and> n_isDir (h ! d)}"
proof -
  have d: "distinct dirs" "set dirs = {d. reachable h d \<and> n_isDir (h ! d)}"
    using orderedDirs_ok [OF assms(1)] assms(2) by auto
  show "distinct (items_of h dirs)" "set (items_of h dirs) = {x. reachable h x}"
    using d files_of_facts [OF assms(1)] by (auto simp: items_of_def)
  show "set dirs \<subseteq> {d. d < length h \<and> n_isDir (h ! d)}"
    using d(2) reachable_bound [OF assms(1)] by auto
qed

lemma place_file_keeps: "keeps_order h fst place_file"
proof -
  have "same_order h (fst (set_extent c len s))" if "same_order h (fst s)" for c len s
    using that by (auto simp: set_extent_def same_node_def intro: same_order_update split: prod.splits)
  then show ?thesis by (auto simp: keeps_order_def place_file_def)
qed

lemma links_planned:
  assumes "same_links h g" "wf_heap h" "x < length h"
  shows "planned_len g x = planned_len h x"
  using same_links_fields(2,3) [OF assms(1,3)] links_extent_size [OF assms] by (simp add: planned_len_def)

lemma links_sectors:
  assumes "same_links h g" "wf_heap h" "set xs \<subseteq> {..<length h}"
  shows "sectors_of (planned_len g) xs = sectors_of (planned_len h) xs"
proof -
  have "map (\<lambda>x. sectorsFor (planned_len g x)) xs = map (\<lambda>x. sectorsFor (planned_len h x)) xs"
    using assms(3) links_planned [OF assms(1,2)] by (intro map_cong refl) auto
  then show ?thesis unfolding sectors_of_def by (rule arg_cong)
qed

text \<open>The tail of \<^verbatim>\<open>layout\<close>, once the directories are numbered.\<close>

lemma place_extents_result:
  assumes wf: "wf_heap h" and ord: "orderedDirs h 0 = Inr dirs"
  shows "\<exists>g nxt. visit_files fst place_file (length h) 0 (fold place_dir dirs (h, start)) = Inr (g, nxt)
    \<and> same_links h g
    \<and> (\<forall>a. a \<notin> set (items_of h dirs) \<longrightarrow> g ! a = h ! a)
    \<and> (\<forall>i < length (items_of h dirs). g ! (items_of h dirs ! i)
         = (h ! (items_of h dirs ! i))\<lparr>n_extentLen := planned_len h (items_of h dirs ! i),
             n_extentLBA := start + sectors_of (planned_len h) (take i (items_of h dirs))\<rparr>)"
proof -
  let ?items = "items_of h dirs" and ?len = "planned_len h"
  note it = items_distinct [OF wf ord]
  have bound: "set ?items \<subseteq> {..<length h}" using it(2) reachable_bound [OF wf] by auto
  have files: "set (files_of h) \<subseteq> {c. c < length h \<and> \<not> n_isDir (h ! c)}"
    using files_of_facts(1) [OF wf] reachable_bound [OF wf] by auto
  let ?s3 = "place_all ?len dirs (h, start)"
  have s3: "fold place_dir dirs (h, start) = ?s3" by (rule fold_place_dir [OF wf _ it(3)]) simp
  have l3: "same_links h (fst ?s3)" by (rule place_all_links) simp
  obtain g nxt where g: "place_all ?len ?items (h, start) = (g, nxt)" by fastforce
  have "visit_files fst place_file (length h) 0 ?s3 = write_each place_file (files_of h) ?s3"
    unfolding files_of_def
    by (rule visit_loop(1) [OF wf place_file_keeps same_links_tree(2) [OF l3]]) (use wf in \<open>auto simp: wf_heap_def\<close>)
  also have "\<dots> = Inr (place_all ?len (files_of h) ?s3)" by (rule write_each_place_file [OF l3 files])
  finally have "visit_files fst place_file (length h) 0 (fold place_dir dirs (h, start)) = Inr (g, nxt)"
    using g by (simp add: s3 items_of_def place_all_append)
  moreover have "same_links h g" using place_all_links [of h h ?len ?items start] g by simp
  ultimately show ?thesis using place_all_spec [OF it(1) bound g] by blast
qed

lemma number_and_place:
  assumes wf1: "wf_heap h1" and d: "orderedDirs h1 0 = Inr dirs" "distinct dirs"
    and h2: "h2 = number_dirs dirs h1"
    and start: "start = pathTableLLBA + table_sectors h2 dirs + table_sectors h2 dirs"
  obtains g nxt
  where "visit_files fst place_file (length h2) 0 (fold place_dir dirs (h2, start)) = Inr (g, nxt)"
    "same_links h1 g" "orderedDirs g 0 = Inr dirs" "table_sectors g dirs = table_sectors h2 dirs"
    "\<And>i. i < length dirs \<Longrightarrow> n_dirIndex (g ! (dirs ! i)) = i + 1"
    "\<And>i. i < length (items_of g dirs) \<Longrightarrow>
       n_extentLen (g ! (items_of g dirs ! i)) = planned_len g (items_of g dirs ! i)
       \<and> n_extentLBA (g ! (items_of g dirs ! i)) = start + sectors_of (planned_len g) (take i (items_of g dirs))"
proof -
  have bound: "set dirs \<subseteq> {..<length h1}" using items_distinct(3) [OF wf1 d(1)] by auto
  have l2: "same_links h1 h2" unfolding h2 by (rule number_dirs_links [OF d(2) bound])
  have wf2: "wf_heap h2" by (rule same_tree_wf [OF same_links_tree(1) [OF l2] wf1])
  have d2: "orderedDirs h2 0 = Inr dirs" using links_orderedDirs [OF l2 wf1] d(1) by simp
  obtain g nxt where g: "visit_files fst place_file (length h2) 0 (fold place_dir dirs (h2, start)) = Inr (g, nxt)"
      "same_links h2 g"
      "\<And>i. i < length (items_of h2 dirs) \<Longrightarrow> g ! (items_of h2 dirs ! i)
         = (h2 ! (items_of h2 dirs ! i))\<lparr>n_extentLen := planned_len h2 (items_of h2 dirs ! i),
             n_extentLBA := start + sectors_of (planned_len h2) (take i (items_of h2 dirs))\<rparr>"
    using place_extents_result [OF wf2 d2, of start] by blast
  let ?items = "items_of h2 dirs"
  have len: "length g = length h2" "length h2 = length h1" "h1 \<noteq> []"
    using same_links_length g(2) l2 wf1 by (auto simp: wf_heap_def)
  have items: "items_of g dirs = ?items"
    using links_dfs [OF g(2) wf2, of 0 "length g"] len by (simp add: items_of_def files_of_def)
  have ibound: "set ?items \<subseteq> {..<length h2}"
    using items_distinct(2) [OF wf2 d2] reachable_bound [OF wf2] by auto
  show thesis
  proof (rule that [OF g(1)])
    show "same_links h1 g" by (rule same_links_trans [OF l2 g(2)])
    show "orderedDirs g 0 = Inr dirs" using links_orderedDirs [OF g(2) wf2] d2 by simp
    show "table_sectors g dirs = table_sectors h2 dirs"
      using links_path_table [OF g(2)] bound len by (simp add: table_sectors_def)
    show "n_dirIndex (g ! (dirs ! i)) = i + 1" if i: "i < length dirs" for i
      using g(3) [of i] i number_dirs_spec(1) [OF d(2) bound i] by (simp add: items_of_def nth_append h2)
    show "n_extentLen (g ! (items_of g dirs ! i)) = planned_len g (items_of g dirs ! i)
        \<and> n_extentLBA (g ! (items_of g dirs ! i)) = start + sectors_of (planned_len g) (take i (items_of g dirs))"
      if "i < length (items_of g dirs)" for i
    proof -
      have i: "i < length ?items" using that items by simp
      moreover have "?items ! i < length h2" using ibound nth_mem [OF i] by blast
      moreover have "set (take i ?items) \<subseteq> {..<length h2}" by (rule subset_trans [OF set_take_subset ibound])
      ultimately show ?thesis
        using g(3) [OF i] links_planned [OF g(2) wf2] links_sectors [OF g(2) wf2] by (simp add: items)
    qed
  qed
qed

lemma layout_ok:
  assumes wb: "wf_builder b" and few: "few_children (b_heap b)"
  shows "\<exists>b' dirs. layout b = Inr (b', dirs) \<and> laid_out b b' dirs"
proof -
  let ?h0 = "b_heap b"
  have wf0: "wf_heap ?h0" and root: "b_root b = 0" using wb by (simp_all add: wf_builder_def)
  obtain h1 where h1: "assignIdentifiers (length ?h0) ?h0 0 None = Inr h1" "same_tree ?h0 h1"
      "n_parent (h1 ! 0) = None" "n_id (h1 ! 0) = []" "\<And>x. reachable ?h0 x \<Longrightarrow> ids_ok h1 x"
    using assignIdentifiers_ok [OF wf0 few] by blast
  have wf1: "wf_heap h1" by (rule same_tree_wf [OF h1(2) wf0])
  then have pos: "0 < length h1" by (simp add: wf_heap_def)
  obtain dirs where d: "orderedDirs h1 0 = Inr dirs" "distinct dirs" using orderedDirs_ok [OF wf1] by blast
  let ?h2 = "number_dirs dirs h1"
  let ?start = "pathTableLLBA + table_sectors ?h2 dirs + table_sectors ?h2 dirs"
  obtain g nxt where g: "visit_files fst place_file (length ?h2) 0 (fold place_dir dirs (?h2, ?start)) = Inr (g, nxt)"
      "same_links h1 g" "orderedDirs g 0 = Inr dirs" "table_sectors g dirs = table_sectors ?h2 dirs"
      "\<And>i. i < length dirs \<Longrightarrow> n_dirIndex (g ! (dirs ! i)) = i + 1"
      "\<And>i. i < length (items_of g dirs) \<Longrightarrow>
         n_extentLen (g ! (items_of g dirs ! i)) = planned_len g (items_of g dirs ! i)
         \<and> n_extentLBA (g ! (items_of g dirs ! i)) = ?start + sectors_of (planned_len g) (take i (items_of g dirs))"
    using number_and_place [OF wf1 d refl refl] by blast
  let ?b = "b\<lparr>b_heap := g, b_pathTableMLBA := pathTableLLBA + table_sectors ?h2 dirs\<rparr>"
  have run: "layout b = Inr (?b, dirs)"
    using h1(1) d(1) g(1) root by (simp add: layout_def Let_def table_sectors_def add.assoc)
  have st: "same_tree ?h0 g" by (rule same_tree_trans [OF h1(2) same_links_tree(1) [OF g(2)]])
  have wfg: "wf_heap g" by (rule same_tree_wf [OF st wf0])
  have ids: "ids_ok g x" if "reachable g x" for x
  proof -
    have r: "reachable ?h0 x" using that tree_reachable [OF st wf0] by simp
    then have "x < length h1" using reachable_bound [OF wf0] h1(2) by (simp add: same_tree_def)
    then show ?thesis using links_ids_ok [OF g(2) wf1] h1(5) [OF r] by simp
  qed
  have "laid_out b ?b dirs"
    unfolding laid_out_def
    using st wfg ids g(3,5,6) same_links_fields(6,7) [OF g(2) pos] h1(3,4)
    by (simp add: Let_def g(4))
  then show ?thesis using run by blast
qed

end
