(* ===== verification/Master.thy ===== *)
theory Master
  imports Layout
begin

text \<open>
  \<^verbatim>\<open>create.go\<close>, the bytes of an image: time stamps, directory records and extents, path
  tables, volume descriptors, and \<^verbatim>\<open>WriteTo\<close>, which writes them through an \<^verbatim>\<open>io.WriterAt\<close>.
  A field that the source stores into a part of a buffer is a \<open>splice\<close> of the buffer.
\<close>

section \<open>Time stamps\<close>

definition dirRecordTime :: "gotime \<Rightarrow> byte list" where
  "dirRecordTime t =
     [word_of_int (int (t_Year t) - 1900), byte_of_nat (t_Month t), byte_of_nat (t_Day t),
      byte_of_nat (t_Hour t), byte_of_nat (t_Minute t), byte_of_nat (t_Second t), 0]"

definition volumeTime :: "gotime \<Rightarrow> byte list" where
  "volumeTime t =
     (let s = decimal_pad 4 (t_Year t) @ decimal_pad 2 (t_Month t) @ decimal_pad 2 (t_Day t)
              @ decimal_pad 2 (t_Hour t) @ decimal_pad 2 (t_Minute t) @ decimal_pad 2 (t_Second t)
              @ decimal_pad 2 (t_Nanosecond t div 10000000);
          out = splice (replicate 17 0) 0 s
      in out[16 := 0])"

definition volumeTimeUnset :: "byte list" where
  "volumeTimeUnset = splice (replicate 17 0) 0 (replicate 16 (byte_of_nat 48))"

section \<open>Directory records and extents\<close>

definition dirRecord_bytes :: "gotime \<Rightarrow> byte list \<Rightarrow> u32 \<Rightarrow> u32 \<Rightarrow> bool \<Rightarrow> byte list" where
  "dirRecord_bytes created ident lba sz dirFlag =
     (let rl = dirRecordLen (length ident);
          r0 = replicate rl 0;
          r1 = r0[0 := byte_of_nat rl, 1 := 0];
          r2 = splice r1 2 (putBoth32 lba);
          r3 = splice r2 10 (putBoth32 sz);
          r4 = splice r3 18 (dirRecordTime created);
          r5 = (if dirFlag then r4[25 := flagDirectory] else r4);
          r6 = splice r5 28 (putBoth16 1);
          r7 = r6[32 := byte_of_nat (length ident)]
      in splice r7 33 ident)"

definition emit :: "byte list \<Rightarrow> byte list \<times> nat \<Rightarrow> (byte list \<times> nat) res" where
  "emit rec s =
     (case s of (buf, pos) \<Rightarrow>
        let pos' = place_record pos (length rec) in
        if pos' \<le> length buf then Inr (splice buf pos' rec, pos' + length rec)
        else Inl (Panic ''slice bounds out of range''))"

fun emit_all :: "byte list list \<Rightarrow> byte list \<times> nat \<Rightarrow> (byte list \<times> nat) res" where
  "emit_all [] s = Inr s"
| "emit_all (r # rs) s = res_bind (emit r s) (emit_all rs)"

definition directoryExtent :: "Builder \<Rightarrow> addr \<Rightarrow> byte list res" where
  "directoryExtent b d =
     (let h = b_heap b; buf = replicate (unat (n_extentLen (h ! d))) 0;
          parent = (case n_parent (h ! d) of None \<Rightarrow> d | Some p \<Rightarrow> p);
          recs = dirRecord_bytes (b_created b) [0x00] (n_extentLBA (h ! d)) (n_extentLen (h ! d)) True
               # dirRecord_bytes (b_created b) [0x01] (n_extentLBA (h ! parent)) (n_extentLen (h ! parent)) True
               # map (\<lambda>c. dirRecord_bytes (b_created b) (n_id (h ! c)) (n_extentLBA (h ! c))
                            (n_extentLen (h ! c)) (n_isDir (h ! c))) (sortedChildren h d)
      in res_bind (emit_all recs (buf, 0)) (\<lambda>(buf', _). Inr buf'))"

section \<open>Path tables\<close>

definition path_entry :: "heap \<Rightarrow> bool \<Rightarrow> addr \<Rightarrow> byte list" where
  "path_entry h msb d =
     (let ident = pathTableIdent h d;
          parentIndex = (case n_parent (h ! d) of
              None \<Rightarrow> n_dirIndex (h ! d) | Some p \<Rightarrow> n_dirIndex (h ! p));
          e0 = replicate (pathTableEntryLen (length ident)) 0;
          e1 = e0[0 := byte_of_nat (length ident), 1 := 0];
          e2 = (if msb then splice (splice e1 2 (putBE32 (n_extentLBA (h ! d)))) 6 (putBE16 (of_nat parentIndex))
                else splice (splice e1 2 (putLE32 (n_extentLBA (h ! d)))) 6 (putLE16 (of_nat parentIndex)))
      in splice e2 8 ident)"

definition pad_sector :: "byte list \<Rightarrow> byte list" where
  "pad_sector data =
     (let r = length data mod sectorSize in
      if r \<noteq> 0 then data @ replicate (sectorSize - r) 0 else data)"

definition pathTable :: "Builder \<Rightarrow> addr list \<Rightarrow> bool \<Rightarrow> byte list" where
  "pathTable b dirs msb = pad_sector (concat (map (path_entry (b_heap b) msb) dirs))"

section \<open>Volume descriptors\<close>

definition blanks :: "nat \<Rightarrow> byte list" where
  "blanks n = replicate n 0x20"

definition copyField :: "nat \<Rightarrow> gostring \<Rightarrow> byte list" where
  "copyField n s = splice (blanks n) 0 s"

definition primaryVolumeDescriptor :: "Builder \<Rightarrow> addr list \<Rightarrow> byte list res" where
  "primaryVolumeDescriptor b dirs =
     res_bind (totalSectors b dirs) (\<lambda>tot.
     let h = b_heap b; root = h ! b_root b; ts = volumeTime (b_created b);
         p0 = (replicate sectorSize 0)[0 := vdTypePrimary];
         p1 = (splice p0 1 standardID)[6 := 1];
         p2 = splice (splice p1 8 (blanks 32)) 40 (copyField 32 (volumeIdent (b_volumeID b)));
         p3 = splice (splice (splice (splice p2 80 (putBoth32 tot)) 120 (putBoth16 1)) 124 (putBoth16 1))
                128 (putBoth16 (of_nat sectorSize));
         p4 = splice (splice (splice p3 132 (putBoth32 (of_nat (pathTableSize h dirs)))) 140 (putLE32 pathTableLLBA))
                148 (putBE32 (b_pathTableMLBA b));
         p5 = splice p4 156 (take 34 (dirRecord_bytes (b_created b) [0x00] (n_extentLBA root) (n_extentLen root) True));
         p6 = splice (splice (splice (splice p5 190 (blanks 128)) 318 (blanks 128)) 446 (blanks 128)) 574 (blanks 128);
         p7 = splice (splice (splice p6 702 (blanks 37)) 739 (blanks 37)) 776 (blanks 37);
         p8 = splice (splice (splice (splice p7 813 ts) 830 ts) 847 volumeTimeUnset) 864 volumeTimeUnset
     in Inr (p8[881 := 1]))"

definition volumeDescriptorTerminator :: "byte list" where
  "volumeDescriptorTerminator =
     (splice ((replicate sectorSize 0)[0 := vdTypeTerminator]) 1 standardID)[6 := 1]"

section \<open>Writing\<close>

text \<open>
  \<^verbatim>\<open>io.WriterAt\<close>: the caller supplies it.  \<open>wa w data off\<close> is the writer after
  \<^verbatim>\<open>w.WriteAt(data, off)\<close>, with the count and the error it returns.
\<close>

type_synonym 'w writer_fun = "'w \<Rightarrow> byte list \<Rightarrow> int \<Rightarrow> 'w \<times> nat \<times> goerror option"

definition writeAt :: "'w writer_fun \<Rightarrow> int \<Rightarrow> byte list \<Rightarrow> 'w \<Rightarrow> 'w res" where
  "writeAt wa off data w =
     (case wa w (pad_sector data) off of
        (_, _, Some e) \<Rightarrow> Inl (Wrap ''iso9660: write @offset %d: %w'' [e])
      | (w', _, None) \<Rightarrow> Inr w')"

definition writeSector :: "'w writer_fun \<Rightarrow> nat \<Rightarrow> byte list \<Rightarrow> 'w \<Rightarrow> 'w res" where
  "writeSector wa s data = writeAt wa (int s * int sectorSize) (splice (replicate sectorSize 0) 0 data)"

definition at_lba :: "u32 \<Rightarrow> int" where
  "at_lba lba = int (unat lba) * int sectorSize"

definition write_dir :: "'w writer_fun \<Rightarrow> Builder \<Rightarrow> addr \<Rightarrow> 'w \<Rightarrow> 'w res" where
  "write_dir wa b d w =
     res_bind (directoryExtent b d) (\<lambda>data. writeAt wa (at_lba (n_extentLBA (b_heap b ! d))) data w)"

definition write_file :: "'w writer_fun \<Rightarrow> Builder \<Rightarrow> addr \<Rightarrow> 'w \<Rightarrow> 'w res" where
  "write_file wa b c w =
     (if length (n_data (b_heap b ! c)) = 0 then Inr w
      else writeAt wa (at_lba (n_extentLBA (b_heap b ! c))) (n_data (b_heap b ! c)) w)"

text \<open>
  \<^verbatim>\<open>WriteTo\<close> after the layout.  On an error the result is the error; what was written before
  it stays with the writer and is not part of the result.
\<close>

definition write_image :: "'w writer_fun \<Rightarrow> Builder \<Rightarrow> addr list \<Rightarrow> 'w \<Rightarrow> 'w res" where
  "write_image wa b dirs w0 =
     res_bind (write_each (\<lambda>s. writeSector wa s []) [0..<systemAreaSectors] w0) (\<lambda>w1.
     res_bind (primaryVolumeDescriptor b dirs) (\<lambda>pvd.
     res_bind (writeSector wa 16 pvd w1) (\<lambda>w2.
     res_bind (writeSector wa 17 volumeDescriptorTerminator w2) (\<lambda>w3.
     res_bind (writeAt wa (at_lba pathTableLLBA) (pathTable b dirs False) w3) (\<lambda>w4.
     res_bind (writeAt wa (at_lba (b_pathTableMLBA b)) (pathTable b dirs True) w4) (\<lambda>w5.
     res_bind (write_each (write_dir wa b) dirs w5) (\<lambda>w6.
       visit_files (\<lambda>_. b_heap b) (write_file wa b) (length (b_heap b)) (b_root b) w6)))))))"

text \<open>The builder after the call, and the writer or the error.\<close>

definition WriteTo :: "'w writer_fun \<Rightarrow> Builder \<Rightarrow> 'w \<Rightarrow> Builder \<times> 'w res" where
  "WriteTo wa b w =
     (case layout b of
        Inl e \<Rightarrow> (b, Inl e)
      | Inr (b', dirs) \<Rightarrow> (b', write_image wa b' dirs w))"

end
