(* ===== verification/ReadImage.thy ===== *)
theory ReadImage
  imports VolumeDesc
begin

text \<open>
  \<^verbatim>\<open>read.go\<close>: reading the bytes of directory and file extents under a bound on what an
  on-disk length may make the reader allocate, parsing a directory extent into records, and
  merging the records of a multi-extent file.

  A Go slice that grows is a pair of its elements and its capacity.  How far the run-time
  rounds a capacity up is not specified by the language; it is the function \<open>gc\<close>, given
  the old capacity and the length needed, and no result depends on it
  (\<open>append_loop_data\<close>, \<open>readFile_data\<close>).
\<close>

section \<open>Bounds\<close>

definition maxUnknownAlloc :: int where "maxUnknownAlloc = 2 ^ 30"
definition maxDirExtent :: u32 where "maxDirExtent = 0x1000000"
definition growChunk :: nat where "growChunk = 2 ^ 20"
definition maxInt :: int where "maxInt = 2 ^ 63 - 1"

definition allocCeiling :: "int \<Rightarrow> int" where
  "allocCeiling imgSize = (if imgSize \<ge> 0 then imgSize else maxUnknownAlloc)"

text \<open>\<^verbatim>\<open>checkSize\<close> and \<^verbatim>\<open>checkExtent\<close> return an error or nil.\<close>

definition checkSize :: "int \<Rightarrow> int \<Rightarrow> goerror option" where
  "checkSize n maxAlloc =
     (if n < 0 \<or> maxAlloc < 0 \<or> n > maxAlloc \<or> n > maxInt
      then Some (Wrap ''%w: size %d exceeds ceiling %d'' [Sentinel SafeioTooLarge])
      else None)"

definition sizeUnknown :: "int \<Rightarrow> bool" where
  "sizeUnknown maxAlloc \<longleftrightarrow> maxAlloc = maxUnknownAlloc"

definition checkExtent :: "int \<Rightarrow> int \<Rightarrow> int \<Rightarrow> goerror option" where
  "checkExtent off n maxAlloc =
     (if sizeUnknown maxAlloc then None
      else if off < 0 \<or> n < 0 \<or> off > maxAlloc - n
      then Some (Wrap ''%w: extent [%d,+%d) outside the %d-byte image'' [Sentinel SafeioOutOfBounds])
      else None)"

text \<open>
  The fallback ceiling is also a size an image can have: one of exactly 1 GiB is treated like an
  image of unknown size, and none of its extents is compared with its size.
\<close>

lemma fallback_size_unchecked:
  "allocCeiling (2 ^ 30) = allocCeiling (- 1)" "checkExtent off n (allocCeiling (2 ^ 30)) = None"
  by (simp_all add: allocCeiling_def maxUnknownAlloc_def checkExtent_def sizeUnknown_def)

section \<open>Reading an extent\<close>

type_synonym gslice = "byte list \<times> nat"

text \<open>\<^verbatim>\<open>slices.Grow\<close>: the capacity after making room for \<open>n\<close> more elements.\<close>

definition grown_cap :: "(nat \<Rightarrow> nat \<Rightarrow> nat) \<Rightarrow> gslice \<Rightarrow> nat \<Rightarrow> nat" where
  "grown_cap gc s n =
     (if snd s - length (fst s) < n
      then max (length (fst s) + n) (gc (snd s) (length (fst s) + n)) else snd s)"

text \<open>The size of the next read: everything, or a chunk when the buffer must grow with the data.\<close>

definition read_step :: "bool \<Rightarrow> gslice \<Rightarrow> nat \<Rightarrow> nat" where
  "read_step grow s rest =
     (if grow \<and> snd s - length (fst s) < rest
      then min rest (max growChunk (length (fst s))) else rest)"

lemma read_step_bounds:
  "0 < rest \<Longrightarrow> 0 < read_step grow s rest \<and> read_step grow s rest \<le> rest"
  by (simp add: read_step_def growChunk_def less_max_iff_disj)

text \<open>
  \<^verbatim>\<open>s[:n]\<close> of a slice that may also reach past the length into the capacity, where a slice made
  by \<^verbatim>\<open>slices.Grow\<close> or \<^verbatim>\<open>make\<close> holds zeros.
\<close>

definition reslice :: "gslice \<Rightarrow> int \<Rightarrow> gslice res" where
  "reslice s n =
     (if 0 \<le> n \<and> n \<le> int (snd s)
      then Inr (take (nat n) (fst s @ replicate (snd s - length (fst s)) 0), snd s)
      else Inl (Panic ''slice bounds out of range''))"

text \<open>
  The count \<^verbatim>\<open>m\<close> the reader returns is used as it is: with an error, a count outside the buffer
  can make the slice expression panic.
\<close>

function append_loop ::
  "(nat \<Rightarrow> nat \<Rightarrow> nat) \<Rightarrow> reader \<Rightarrow> bool \<Rightarrow> int \<Rightarrow> nat \<Rightarrow> nat \<Rightarrow> gslice
   \<Rightarrow> (gslice \<times> int \<times> goerror option) res"
where
  "append_loop gc rs grow off n dn dst =
     (if dn < n then
        let step = read_step grow dst (n - dn);
            cap' = grown_cap gc dst step;
            (seg, m, err) = read_into rs (replicate step 0) (off + int dn)
        in if err \<noteq> None \<and> \<not> (err = Some (Sentinel EOF) \<and> m = int step)
           then res_bind (reslice (fst dst @ seg, cap') (int (length (fst dst)) + m)) (\<lambda>s.
                  Inr (s, int dn + m, err))
           else append_loop gc rs grow off n (dn + step) (fst dst @ seg, cap')
      else Inr (dst, int dn, None))"
  by pat_completeness auto
termination
  by (relation "measure (\<lambda>(gc, rs, grow, off, n, dn, dst). n - dn)")
    (use read_step_bounds in \<open>auto simp: diff_less_mono2\<close>)

declare append_loop.simps [simp del]

definition appendAt ::
  "(nat \<Rightarrow> nat \<Rightarrow> nat) \<Rightarrow> reader \<Rightarrow> gslice \<Rightarrow> int \<Rightarrow> nat \<Rightarrow> int \<Rightarrow> (gslice \<times> int \<times> goerror option) res"
where
  "appendAt gc rs dst off n maxAlloc = append_loop gc rs (sizeUnknown maxAlloc) off n 0 dst"

section \<open>Multi-extent files\<close>

text \<open>
  The inner loop: records with the identifier of the first one are gathered until one
  without the multi-extent flag ends the run.  The third component is the flags of the merged
  record and the records after the run, or \<open>None\<close> when the run has no final extent.
\<close>

fun gather :: "byte list \<Rightarrow> dirRecord list \<Rightarrow> extent list \<Rightarrow> u64
    \<Rightarrow> extent list \<times> u64 \<times> (byte \<times> dirRecord list) option" where
  "gather name [] exts tot = (exts, tot, None)"
| "gather name (nxt # rest) exts tot =
     (if dr_rawName nxt \<noteq> name then (exts, tot, None)
      else
        let exts' = exts @ [\<lparr>ext_lba = dr_ExtentLBA nxt, ext_size = dr_Size nxt\<rparr>];
            tot' = tot + ucast (dr_Size nxt) in
        if \<not> multiExt nxt
        then (exts', tot', Some (and (dr_Flags nxt) (not flagMultiExt), rest))
        else gather name rest exts' tot')"

lemma gather_shorter: "gather name rs exts tot = (e, t, Some (f, rest)) \<Longrightarrow> length rest < length rs"
  by (induction name rs exts tot rule: gather.induct)
    (auto simp: Let_def less_Suc_eq split: if_splits)

function mergeMultiExtent :: "dirRecord list \<Rightarrow> dirRecord list res" where
  "mergeMultiExtent [] = Inr []"
| "mergeMultiExtent (rec # rest) =
     (if isDir rec \<or> \<not> multiExt rec
      then res_bind (mergeMultiExtent rest) (\<lambda>out. Inr (rec # out))
      else
        (case gather (dr_rawName rec) rest
                [\<lparr>ext_lba = dr_ExtentLBA rec, ext_size = dr_Size rec\<rparr>] (ucast (dr_Size rec)) of
           (exts, tot, None) \<Rightarrow>
             Inl (Wrap ''%w: multi-extent file %q has no final extent'' [Sentinel ErrCorrupt])
         | (exts, tot, Some (flags, rest')) \<Rightarrow>
             if tot > 0xFFFFFFFF
             then Inl (Wrap ''%w: multi-extent file %q exceeds 4 GiB'' [Sentinel ErrCorrupt])
             else res_bind (mergeMultiExtent rest') (\<lambda>out.
               Inr (rec\<lparr>dr_extents := Some exts, dr_Flags := flags, dr_Size := ucast tot\<rparr> # out))))"
  by pat_completeness auto
termination
  by (relation "measure length") (auto dest: gather_shorter [OF sym] less_SucI)

section \<open>Multi-extent files: specification\<close>

text \<open>
  The records of a directory as the comment of \<^verbatim>\<open>mergeMultiExtent\<close> has them: entries of one
  record (a directory, or a file without the multi-extent flag), and files of several records
  with the same identifier, the flag on all but the last.  The size of a merged entry is again a
  32-bit number, so the extents of a file may have at most 4 GiB - 1 bytes together.
\<close>

datatype run = Single dirRecord | Run dirRecord "dirRecord list" dirRecord

definition rec_extent :: "dirRecord \<Rightarrow> extent" where
  "rec_extent r = \<lparr>ext_lba = dr_ExtentLBA r, ext_size = dr_Size r\<rparr>"

fun run_records :: "run \<Rightarrow> dirRecord list" where
  "run_records (Single r) = [r]"
| "run_records (Run r ms l) = r # ms @ [l]"

definition run_size :: "dirRecord list \<Rightarrow> nat" where
  "run_size rs = sum_list (map (\<lambda>r. unat (dr_Size r)) rs)"

fun run_ok :: "run \<Rightarrow> bool" where
  "run_ok (Single r) = (isDir r \<or> \<not> multiExt r)"
| "run_ok (Run r ms l) =
     (\<not> isDir r \<and> multiExt r
      \<and> (\<forall>m \<in> set ms. dr_rawName m = dr_rawName r \<and> multiExt m)
      \<and> dr_rawName l = dr_rawName r \<and> \<not> multiExt l
      \<and> run_size (r # ms @ [l]) \<le> 0xFFFFFFFF)"

fun run_entry :: "run \<Rightarrow> dirRecord" where
  "run_entry (Single r) = r"
| "run_entry (Run r ms l) =
     r\<lparr>dr_extents := Some (map rec_extent (r # ms @ [l])),
       dr_Flags := and (dr_Flags l) (not flagMultiExt),
       dr_Size := of_nat (run_size (r # ms @ [l]))\<rparr>"

definition size_sum :: "dirRecord list \<Rightarrow> u64" where
  "size_sum rs = sum_list (map (\<lambda>r. ucast (dr_Size r)) rs)"

lemma run_size_bound: "run_size rs \<le> length rs * 0xFFFFFFFF"
proof (induction rs)
  case (Cons r rs)
  then show ?case using u32_bound [of "dr_Size r"] by (simp add: run_size_def)
qed (simp add: run_size_def)

lemma size_sum_of_nat: "size_sum rs = of_nat (run_size rs)"
  by (induction rs) (simp_all add: size_sum_def run_size_def)

lemma unat_size_sum:
  assumes "length rs < 2 ^ 32"
  shows "unat (size_sum rs) = run_size rs"
proof -
  have "run_size rs \<le> length rs * 0xFFFFFFFF" by (rule run_size_bound)
  also have "\<dots> < 2 ^ 64" using assms by simp
  finally show ?thesis by (simp add: size_sum_of_nat unat_of_nat)
qed

lemma ex_split_Cons:
  "(\<exists>ms l. r # rs = ms @ l # rest \<and> P ms l)
   \<longleftrightarrow> (rest = rs \<and> P [] r) \<or> (\<exists>ms l. rs = ms @ l # rest \<and> P (r # ms) l)"
  (is "?A \<longleftrightarrow> ?B")
proof
  assume ?A
  then obtain ms l where "r # rs = ms @ l # rest" "P ms l" by blast
  then show ?B by (cases ms) auto
next
  assume ?B
  then show ?A by (metis append_Cons append_Nil)
qed

lemma gather_iff:
  "gather name rs exts tot = (e, t, Some (f, rest)) \<longleftrightarrow>
   (\<exists>ms l. rs = ms @ l # rest \<and> (\<forall>m \<in> set ms. dr_rawName m = name \<and> multiExt m)
      \<and> dr_rawName l = name \<and> \<not> multiExt l \<and> e = exts @ map rec_extent (ms @ [l])
      \<and> t = tot + size_sum (ms @ [l]) \<and> f = and (dr_Flags l) (not flagMultiExt))"
  (is "?L rs exts tot \<longleftrightarrow> (\<exists>ms l. rs = ms @ l # rest \<and> ?P exts tot ms l)")
proof (induction rs arbitrary: exts tot)
  case (Cons r rs)
  let ?x = "exts @ [rec_extent r]" and ?t = "tot + ucast (dr_Size r)"
  have "?L (r # rs) exts tot \<longleftrightarrow> (rest = rs \<and> ?P exts tot [] r) \<or>
      (dr_rawName r = name \<and> multiExt r \<and> ?L rs ?x ?t)"
    by (auto simp: rec_extent_def size_sum_def Let_def)
  also have "\<dots> \<longleftrightarrow> (rest = rs \<and> ?P exts tot [] r) \<or>
      (\<exists>ms l. rs = ms @ l # rest \<and> ?P exts tot (r # ms) l)"
    unfolding Cons.IH by (auto simp: size_sum_def add.assoc)
  also have "\<dots> \<longleftrightarrow> (\<exists>ms l. r # rs = ms @ l # rest \<and> ?P exts tot ms l)"
    by (rule ex_split_Cons [symmetric])
  finally show ?case .
qed simp

text \<open>The loop implements the specification: it merges exactly the well-formed directories.\<close>

lemma merge_runs:
  assumes "\<And>x. x \<in> set runs \<Longrightarrow> run_ok x" and "length (concat (map run_records runs)) < 2 ^ 32"
  shows "mergeMultiExtent (concat (map run_records runs)) = Inr (map run_entry runs)"
  using assms
proof (induction runs)
  case (Cons x runs)
  then have IH: "mergeMultiExtent (concat (map run_records runs)) = Inr (map run_entry runs)"
    by simp
  show ?case
  proof (cases x)
    case (Single r)
    then show ?thesis using Cons.prems(1) [of x] IH by auto
  next
    case (Run r ms l)
    let ?rest = "concat (map run_records runs)" and ?rs = "r # ms @ [l]"
    have ok: "run_ok (Run r ms l)" using Cons.prems(1) [of x] Run by simp
    have len: "length ?rs < 2 ^ 32" using Cons.prems(2) Run by simp
    have g: "gather (dr_rawName r) (ms @ l # ?rest)
        [\<lparr>ext_lba = dr_ExtentLBA r, ext_size = dr_Size r\<rparr>] (ucast (dr_Size r))
      = (map rec_extent ?rs, size_sum ?rs, Some (and (dr_Flags l) (not flagMultiExt), ?rest))"
      unfolding gather_iff
      using ok by (intro exI [of _ ms] exI [of _ l]) (simp add: rec_extent_def size_sum_def)
    have tot: "unat (size_sum ?rs) = run_size ?rs" by (rule unat_size_sum [OF len])
    then have "\<not> size_sum ?rs > 0xFFFFFFFF"
      using ok by (simp add: word_less_nat_alt)
    moreover have "(ucast (size_sum ?rs) :: u32) = of_nat (run_size ?rs)"
      by (simp flip: tot)
    moreover have "\<not> (isDir r \<or> \<not> multiExt r)" using ok by simp
    ultimately show ?thesis using Run g IH by simp
  qed
qed simp

text \<open>What a completed run that was accepted is: a well-formed run and its entry.\<close>

lemma gathered_run:
  assumes g: "gather (dr_rawName r) rest [\<lparr>ext_lba = dr_ExtentLBA r, ext_size = dr_Size r\<rparr>]
      (ucast (dr_Size r)) = (e, t, Some (f, rest'))"
    and r: "\<not> (isDir r \<or> \<not> multiExt r)" and t: "\<not> t > 0xFFFFFFFF" and len: "length (r # rest) < 2 ^ 32"
  obtains ms l where "rest = ms @ l # rest'" "run_ok (Run r ms l)"
    and "run_entry (Run r ms l) = r\<lparr>dr_extents := Some e, dr_Flags := f, dr_Size := ucast t\<rparr>"
proof -
  from g [unfolded gather_iff] obtain ms l where
      ml: "rest = ms @ l # rest'" "\<forall>m \<in> set ms. dr_rawName m = dr_rawName r \<and> multiExt m"
      "dr_rawName l = dr_rawName r" "\<not> multiExt l" "e = map rec_extent (r # ms @ [l])"
      "t = size_sum (r # ms @ [l])" "f = and (dr_Flags l) (not flagMultiExt)"
    by (auto simp: rec_extent_def size_sum_def)
  have tot: "unat t = run_size (r # ms @ [l])"
    using ml(1,6) len by (auto intro!: unat_size_sum)
  then have "run_size (r # ms @ [l]) \<le> 0xFFFFFFFF"
    using t by (simp add: word_less_nat_alt not_less)
  then have "run_ok (Run r ms l)" using r ml by simp
  moreover have "run_entry (Run r ms l) = r\<lparr>dr_extents := Some e, dr_Flags := f, dr_Size := ucast t\<rparr>"
    using ml by (simp flip: tot)
  ultimately show ?thesis using that ml(1) by blast
qed

lemma merge_runs_exist:
  assumes "mergeMultiExtent rs = Inr out" and "length rs < 2 ^ 32"
  shows "\<exists>runs. (\<forall>x \<in> set runs. run_ok x) \<and> concat (map run_records runs) = rs
           \<and> map run_entry runs = out"
  using assms
proof (induction rs arbitrary: out rule: mergeMultiExtent.induct)
  case 1
  then show ?case by (intro exI [of _ "[]"]) simp
next
  case (2 r rest)
  show ?case
  proof (cases "isDir r \<or> \<not> multiExt r")
    case True
    then obtain out' where o: "mergeMultiExtent rest = Inr out'" "out = r # out'"
      using "2.prems"(1) by (auto simp: res_inv)
    obtain runs where "\<forall>x \<in> set runs. run_ok x" "concat (map run_records runs) = rest"
        "map run_entry runs = out'"
      using "2.IH"(1) [OF True o(1)] "2.prems"(2) by auto
    then show ?thesis using True o(2) by (intro exI [of _ "Single r # runs"]) simp
  next
    case False
    obtain e t p where g: "gather (dr_rawName r) rest
        [\<lparr>ext_lba = dr_ExtentLBA r, ext_size = dr_Size r\<rparr>] (ucast (dr_Size r)) = (e, t, p)"
      by (cases "gather (dr_rawName r) rest
        [\<lparr>ext_lba = dr_ExtentLBA r, ext_size = dr_Size r\<rparr>] (ucast (dr_Size r))") auto
    with False "2.prems"(1) obtain f rest' where p: "p = Some (f, rest')"
      by (cases p) auto
    with False "2.prems"(1) g obtain out' where t: "\<not> t > 0xFFFFFFFF"
        and o: "mergeMultiExtent rest' = Inr out'"
        and out: "out = r\<lparr>dr_extents := Some e, dr_Flags := f, dr_Size := ucast t\<rparr> # out'"
      by (auto simp: res_inv split: if_splits)
    obtain ms l where run: "rest = ms @ l # rest'" "run_ok (Run r ms l)"
        "run_entry (Run r ms l) = r\<lparr>dr_extents := Some e, dr_Flags := f, dr_Size := ucast t\<rparr>"
      by (rule gathered_run [OF g [unfolded p] False t "2.prems"(2)])
    obtain runs where runs: "\<forall>x \<in> set runs. run_ok x" "concat (map run_records runs) = rest'"
        "map run_entry runs = out'"
      using "2.IH"(2) [OF False g [symmetric] refl p refl t o] run(1) "2.prems"(2) by auto
    show ?thesis using runs run out by (intro exI [of _ "Run r ms l # runs"]) simp
  qed
qed

section \<open>Directories\<close>

text \<open>
  The record loop over a directory extent: a zero byte skips to the next block boundary.
\<close>

function parse_records :: "nat \<Rightarrow> byte list \<Rightarrow> nat \<Rightarrow> dirRecord list res" where
  "parse_records bs data pos =
     (if pos < length data then
        if data ! pos = 0 then
          if bs = 0 then Inl (Panic ''integer divide by zero'')
          else let nxt = (pos div bs + 1) * bs in
               if nxt \<le> pos then Inr [] else parse_records bs data nxt
        else
          res_bind (parseDirRecord (drop pos data)) (\<lambda>(child, n).
            if n = 0 then Inr []
            else res_bind (parse_records bs data (pos + n)) (\<lambda>raw. Inr (child # raw)))
      else Inr [])"
  by pat_completeness auto
termination
  by (relation "measure (\<lambda>(bs, data, pos). length data - pos)") auto

declare parse_records.simps [simp del]

definition readDirRecords ::
  "(nat \<Rightarrow> nat \<Rightarrow> nat) \<Rightarrow> reader \<Rightarrow> Volume \<Rightarrow> dirRecord \<Rightarrow> int \<Rightarrow> dirRecord list res"
where
  "readDirRecords gc rs vol rec maxAlloc =
     (if \<not> isDir rec then Inl (Sentinel ErrNotDirectory)
      else
        let bs = unat (v_BlockSize vol); off = int (unat (dr_ExtentLBA rec)) * int bs;
            sz = unat (dr_Size rec) in
        if dr_Size rec > maxDirExtent
        then Inl (Wrap ''%w: dir extent size %d: %w (directory limit %d)''
                    [Sentinel ErrCorrupt, Sentinel SafeioTooLarge])
        else case checkSize (int sz) maxAlloc of
          Some e \<Rightarrow> Inl (Wrap ''%w: dir extent size %d: %w'' [Sentinel ErrCorrupt, e])
        | None \<Rightarrow>
          (case checkExtent off (int sz) maxAlloc of
             Some e \<Rightarrow> Inl (Wrap ''%w: dir extent @LBA %d: %w'' [Sentinel ErrCorrupt, e])
           | None \<Rightarrow>
             res_bind (appendAt gc rs ([], 0) off sz maxAlloc) (\<lambda>((data, _), _, err).
               case err of
                 Some e \<Rightarrow> Inl (Wrap ''iso9660: read dir extent @LBA %d: %w'' [e])
               | None \<Rightarrow> res_bind (parse_records bs data 0) mergeMultiExtent)))"

lemma parse_records_step:
  assumes "record_ok (drop pos data)"
  shows "parse_records bs data pos =
    res_bind (parse_records bs data (pos + unat (data ! pos)))
      (\<lambda>raw. Inr (record_at (drop pos data) # raw))"
proof -
  have pos: "pos < length data" using assms by (auto simp: record_ok_def)
  then have hd: "drop pos data ! 0 = data ! pos" by simp
  have nz: "data ! pos \<noteq> 0" "unat (data ! pos) \<noteq> 0" using assms pos by (auto simp: record_ok_def)
  show ?thesis
    using parseDirRecord_ok [OF assms] pos nz hd by (subst parse_records.simps) simp
qed

lemma parse_records_end: "length data \<le> pos \<Longrightarrow> parse_records bs data pos = Inr []"
  by (subst parse_records.simps) simp

lemma parse_records_skip:
  "pos < length data \<Longrightarrow> data ! pos = 0 \<Longrightarrow> 0 < bs \<Longrightarrow>
   parse_records bs data pos = parse_records bs data ((pos div bs + 1) * bs)"
proof -
  assume a: "pos < length data" "data ! pos = 0" "0 < bs"
  have "pos < (pos div bs + 1) * bs"
    using dividend_less_div_times [OF a(3), of pos] by (simp add: algebra_simps)
  with a show ?thesis by (subst parse_records.simps) (simp add: Let_def not_le)
qed

section \<open>Files\<close>

text \<open>The extent list of a record, and the place of an extent on the device.\<close>

definition rec_extents :: "dirRecord \<Rightarrow> extent list" where
  "rec_extents rec =
     (case dr_extents rec of
        None \<Rightarrow> [\<lparr>ext_lba = dr_ExtentLBA rec, ext_size = dr_Size rec\<rparr>]
      | Some es \<Rightarrow> es)"

definition ext_off :: "Volume \<Rightarrow> extent \<Rightarrow> int" where
  "ext_off vol e = int (unat (ext_lba e)) * int (unat (v_BlockSize vol))"

lemma ext_off_nonneg [simp]: "0 \<le> ext_off vol e" "\<not> ext_off vol e < 0"
  by (simp_all add: ext_off_def not_less)

text \<open>The \<^verbatim>\<open>int64\<close> arithmetic on offsets cannot overflow for a volume the reader accepts.\<close>

lemma device_offset_fits:
  assumes "unat (v_BlockSize vol) < 65536"
  shows "ext_off vol e + int (unat (ext_size e)) < 2 ^ 63"
proof -
  have "unat (ext_lba e) * unat (v_BlockSize vol) \<le> 4294967296 * 65536"
    using assms u32_bound [of "ext_lba e"] by (intro mult_le_mono) simp_all
  then have "ext_off vol e \<le> 4294967296 * 65536"
    unfolding ext_off_def by (metis of_nat_le_iff of_nat_mult of_nat_numeral)
  moreover have "(4294967296 :: int) * 65536 + 4294967296 < 2 ^ 63" by simp
  ultimately show ?thesis using int_u32_bound [of "ext_size e"] by linarith
qed

definition ext_len :: "extent \<Rightarrow> nat" where
  "ext_len e = unat (ext_size e)"

text \<open>The validation loop: the number of bytes the extents cover.\<close>

fun check_extents :: "Volume \<Rightarrow> int \<Rightarrow> nat \<Rightarrow> extent list \<Rightarrow> nat \<Rightarrow> nat res" where
  "check_extents vol maxAlloc tot [] covered = Inr covered"
| "check_extents vol maxAlloc tot (e # es) covered =
     (if ext_size e = 0 then check_extents vol maxAlloc tot es covered
      else if covered + ext_len e > tot
      then Inl (Wrap ''%w: file extent @LBA %d: %w''
              [Sentinel ErrCorrupt,
               Wrap ''%w: range [%d,%d+%d) exceeds buffer length %d'' [Sentinel SafeioOutOfBounds]])
      else case checkExtent (ext_off vol e) (int (ext_len e)) maxAlloc of
        Some x \<Rightarrow> Inl (Wrap ''%w: file extent @LBA %d: %w'' [Sentinel ErrCorrupt, x])
      | None \<Rightarrow> check_extents vol maxAlloc tot es (covered + ext_len e))"

text \<open>The reading loop.\<close>

fun read_extents ::
  "(nat \<Rightarrow> nat \<Rightarrow> nat) \<Rightarrow> reader \<Rightarrow> Volume \<Rightarrow> int \<Rightarrow> extent list \<Rightarrow> gslice \<Rightarrow> gslice res"
where
  "read_extents gc rs vol maxAlloc [] data = Inr data"
| "read_extents gc rs vol maxAlloc (e # es) data =
     (if ext_size e = 0 then read_extents gc rs vol maxAlloc es data
      else
        res_bind (appendAt gc rs data (ext_off vol e) (ext_len e) maxAlloc) (\<lambda>(data', _, err).
          case err of
            Some x \<Rightarrow> Inl (Wrap ''iso9660: read file extent @LBA %d: %w'' [x])
          | None \<Rightarrow> read_extents gc rs vol maxAlloc es data'))"

text \<open>
  The final \<^verbatim>\<open>data[:total:total]\<close> reaches past the length of \<open>data\<close> into its capacity, which
  still holds the zeros it was made with; past the capacity it would panic.
\<close>

definition readFile ::
  "(nat \<Rightarrow> nat \<Rightarrow> nat) \<Rightarrow> reader \<Rightarrow> Volume \<Rightarrow> dirRecord \<Rightarrow> int \<Rightarrow> byte list res"
where
  "readFile gc rs vol rec maxAlloc =
     (if isDir rec then Inl (Sentinel ErrNotRegular)
      else
        let exts = rec_extents rec; tot = unat (dr_Size rec) in
        case checkSize (int tot) maxAlloc of
          Some e \<Rightarrow> Inl (Wrap ''%w: file size %d: %w'' [Sentinel ErrCorrupt, e])
        | None \<Rightarrow>
          res_bind (check_extents vol maxAlloc tot exts 0) (\<lambda>covered.
          if covered < tot \<and> sizeUnknown maxAlloc
          then Inl (Wrap ''%w: extents cover %d of %d bytes'' [Sentinel ErrCorrupt])
          else
            res_bind (read_extents gc rs vol maxAlloc exts
                        (if sizeUnknown maxAlloc then ([], 0) else ([], tot))) (\<lambda>(data, cap).
            if tot \<le> cap then Inr (take tot (data @ replicate (tot - length data) 0))
            else Inl (Panic ''slice bounds out of range''))))"

section \<open>Buffers\<close>

lemma grown_cap_mono: "snd s \<le> grown_cap gc s n"
  by (auto simp: grown_cap_def)

lemma grown_cap_room: "length (fst s) \<le> snd s \<Longrightarrow> length (fst s) + n \<le> grown_cap gc s n"
  by (auto simp: grown_cap_def)

lemma reslice_Inr:
  "reslice s n = Inr s' \<Longrightarrow> 0 \<le> n \<and> n \<le> int (snd s) \<and> snd s' = snd s \<and> length (fst s') = nat n"
  by (auto simp: reslice_def split: if_splits)

lemma reslice_take: "reslice s (int n) = Inr s' \<Longrightarrow> n \<le> length (fst s) \<Longrightarrow> fst s' = take n (fst s)"
  by (auto simp: reslice_def split: if_splits)

text \<open>One step of the loop, for a reader that answers \<open>(seg, m, err)\<close>.\<close>

lemma append_loop_step:
  assumes "dn < n" and "step = read_step grow dst (n - dn)"
    and "read_into rs (replicate step 0) (off + int dn) = (seg, m, err)"
  shows "append_loop gc rs grow off n dn dst =
     (if err \<noteq> None \<and> \<not> (err = Some (Sentinel EOF) \<and> m = int step)
      then res_bind (reslice (fst dst @ seg, grown_cap gc dst step) (int (length (fst dst)) + m)) (\<lambda>s.
             Inr (s, int dn + m, err))
      else append_loop gc rs grow off n (dn + step) (fst dst @ seg, grown_cap gc dst step))"
  using assms by (simp add: append_loop.simps [of gc rs grow off n dn dst] Let_def)

lemma append_loop_done [simp]: "n \<le> dn \<Longrightarrow> append_loop gc rs grow off n dn dst = Inr (dst, int dn, None)"
  by (simp add: append_loop.simps [of gc rs grow off n dn dst])

text \<open>The calls of a loop, as an induction rule: it is done, it fails, or it goes on.\<close>

lemma append_loop_cases [case_names finish fail step]:
  fixes P :: "nat \<Rightarrow> gslice \<Rightarrow> bool"
  assumes finish: "\<And>dn dst. n \<le> dn \<Longrightarrow> P dn dst"
    and fail: "\<And>dn dst step seg m e. \<lbrakk> dn < n; step = read_step grow dst (n - dn);
       read_into rs (replicate step 0) (off + int dn) = (seg, m, Some e);
       \<not> (e = Sentinel EOF \<and> m = int step) \<rbrakk> \<Longrightarrow> P dn dst"
    and step: "\<And>dn dst step seg m err. \<lbrakk> dn < n; step = read_step grow dst (n - dn);
       read_into rs (replicate step 0) (off + int dn) = (seg, m, err);
       err = None \<or> err = Some (Sentinel EOF) \<and> m = int step;
       P (dn + step) (fst dst @ seg, grown_cap gc dst step) \<rbrakk> \<Longrightarrow> P dn dst"
  shows "P dn dst"
proof (induction "n - dn" arbitrary: dn dst rule: less_induct)
  case (less dn dst)
  show ?case
  proof (cases "dn < n")
    case True
    define step where "step = read_step grow dst (n - dn)"
    obtain seg m err where r: "read_into rs (replicate step 0) (off + int dn) = (seg, m, err)"
      by (cases "read_into rs (replicate step 0) (off + int dn)") auto
    have pos: "n - (dn + step) < n - dn"
      using True read_step_bounds [of "n - dn" grow dst] unfolding step_def by linarith
    show ?thesis
    proof (cases "err = None \<or> err = Some (Sentinel EOF) \<and> m = int step")
      case True
      then show ?thesis using assms(3) [OF \<open>dn < n\<close> step_def r] less [OF pos] by blast
    next
      case False
      then obtain e where "err = Some e" "\<not> (e = Sentinel EOF \<and> m = int step)" by auto
      then show ?thesis using fail [OF \<open>dn < n\<close> step_def] r by blast
    qed
  qed (use finish in simp)
qed

text \<open>
  What holds of every read of a call holds of the call: \<open>I\<close> is kept by each completed
  read, and a failed read establishes the result from it.
\<close>

lemma append_loop_induct [consumes 1, case_names init step fail]:
  assumes "append_loop gc rs grow off n dn dst = Inr (dst', dn', err')"
    and "I dn dst"
    and step: "\<And>dn dst step seg m err. \<lbrakk> I dn dst; dn < n; step = read_step grow dst (n - dn);
       read_into rs (replicate step 0) (off + int dn) = (seg, m, err);
       err = None \<or> err = Some (Sentinel EOF) \<and> m = int step \<rbrakk>
       \<Longrightarrow> I (dn + step) (fst dst @ seg, grown_cap gc dst step)"
    and fail: "\<And>dn dst step seg m e s. \<lbrakk> I dn dst; dn < n; step = read_step grow dst (n - dn);
       read_into rs (replicate step 0) (off + int dn) = (seg, m, Some e);
       reslice (fst dst @ seg, grown_cap gc dst step) (int (length (fst dst)) + m) = Inr s \<rbrakk>
       \<Longrightarrow> bad (int dn + m) s e"
  shows "case err' of None \<Rightarrow> \<exists>k. dn' = int k \<and> I k dst' \<and> n \<le> k | Some e \<Rightarrow> bad dn' dst' e"
  using assms(1,2)
proof (induction dn dst rule: append_loop_cases [where gc = gc and rs = rs and grow = grow and off = off and n = n])
  case (fail dn dst st seg m e)
  then show ?case
    using append_loop_step [OF fail(1-3), of gc] assms(4) [OF fail(6,1-3)] by (auto simp: res_inv)
next
  case (step dn dst st seg m err)
  show ?case
    by (rule step(5))
      (use append_loop_step [OF step(1-3), of gc] assms(3) [OF step(7,1-4)] step(4,6) in auto)
qed auto

text \<open>
  Lengths and capacities, for any reader: a completed call adds exactly the bytes it was
  asked for, and the capacity always has room for the elements.
\<close>

lemma append_loop_length:
  assumes "append_loop gc rs grow off n dn dst = Inr (dst', dn', err)"
    and "dn \<le> n" "length (fst dst) \<le> snd dst"
  shows "length (fst dst') \<le> snd dst' \<and> snd dst \<le> snd dst'
    \<and> (err = None \<longrightarrow> length (fst dst') = length (fst dst) + (n - dn) \<and> dn' = int n)"
proof -
  let ?inv = "\<lambda>k d. dn \<le> k \<and> k \<le> n \<and> length (fst d) = length (fst dst) + (k - dn)
      \<and> length (fst d) \<le> snd d \<and> snd dst \<le> snd d"
  from assms(1) have "case err of None \<Rightarrow> \<exists>k. dn' = int k \<and> ?inv k dst' \<and> n \<le> k
      | Some e \<Rightarrow> length (fst dst') \<le> snd dst' \<and> snd dst \<le> snd dst'"
  proof (induction rule: append_loop_induct)
    case init
    then show ?case using assms by simp
  next
    case (step k d st seg m err)
    have len: "length seg = st" using read_into_length [OF step(4)] by simp
    have st: "st \<le> n - k" using step(2,3) read_step_bounds [of "n - k" grow d] by simp
    show ?case
      using step(1,2) len st grown_cap_mono [of d gc st] grown_cap_room [of d st gc] by auto
  next
    case (fail k d st seg m e s)
    then show ?case using reslice_Inr [OF fail(5)] grown_cap_mono [of d gc st] by auto
  qed
  then show ?thesis by (cases err) auto
qed

text \<open>A reader that counts its bytes as the interface says never makes the call panic.\<close>

lemma append_loop_returns:
  assumes "counted rs" "length (fst dst) \<le> snd dst"
  shows "returns (append_loop gc rs grow off n dn dst)"
  using assms(2)
proof (induction dn dst rule: append_loop_cases [where gc = gc and rs = rs and grow = grow and off = off and n = n])
  case (fail dn dst st seg m e)
  have "0 \<le> m" "m \<le> int st" using counted_read [OF assms(1) fail(3)] by simp_all
  then have "reslice (fst dst @ seg, grown_cap gc dst st) (int (length (fst dst)) + m) \<noteq> Inl x" for x
    using grown_cap_room [OF fail(5), of st gc] by (auto simp: reslice_def)
  then show ?case
    using append_loop_step [OF fail(1-3), of gc] fail(4)
    by (cases "reslice (fst dst @ seg, grown_cap gc dst st) (int (length (fst dst)) + m)") auto
next
  case (step dn dst st seg m err)
  have "length seg = st" using read_into_length [OF step(3)] by simp
  then have "length (fst (fst dst @ seg, grown_cap gc dst st)) \<le> snd (fst dst @ seg, grown_cap gc dst st)"
    using grown_cap_room [OF step(6), of st gc] by simp
  from step(5) [OF this] show ?case using append_loop_step [OF step(1-3), of gc] step(4) by auto
qed auto

lemma appendAt_returns [returns_intros]:
  "counted rs \<Longrightarrow> length (fst dst) \<le> snd dst \<Longrightarrow> returns (appendAt gc rs dst off n maxAlloc)"
  unfolding appendAt_def by (rule append_loop_returns)

text \<open>
  A reader that does not can: here it claims more bytes than it was asked for, with an error.
\<close>

lemma overcount_panics:
  "appendAt (\<lambda>_ n. n) (\<lambda>_ _. ([], 2, Some (Device 0))) ([], 0) off 1 maxAlloc
   = Inl (Panic ''slice bounds out of range'')"
  by (simp add: appendAt_def append_loop.simps Let_def read_into_def reslice_def grown_cap_def
      read_step_def growChunk_def)

text \<open>
  With the image size unknown the buffer is never reserved from the claim: whatever the
  reader does and however long the extent says it is, the capacity stays within a constant
  factor of the bytes that were delivered, plus one chunk.
\<close>

lemma append_loop_growth:
  assumes "append_loop gc rs True off n dn dst = Inr (dst', dn', err)" and rs: "counted rs"
    and gc: "\<And>c need. gc c need \<le> k * need" and "1 \<le> k"
    and start: "snd dst \<le> k * (2 * length (fst dst) + growChunk)"
  shows "snd dst' \<le> k * (2 * length (fst dst') + growChunk)"
proof -
  let ?inv = "\<lambda>(j::nat) d. snd d \<le> k * (2 * length (fst d) + growChunk)"
  have cap: "grown_cap gc d (read_step True d r) \<le> k * (2 * length (fst d) + growChunk)"
    if "snd d \<le> k * (2 * length (fst d) + growChunk)" for d r
  proof (cases "snd d - length (fst d) < read_step True d r")
    case False
    then show ?thesis using that by (simp add: grown_cap_def)
  next
    case True
    let ?need = "length (fst d) + read_step True d r"
    have room: "snd d - length (fst d) < r"
      using True by (auto simp: read_step_def split: if_splits)
    then have need: "?need \<le> 2 * length (fst d) + growChunk"
      by (simp add: read_step_def)
    have "max ?need (gc (snd d) ?need) \<le> k * ?need"
      using gc [of "snd d" ?need] \<open>1 \<le> k\<close> by simp
    also have "\<dots> \<le> k * (2 * length (fst d) + growChunk)"
      using need by (rule mult_le_mono2)
    finally show ?thesis using True by (simp add: grown_cap_def)
  qed
  from assms(1) have "case err of None \<Rightarrow> \<exists>j. dn' = int j \<and> ?inv j dst' \<and> n \<le> j
      | Some e \<Rightarrow> snd dst' \<le> k * (2 * length (fst dst') + growChunk)"
  proof (induction rule: append_loop_induct)
    case init
    show ?case by (rule start)
  next
    case (step j d st seg m err)
    have "k * (2 * length (fst d) + growChunk) \<le> k * (2 * length (fst d @ seg) + growChunk)"
      by (intro mult_le_mono2) simp
    from le_trans [OF cap [OF step(1)] this] show ?case by (simp only: fst_conv snd_conv step(3))
  next
    case (fail j d st seg m e s)
    have "length (fst d) \<le> length (fst s)" "snd s = grown_cap gc d st"
      using reslice_Inr [OF fail(5)] counted_read [OF rs fail(4)] by auto
    moreover from this have "k * (2 * length (fst d) + growChunk) \<le> k * (2 * length (fst s) + growChunk)"
      by (intro mult_le_mono2) simp
    ultimately show ?case using le_trans [OF cap [OF fail(1)]] by (simp only: fail(3))
  qed
  then show ?thesis by (cases err) auto
qed

section \<open>What a conforming reader delivers\<close>

context device
begin

lemma append_loop_data:
  assumes "append_loop gc rs grow off n dn dst = Inr (dst', dn', err)" and "dn \<le> n"
  shows "\<exists>k \<le> n - dn. fst dst' = fst dst @ bytes_at content (off + int dn) k \<and> dn' = int (dn + k)
    \<and> (err = None \<longrightarrow> k = n - dn)"
proof -
  let ?I = "\<lambda>j d. dn \<le> j \<and> j \<le> n
      \<and> fst d = fst dst @ bytes_at content (off + int dn) (j - dn)"
  from assms(1) have "case err of None \<Rightarrow> \<exists>j. dn' = int j \<and> ?I j dst' \<and> n \<le> j
      | Some e \<Rightarrow> \<exists>j. dn' = int j \<and> ?I j dst'"
  proof (induction rule: append_loop_induct)
    case init
    then show ?case using assms(2) by simp
  next
    case (step j d st seg m err)
    have st: "st \<le> n - j" using step(2,3) read_step_bounds [of "n - j" grow d] by simp
    obtain k where "m = int k" "seg = bytes_at content (off + int j) k @ drop k (replicate st 0)"
        "err = None \<Longrightarrow> k = st" by (rule read_into_data [OF step(4)]) auto
    then have "seg = bytes_at content (off + int j) st" using step(5) by auto
    with step(1,2) st show ?case by (simp add: bytes_at_extend)
  next
    case (fail j d st seg m e s)
    have st: "st \<le> n - j" using fail(2,3) read_step_bounds [of "n - j" grow d] by simp
    obtain k where k: "m = int k" "k \<le> st" "seg = bytes_at content (off + int j) k @ drop k (replicate st 0)"
      by (rule read_into_data [OF fail(4)]) auto
    have "fst s = take (length (fst d) + k) (fst d @ seg)"
      using reslice_take [of _ "length (fst d) + k" s] fail(5) k(1,3) by fastforce
    then have "fst s = fst d @ bytes_at content (off + int j) k" using k(3) by simp
    then show ?case
      using fail(1,2) st k(1,2) by (intro exI [of _ "j + k"]) (simp add: bytes_at_extend)
  qed
  then obtain j where j: "dn' = int j" "?I j dst'" "err = None \<Longrightarrow> n \<le> j" by (cases err) auto
  show ?thesis
  proof (intro exI [of _ "j - dn"] conjI impI)
    show "j - dn = n - dn" if "err = None" using j that by auto
  qed (use j in \<open>auto simp: diff_le_mono\<close>)
qed

lemma append_loop_inside:
  assumes "0 \<le> off" "off + int n \<le> limit" "dn \<le> n"
  shows "\<exists>cap. append_loop gc rs grow off n dn dst
    = Inr ((fst dst @ bytes_at content (off + int dn) (n - dn), cap), int n, None)"
  using assms(3)
proof (induction dn dst rule: append_loop_cases [where gc = gc and rs = rs and grow = grow and off = off and n = n])
  case (finish dn dst)
  then show ?case by (cases dst) simp
next
  case (fail dn dst st seg m e)
  have "0 < st" "st \<le> n - dn" using fail(1,2) read_step_bounds [of "n - dn" grow dst] by simp_all
  then have False using read_into_ok [OF fail(3)] fail(1,4) assms(1,2) by auto
  then show ?case ..
next
  case (step dn dst st seg m err)
  have st: "0 < st" "st \<le> n - dn" using step(1,2) read_step_bounds [of "n - dn" grow dst] by simp_all
  then have "seg = bytes_at content (off + int dn) st"
    using read_into_ok [OF step(3)] step(1) assms(1,2) by simp
  moreover have "bytes_at content (off + int dn) (n - dn)
      = bytes_at content (off + int dn) st @ bytes_at content (off + int (dn + st)) (n - (dn + st))"
    using bytes_at_add [of content "off + int dn" st "n - (dn + st)"] st by (simp add: algebra_simps)
  ultimately show ?case
    using step(5) st append_loop_step [OF step(1-3), of gc] step(4) by auto
qed

end

text \<open>Where there is nothing outside the medium, a completed call has not left it.\<close>

context image_reader
begin

lemma append_loop_on_medium:
  assumes "append_loop gc rs grow off n 0 dst = Inr (dst', dn', None)" "0 < n"
  shows "0 \<le> off \<and> off + int n \<le> limit"
proof -
  let ?I = "\<lambda>j d. j \<le> n \<and> (0 < j \<longrightarrow> 0 \<le> off \<and> off + int j \<le> limit)"
  obtain err where err: "err = (None :: goerror option)" by simp
  from assms(1) [folded err]
  have "case err of None \<Rightarrow> \<exists>j. dn' = int j \<and> ?I j dst' \<and> n \<le> j | Some e \<Rightarrow> True"
  proof (induction rule: append_loop_induct)
    case (step j d st seg m err)
    have st: "0 < st" "st \<le> n - j" using step(2,3) read_step_bounds [of "n - j" grow d] by simp_all
    have "m = int st" using step(4,5) read_into_nil [of "replicate st 0" "off + int j" seg m] by auto
    then have "0 \<le> off + int j" "off + int j + int st \<le> limit"
      using read_into_outside [OF step(4)] st(1) by auto
    then show ?case using step(1,2) st by (cases "j = 0") auto
  qed simp_all
  then show ?thesis using assms(2) by (auto simp: err)
qed

end

section \<open>No panics\<close>

lemma mergeMultiExtent_safe [safe_intros]: "safe (mergeMultiExtent rs)"
  by (induction rs rule: mergeMultiExtent.induct)
    (auto intro!: safe_bind split: prod.splits option.splits)

lemma parse_records_safe [safe_intros]: "0 < bs \<Longrightarrow> safe (parse_records bs data pos)"
proof (induction bs data pos rule: parse_records.induct)
  case (1 bs data pos)
  then show ?case
    by (subst parse_records.simps)
      (auto simp: Let_def intro!: safe_bind safe_intros split: prod.splits)
qed

lemma readDirRecords_safe [safe_intros]:
  assumes "0 < v_BlockSize vol" "counted rs"
  shows "safe (readDirRecords gc rs vol rec maxAlloc)"
proof -
  have "0 < unat (v_BlockSize vol)" using assms(1) by (simp add: word_gt_0 unat_gt_0)
  then show ?thesis
    unfolding readDirRecords_def Let_def
    by (auto intro!: safe_bind safe_intros returns_safe [OF appendAt_returns] assms(2)
        split: prod.splits option.splits)
qed

lemma check_extents_safe [safe_intros]: "safe (check_extents vol maxAlloc tot es covered)"
  by (induction vol maxAlloc tot es covered rule: check_extents.induct)
    (auto split: option.splits)

text \<open>The bytes the non-empty extents of a list address.\<close>

definition extents_len :: "extent list \<Rightarrow> nat" where
  "extents_len es = sum_list (map ext_len es)"

lemma ext_len_0: "ext_size e = 0 \<Longrightarrow> ext_len e = 0"
  by (simp add: ext_len_def)

lemma ext_len_pos: "ext_size e \<noteq> 0 \<Longrightarrow> 0 < ext_len e"
  by (simp add: ext_len_def unat_gt_0)

lemma check_extents_covered:
  "check_extents vol maxAlloc tot es covered = Inr c \<Longrightarrow> covered \<le> tot \<Longrightarrow>
   c = covered + extents_len es \<and> c \<le> tot"
  by (induction vol maxAlloc tot es covered rule: check_extents.induct)
    (auto simp: extents_len_def ext_len_0 split: if_splits option.splits)

lemma check_extents_inside:
  "check_extents vol maxAlloc tot es covered = Inr c \<Longrightarrow> e \<in> set es \<Longrightarrow> ext_size e \<noteq> 0 \<Longrightarrow>
   checkExtent (ext_off vol e) (int (ext_len e)) maxAlloc = None"
  by (induction vol maxAlloc tot es covered rule: check_extents.induct)
    (auto split: if_splits option.splits)

lemma check_extents_ok:
  assumes "\<And>e. e \<in> set es \<Longrightarrow> ext_size e \<noteq> 0 \<Longrightarrow>
     checkExtent (ext_off vol e) (int (ext_len e)) maxAlloc = None"
    and "covered + extents_len es \<le> tot"
  shows "check_extents vol maxAlloc tot es covered = Inr (covered + extents_len es)"
  using assms
proof (induction es arbitrary: covered)
  case (Cons e es)
  show ?case
  proof (cases "ext_size e = 0")
    case True
    then show ?thesis using Cons by (simp add: extents_len_def ext_len_0)
  next
    case False
    then have "checkExtent (ext_off vol e) (int (ext_len e)) maxAlloc = None"
      using Cons.prems(1) by simp
    moreover have "covered + ext_len e + extents_len es \<le> tot" "\<not> tot < covered + ext_len e"
      using Cons.prems(2) by (simp_all add: extents_len_def)
    ultimately show ?thesis
      using False Cons.IH [of "covered + ext_len e"] Cons.prems(1)
      by (simp add: extents_len_def add.assoc)
  qed
qed (simp add: extents_len_def)

text \<open>What the reading loop does to the buffer, for any reader.\<close>

lemma read_extents_length:
  assumes "read_extents gc rs vol maxAlloc es data = Inr data'" "length (fst data) \<le> snd data"
  shows "length (fst data') = length (fst data) + extents_len es
    \<and> length (fst data') \<le> snd data' \<and> snd data \<le> snd data'"
  using assms
proof (induction es arbitrary: data)
  case (Cons e es)
  show ?case
  proof (cases "ext_size e = 0")
    case True
    then show ?thesis
      using Cons.IH [of data] Cons.prems by (auto simp: extents_len_def ext_len_0)
  next
    case False
    then obtain d n where a: "appendAt gc rs data (ext_off vol e) (ext_len e) maxAlloc = Inr (d, n, None)"
        and r: "read_extents gc rs vol maxAlloc es d = Inr data'"
      using Cons.prems(1) by (auto simp: res_inv split: option.splits)
    note l = append_loop_length [OF a [unfolded appendAt_def] _ Cons.prems(2)]
    from Cons.IH [OF r] l show ?thesis by (auto simp: extents_len_def)
  qed
qed (simp add: extents_len_def)

lemma read_extents_safe [safe_intros]:
  assumes "counted rs" "length (fst data) \<le> snd data"
  shows "safe (read_extents gc rs vol maxAlloc es data)"
  using assms(2)
proof (induction es arbitrary: data)
  case (Cons e es)
  have "safe (read_extents gc rs vol maxAlloc es d)"
    if "appendAt gc rs data (ext_off vol e) (ext_len e) maxAlloc = Inr (d, n, err)" for d n err
    using append_loop_length [OF that [unfolded appendAt_def] _ Cons.prems] by (intro Cons.IH) simp
  then show ?case
    using Cons by (auto intro!: safe_bind returns_safe [OF appendAt_returns] assms(1) split: option.splits)
qed simp

lemma readFile_safe [safe_intros]:
  assumes "counted rs"
  shows "safe (readFile gc rs vol rec maxAlloc)"
proof -
  let ?tot = "unat (dr_Size rec)" and ?es = "rec_extents rec"
  let ?d0 = "if sizeUnknown maxAlloc then ([], 0) else ([], ?tot)"
  have "?tot \<le> cap" if c: "check_extents vol maxAlloc ?tot ?es 0 = Inr covered"
      and n: "\<not> (covered < ?tot \<and> sizeUnknown maxAlloc)"
      and r: "read_extents gc rs vol maxAlloc ?es ?d0 = Inr (data, cap)" for covered data cap
  proof (cases "sizeUnknown maxAlloc")
    case True
    have "covered = extents_len ?es" using check_extents_covered [OF c] by simp
    with n True have "?tot \<le> extents_len ?es" by simp
    with read_extents_length [OF r] True show ?thesis by simp
  next
    case False
    with read_extents_length [OF r] show ?thesis by simp
  qed
  then show ?thesis
    unfolding readFile_def Let_def
    by (auto intro!: safe_bind safe_intros assms split: option.splits)
qed

lemma readFile_length: "readFile gc rs vol rec maxAlloc = Inr d \<Longrightarrow> length d = unat (dr_Size rec)"
  by (auto simp: readFile_def Let_def res_inv split: if_splits option.splits)

section \<open>The contents of a file\<close>

text \<open>
  The specification: the concatenation of the extents' bytes in order, and zeros up to the
  recorded size where the extents fall short of it.
\<close>

definition extents_bytes :: "(int \<Rightarrow> byte) \<Rightarrow> Volume \<Rightarrow> extent list \<Rightarrow> byte list" where
  "extents_bytes content vol es = concat (map (\<lambda>e. bytes_at content (ext_off vol e) (ext_len e)) es)"

definition file_bytes :: "(int \<Rightarrow> byte) \<Rightarrow> Volume \<Rightarrow> dirRecord \<Rightarrow> byte list" where
  "file_bytes content vol rec =
     extents_bytes content vol (rec_extents rec)
     @ replicate (unat (dr_Size rec) - extents_len (rec_extents rec)) 0"

lemma length_extents_bytes [simp]: "length (extents_bytes c vol es) = extents_len es"
  by (induction es) (auto simp: extents_bytes_def extents_len_def)

context device
begin

lemma read_extents_data:
  assumes "read_extents gc rs vol maxAlloc es data = Inr data'"
  shows "fst data' = fst data @ extents_bytes content vol es"
  using assms
proof (induction es arbitrary: data)
  case (Cons e es)
  show ?case
  proof (cases "ext_size e = 0")
    case True
    then show ?thesis using Cons by (simp add: extents_bytes_def ext_len_0)
  next
    case False
    then obtain d n where a: "appendAt gc rs data (ext_off vol e) (ext_len e) maxAlloc = Inr (d, n, None)"
        and r: "read_extents gc rs vol maxAlloc es d = Inr data'"
      using Cons.prems(1) by (auto simp: res_inv split: option.splits)
    from append_loop_data [OF a [unfolded appendAt_def]]
    have "fst d = fst data @ bytes_at content (ext_off vol e) (ext_len e)" by auto
    with Cons.IH [OF r] show ?thesis by (simp add: extents_bytes_def)
  qed
qed (simp add: extents_bytes_def)

lemma read_extents_inside:
  assumes "\<And>e. e \<in> set es \<Longrightarrow> ext_size e \<noteq> 0 \<Longrightarrow> ext_off vol e + int (ext_len e) \<le> limit"
  shows "\<exists>data'. read_extents gc rs vol maxAlloc es data = Inr data'"
  using assms
proof (induction es arbitrary: data)
  case (Cons e es)
  show ?case
  proof (cases "ext_size e = 0")
    case False
    from append_loop_inside [of "ext_off vol e" "ext_len e" 0 gc "sizeUnknown maxAlloc" data]
      Cons.prems False ext_off_nonneg
    obtain cap where "appendAt gc rs data (ext_off vol e) (ext_len e) maxAlloc
        = Inr ((fst data @ bytes_at content (ext_off vol e) (ext_len e), cap), int (ext_len e), None)"
      by (auto simp: appendAt_def)
    with False Cons show ?thesis by simp
  qed (use Cons in simp)
qed simp

text \<open>A successful \<^verbatim>\<open>readFile\<close> returns the specified bytes, whatever the capacity policy.\<close>

lemma readFile_data:
  assumes "readFile gc rs vol rec maxAlloc = Inr d"
  shows "d = file_bytes content vol rec \<and> length d = unat (dr_Size rec)"
proof -
  let ?tot = "unat (dr_Size rec)" and ?es = "rec_extents rec"
  from assms obtain covered data cap where
      c: "check_extents vol maxAlloc ?tot ?es 0 = Inr covered"
      and r: "read_extents gc rs vol maxAlloc ?es
                (if sizeUnknown maxAlloc then ([], 0) else ([], ?tot)) = Inr (data, cap)"
      and d: "d = take ?tot (data @ replicate (?tot - length data) 0)"
    by (auto simp: readFile_def Let_def res_inv split: if_splits option.splits)
  from read_extents_data [OF r] have data: "data = extents_bytes content vol ?es"
    by (auto split: if_splits)
  moreover have "extents_len ?es \<le> ?tot" using check_extents_covered [OF c] by simp
  ultimately show ?thesis using d by (simp add: file_bytes_def)
qed

text \<open>With the image size known, every record whose extents lie in the image is read.\<close>

lemma readFile_complete:
  assumes "\<not> isDir rec" "maxAlloc = limit" "limit \<le> maxInt" "int (unat (dr_Size rec)) \<le> limit"
    and "extents_len (rec_extents rec) \<le> unat (dr_Size rec)"
    and "sizeUnknown limit \<Longrightarrow> extents_len (rec_extents rec) = unat (dr_Size rec)"
    and in_image: "\<And>e. e \<in> set (rec_extents rec) \<Longrightarrow> ext_size e \<noteq> 0 \<Longrightarrow>
       ext_off vol e + int (ext_len e) \<le> limit"
  shows "readFile gc rs vol rec maxAlloc = Inr (file_bytes content vol rec)"
proof -
  let ?tot = "unat (dr_Size rec)" and ?es = "rec_extents rec"
  let ?d0 = "if sizeUnknown limit then ([], 0) else ([], ?tot)"
  have size_ok: "checkSize (int ?tot) limit = None"
    using assms(3,4) order_trans [OF uint_ge_0 assms(4) [unfolded uint_nat [symmetric]]]
    by (simp add: checkSize_def)
  have "checkExtent (ext_off vol e) (int (ext_len e)) limit = None"
    if "e \<in> set ?es" "ext_size e \<noteq> 0" for e
    using in_image [OF that] by (simp add: checkExtent_def not_less)
  from check_extents_ok [OF this] assms(5)
  have c: "check_extents vol limit ?tot ?es 0 = Inr (extents_len ?es)" by simp
  obtain data cap where r: "read_extents gc rs vol limit ?es ?d0 = Inr (data, cap)"
    using read_extents_inside [of ?es vol gc limit ?d0] in_image by (metis surj_pair)
  obtain d where "readFile gc rs vol rec maxAlloc = Inr d"
  proof -
    have "?tot \<le> cap"
      using read_extents_length [OF r] assms(6) by (cases "sizeUnknown limit") simp_all
    moreover have "\<not> (extents_len ?es < ?tot \<and> sizeUnknown limit)" using assms(6) by auto
    ultimately show thesis
      using that assms(1,2) size_ok c r unfolding readFile_def Let_def by simp
  qed
  with readFile_data show ?thesis by blast
qed

text \<open>A directory that is read is the parse of the bytes of its extent.\<close>

lemma readDirRecords_data:
  assumes "readDirRecords gc rs vol rec maxAlloc = Inr out"
  shows "isDir rec \<and> unat (dr_Size rec) \<le> 2 ^ 24
    \<and> res_bind (parse_records (unat (v_BlockSize vol))
         (bytes_at content (ext_off vol (rec_extent rec)) (unat (dr_Size rec))) 0)
         mergeMultiExtent = Inr out"
proof -
  let ?bs = "unat (v_BlockSize vol)" and ?n = "unat (dr_Size rec)"
  let ?off = "int (unat (dr_ExtentLBA rec)) * int ?bs"
  from assms obtain data cap k where d: "isDir rec" "\<not> dr_Size rec > maxDirExtent"
      and a: "appendAt gc rs ([], 0) ?off ?n maxAlloc = Inr ((data, cap), k, None)"
      and p: "res_bind (parse_records ?bs data 0) mergeMultiExtent = Inr out"
    by (auto simp: readDirRecords_def Let_def res_inv split: if_splits option.splits)
  from append_loop_data [OF a [unfolded appendAt_def]] have "data = bytes_at content ?off ?n"
    by auto
  moreover have "?n \<le> 2 ^ 24"
    using d(2) by (simp add: maxDirExtent_def word_less_nat_alt not_less)
  ultimately show ?thesis using d(1) p by (simp add: ext_off_def rec_extent_def)
qed

lemma readDirRecords_complete:
  assumes "isDir rec" "unat (dr_Size rec) \<le> 2 ^ 24" "maxAlloc = limit"
    and "int (unat (dr_Size rec)) \<le> limit"
    and "ext_off vol (rec_extent rec) + int (unat (dr_Size rec)) \<le> limit"
  shows "readDirRecords gc rs vol rec maxAlloc =
    res_bind (parse_records (unat (v_BlockSize vol))
      (bytes_at content (ext_off vol (rec_extent rec)) (unat (dr_Size rec))) 0) mergeMultiExtent"
proof -
  let ?bs = "unat (v_BlockSize vol)" and ?n = "unat (dr_Size rec)"
  let ?off = "int (unat (dr_ExtentLBA rec)) * int ?bs"
  have off: "ext_off vol (rec_extent rec) = ?off" by (simp add: ext_off_def rec_extent_def)
  have small: "\<not> dr_Size rec > maxDirExtent"
    using assms(2) by (simp add: maxDirExtent_def word_less_nat_alt not_less)
  have lim: "0 \<le> limit" using assms(4) by (rule order_trans [rotated]) simp
  have "checkSize (int ?n) limit = None"
    using of_nat_mono [OF assms(2), where 'a = int] assms(4) lim
    by (simp add: checkSize_def maxInt_def not_less)
  moreover have "checkExtent (ext_off vol (rec_extent rec)) (int ?n) limit = None"
    using assms(5) by (simp add: checkExtent_def not_less)
  then have "checkExtent ?off (int ?n) limit = None" by (simp only: off)
  moreover obtain cap where
    "appendAt gc rs ([], 0) ?off ?n limit = Inr ((bytes_at content ?off ?n, cap), int ?n, None)"
    using append_loop_inside [of ?off ?n 0 gc "sizeUnknown limit" "([], 0)"] assms(5) off
    unfolding appendAt_def by auto
  ultimately show ?thesis
    using assms(1,3) small unfolding readDirRecords_def off by (simp add: Let_def)
qed

end

context image_reader
begin

lemma read_extents_on_medium:
  assumes "read_extents gc rs vol maxAlloc es data = Inr data'" "e \<in> set es" "ext_size e \<noteq> 0"
  shows "ext_off vol e + int (ext_len e) \<le> limit"
  using assms(1,2)
proof (induction es arbitrary: data)
  case (Cons x es)
  show ?case
  proof (cases "ext_size x = 0")
    case True
    then show ?thesis using Cons.IH [of data] Cons.prems assms(3) by auto
  next
    case False
    then obtain d n where a: "appendAt gc rs data (ext_off vol x) (ext_len x) maxAlloc = Inr (d, n, None)"
        and r: "read_extents gc rs vol maxAlloc es d = Inr data'"
      using Cons.prems(1) by (auto simp: res_inv split: option.splits)
    show ?thesis
      using append_loop_on_medium [OF a [unfolded appendAt_def] ext_len_pos [OF False]]
        Cons.IH [OF r] Cons.prems(2) by auto
  qed
qed simp

text \<open>A file that is read lies on the medium, whatever the size of the image is said to be.\<close>

lemma readFile_on_medium:
  assumes "readFile gc rs vol rec maxAlloc = Inr d" "e \<in> set (rec_extents rec)" "ext_size e \<noteq> 0"
  shows "ext_off vol e + int (ext_len e) \<le> limit"
proof -
  from assms(1) obtain d0 data where "read_extents gc rs vol maxAlloc (rec_extents rec) d0 = Inr data"
    by (auto simp: readFile_def Let_def res_inv split: if_splits option.splits)
  then show ?thesis using read_extents_on_medium assms(2,3) by blast
qed

end

section \<open>Errors\<close>

text \<open>
  A bad length or extent in a record is reported as \<^verbatim>\<open>ErrCorrupt\<close>; the only other errors
  are a record of the wrong kind and an error of the reader, wrapped.
\<close>

definition corrupt_or_device :: "goerror \<Rightarrow> bool" where
  "corrupt_or_device e \<longleftrightarrow> errors_is e ErrCorrupt \<or> (\<exists>m d. e = Wrap m [d])"

lemma checkSize_error: "checkSize n m = Some e \<Longrightarrow> errors_is e SafeioTooLarge"
  by (auto simp: checkSize_def split: if_splits)

lemma checkExtent_error: "checkExtent off n m = Some e \<Longrightarrow> errors_is e SafeioOutOfBounds"
  by (auto simp: checkExtent_def split: if_splits)

lemma readFile_too_large:
  assumes "\<not> isDir rec" "int (unat (dr_Size rec)) > maxAlloc"
  shows "\<exists>e. readFile gc rs vol rec maxAlloc = Inl e \<and> errors_is e ErrCorrupt
    \<and> errors_is e SafeioTooLarge"
  using assms by (auto simp: readFile_def checkSize_def)

lemma readDirRecords_too_large:
  assumes "isDir rec" "unat (dr_Size rec) > 2 ^ 24"
  shows "\<exists>e. readDirRecords gc rs vol rec maxAlloc = Inl e \<and> errors_is e ErrCorrupt
    \<and> errors_is e SafeioTooLarge"
  using assms by (auto simp: readDirRecords_def maxDirExtent_def word_less_nat_alt)

lemma check_extents_overrun:
  assumes "extents_len es + covered > tot" "covered \<le> tot"
  shows "\<exists>e. check_extents vol maxAlloc tot es covered = Inl e \<and> errors_is e ErrCorrupt
    \<and> errors_is e SafeioOutOfBounds"
  using assms
proof (induction es arbitrary: covered)
  case (Cons e es)
  show ?case
  proof (cases "ext_size e = 0")
    case True
    then show ?thesis using Cons by (simp add: extents_len_def ext_len_0)
  next
    case False
    show ?thesis
    proof (cases "checkExtent (ext_off vol e) (int (ext_len e)) maxAlloc")
      case None
      then show ?thesis
        using False Cons.IH [of "covered + ext_len e"] Cons.prems
        by (auto simp: extents_len_def algebra_simps)
    next
      case (Some x)
      then show ?thesis using False checkExtent_error [OF Some] by simp
    qed
  qed
qed (simp add: extents_len_def)

lemma check_extents_error:
  "check_extents vol maxAlloc tot es covered = Inl e \<Longrightarrow> errors_is e ErrCorrupt"
  by (induction vol maxAlloc tot es covered rule: check_extents.induct)
    (auto split: if_splits option.splits)

lemma appendAt_panics:
  "appendAt gc rs dst off n maxAlloc = Inl e \<Longrightarrow> is_panic e"
proof -
  have "append_loop gc rs grow off n dn dst = Inl e \<Longrightarrow> is_panic e" for grow n dn
  proof (induction dn dst rule: append_loop_cases [where gc = gc and rs = rs and grow = grow and off = off and n = n])
    case (fail dn dst st seg m e)
    then show ?case
      using append_loop_step [OF fail(1-3), of gc]
      by (auto simp: reslice_def res_bind_Inl_iff split: if_splits)
  next
    case (step dn dst st seg m err)
    then show ?case using append_loop_step [OF step(1-3), of gc] by auto
  qed simp
  then show "appendAt gc rs dst off n maxAlloc = Inl e \<Longrightarrow> is_panic e" by (simp add: appendAt_def)
qed

lemma read_extents_error:
  "read_extents gc rs vol maxAlloc es data = Inl e \<Longrightarrow>
   is_panic e \<or> (\<exists>x. e = Wrap ''iso9660: read file extent @LBA %d: %w'' [x])"
  by (induction es arbitrary: data)
    (auto simp: res_bind_Inl_iff dest: appendAt_panics split: if_splits option.splits)

lemma parse_records_error:
  "parse_records bs data pos = Inl e \<Longrightarrow> 0 < bs \<Longrightarrow> errors_is e ErrCorrupt"
proof (induction bs data pos rule: parse_records.induct)
  case (1 bs data pos)
  have rec: "errors_is e ErrCorrupt" if "parseDirRecord (drop pos data) = Inl e"
    using that by (cases "drop pos data" rule: parseDirRecord_cases) auto
  from "1.prems"(1) [unfolded parse_records.simps [of bs data pos]] "1.prems"(2)
  consider "parseDirRecord (drop pos data) = Inl e"
    | "pos < length data" "data ! pos = 0" "(pos div bs + 1) * bs > pos"
        "parse_records bs data ((pos div bs + 1) * bs) = Inl e"
    | child n where "pos < length data" "data ! pos \<noteq> 0" "n \<noteq> 0"
        "parseDirRecord (drop pos data) = Inr (child, n)" "parse_records bs data (pos + n) = Inl e"
    by (auto simp: Let_def res_bind_Inl_iff not_le split: if_splits)
  then show ?case
    using 1 rec by cases auto
qed

lemma mergeMultiExtent_error: "mergeMultiExtent rs = Inl e \<Longrightarrow> errors_is e ErrCorrupt"
  by (induction rs rule: mergeMultiExtent.induct)
    (auto simp: res_bind_Inl_iff split: if_splits prod.splits option.splits)

section \<open>Properties\<close>

text \<open>
  C4: a successful \<^verbatim>\<open>readFile\<close> returns the bytes of the extents in order, zeros up to the
  recorded size where the extents fall short, and exactly as many bytes as the record says,
  for every reader that keeps the contract of \<^verbatim>\<open>io.ReaderAt\<close> and every capacity policy.
\<close>

theorem readFile_exact:
  assumes "device rs content limit" "readFile gc rs vol rec maxAlloc = Inr d"
  shows "d = file_bytes content vol rec \<and> length d = unat (dr_Size rec)"
  by (rule device.readFile_data [OF assms])

text \<open>
  C21: nothing that lies in the image is refused: with the size of the image known, a record
  whose extents are inside it and add up to its size is read, also by a reader that answers
  \<^verbatim>\<open>io.EOF\<close> together with the last bytes of the medium.
\<close>

theorem readFile_total:
  assumes "device rs content limit" "\<not> isDir rec" "limit \<le> maxInt" "int (unat (dr_Size rec)) \<le> limit"
    and "extents_len (rec_extents rec) = unat (dr_Size rec)"
    and "\<forall>e \<in> set (rec_extents rec). ext_size e \<noteq> 0 \<longrightarrow> ext_off vol e + int (ext_len e) \<le> limit"
  shows "readFile gc rs vol rec limit = Inr (file_bytes content vol rec)"
  by (rule device.readFile_complete [OF assms(1,2) refl assms(3,4)]) (use assms(5,6) in auto)

definition sample_vol :: Volume where
  "sample_vol = zero_Volume\<lparr>v_BlockSize := 4\<rparr>"

definition sample_rec :: dirRecord where
  "sample_rec = zero_dirRecord\<lparr>dr_ExtentLBA := 1, dr_Size := 3\<rparr>"

definition sample_img :: "byte list" where
  "sample_img = [9, 9, 9, 9, 1, 2, 3]"

lemma sample_facts:
  "\<not> isDir sample_rec" "int (unat (dr_Size sample_rec)) \<le> int (length sample_img)"
  "extents_len (rec_extents sample_rec) = unat (dr_Size sample_rec)"
  "\<forall>e \<in> set (rec_extents sample_rec). ext_size e \<noteq> 0 \<longrightarrow>
     ext_off sample_vol e + int (ext_len e) \<le> int (length sample_img)"
  "int (length sample_img) \<le> maxInt"
  by (simp_all add: sample_rec_def sample_img_def sample_vol_def zero_dirRecord_def rec_extents_def
      extents_len_def ext_off_def ext_len_def isDir_def maxInt_def)

lemma sample_bytes: "file_bytes (image_content sample_img) sample_vol sample_rec = [1, 2, 3]"
  by (simp add: file_bytes_def extents_bytes_def extents_len_def rec_extents_def sample_rec_def
      zero_dirRecord_def ext_off_def ext_len_def sample_vol_def sample_img_def bytes_at_image)

theorem readFile_total_witness:
  "readFile (\<lambda>_ n. n) (eof_reader sample_img) sample_vol sample_rec 7 = Inr [1, 2, 3]"
  using readFile_total [OF eof.device_axioms sample_facts(1,5,2,3,4)] sample_bytes
  by (simp add: sample_img_def)

theorem readFile_exact_witness:
  "\<exists>d. readFile (\<lambda>_ n. n) (bytes_reader sample_img) sample_vol sample_rec 7 = Inr d \<and> d = [1, 2, 3]"
proof -
  have "readFile (\<lambda>_ n. n) (bytes_reader sample_img) sample_vol sample_rec 7
      = Inr (file_bytes (image_content sample_img) sample_vol sample_rec)"
    using mem.readFile_complete [of sample_rec 7 sample_img sample_vol] sample_facts
    by (simp add: sample_img_def)
  from readFile_exact [OF mem.device_axioms this] this sample_bytes show ?thesis by simp
qed

text \<open>
  C40: the errors of \<^verbatim>\<open>readFile\<close> are those its documentation names: not a regular file,
  \<^verbatim>\<open>ErrCorrupt\<close> for a length or an extent that does not fit, or a wrapped error of the
  reader.  On a reader whose counts are in range reading never panics, also on hostile records.
\<close>

theorem readFile_errors:
  assumes "readFile gc rs vol rec maxAlloc = Inl e"
  shows "(counted rs \<longrightarrow> \<not> is_panic e) \<and>
    (is_panic e \<or> (e = Sentinel ErrNotRegular \<and> isDir rec) \<or> errors_is e ErrCorrupt
     \<or> (\<exists>x. e = Wrap ''iso9660: read file extent @LBA %d: %w'' [x]))"
proof -
  have np: "counted rs \<longrightarrow> \<not> is_panic e" using readFile_safe [of rs gc vol rec maxAlloc] assms by simp
  show ?thesis
  proof (cases "isDir rec")
    case True
    then show ?thesis using assms np by (simp add: readFile_def)
  next
    case False
    with np assms show ?thesis
      unfolding readFile_def Let_def
      by (auto simp: res_bind_Inl_iff dest!: check_extents_error read_extents_error
          split: option.splits if_splits)
  qed
qed

theorem readFile_errors_witness:
  "\<exists>e. readFile (\<lambda>_ n. n) (bytes_reader []) sample_vol sample_rec 2 = Inl e \<and> errors_is e ErrCorrupt"
proof -
  obtain e where e: "readFile (\<lambda>_ n. n) (bytes_reader []) sample_vol sample_rec 2 = Inl e"
      "errors_is e ErrCorrupt"
    using readFile_too_large [of sample_rec 2 "\<lambda>_ n. n" "bytes_reader []" sample_vol]
    by (auto simp: sample_rec_def zero_dirRecord_def isDir_def)
  have "\<not> is_panic e" using readFile_errors [OF e(1)] mem.device_counted by simp
  with e show ?thesis by blast
qed

text \<open>
  C26: with the image size unknown, no on-disk length can make the reader reserve memory the
  device does not back: after any call, failed ones included, the capacity is at most a
  constant factor of twice the delivered bytes plus one chunk of 1 MiB.
\<close>

theorem appendAt_growth:
  assumes "appendAt gc rs ([], 0) off n maxUnknownAlloc = Inr (dst', k, err)" "counted rs"
    and "\<forall>c need. gc c need \<le> f * need" "1 \<le> f"
  shows "snd dst' \<le> f * (2 * length (fst dst') + growChunk)"
  using assms(3)
  by (intro append_loop_growth [OF assms(1) [unfolded appendAt_def sizeUnknown_def refl [THEN eqTrueI]] assms(2)])
    (use assms(4) in auto)

theorem appendAt_growth_witness:
  "\<exists>dst k err. appendAt (\<lambda>_ n. 2 * n) (bytes_reader []) ([], 0) 0 4294967295 maxUnknownAlloc = Inr (dst, k, err)
     \<and> snd dst \<le> 2 * growChunk"
proof -
  obtain dst k err where a:
    "appendAt (\<lambda>_ n. 2 * n) (bytes_reader []) ([], 0) 0 4294967295 maxUnknownAlloc = Inr (dst, k, err)"
    using appendAt_returns [OF mem.device_counted, of "([], 0)"] unfolding returns_def by (metis fst_conv snd_conv list.size(3) zero_le prod_cases3)
  from mem.append_loop_data [OF this [unfolded appendAt_def]]
  have "length (fst dst) = 0"
    using a by (simp add: appendAt_def append_loop.simps Let_def read_into_def bytes_reader_def
        sizeUnknown_def read_step_def growChunk_def)
      (auto simp: growChunk_def reslice_def res_inv split: if_splits)
  then show ?thesis using appendAt_growth [OF a mem.device_counted, of 2] a by simp
qed


definition sample_run :: "dirRecord list" where
  "sample_run =
     [zero_dirRecord\<lparr>dr_Flags := 0x80, dr_Size := 5\<rparr>, zero_dirRecord\<lparr>dr_Size := 2\<rparr>]"


text \<open>A file of two extents of 3 GiB each, which only a multi-extent file can record.\<close>

lemma large_file_refused:
  "mergeMultiExtent [zero_dirRecord\<lparr>dr_Flags := 0x80, dr_Size := 0xC0000000\<rparr>,
      zero_dirRecord\<lparr>dr_Size := 0xC0000000\<rparr>]
   = Inl (Wrap ''%w: multi-extent file %q exceeds 4 GiB'' [Sentinel ErrCorrupt])"
  by (simp add: zero_dirRecord_def isDir_def multiExt_def flagDirectory_def flagMultiExt_def Let_def)

text \<open>
  C29: a directory within the 16 MiB limit that lies in an image of known size is read
  completely: the result is the parse of exactly the bytes of its extent, multi-extent runs
  merged.
\<close>

theorem readDirRecords_total:
  assumes "device rs content limit" "isDir rec" "unat (dr_Size rec) \<le> 2 ^ 24"
    and "int (unat (dr_Size rec)) \<le> limit"
    and "ext_off vol (rec_extent rec) + int (unat (dr_Size rec)) \<le> limit"
  shows "readDirRecords gc rs vol rec limit =
    res_bind (parse_records (unat (v_BlockSize vol))
      (bytes_at content (ext_off vol (rec_extent rec)) (unat (dr_Size rec))) 0) mergeMultiExtent"
  by (rule device.readDirRecords_complete [OF assms(1-3) refl assms(4,5)])

theorem readDirRecords_total_witness:
  "readDirRecords (\<lambda>_ n. n) (bytes_reader [0, 0, 0, 0, 0]) sample_vol
     (zero_dirRecord\<lparr>dr_Flags := 2, dr_ExtentLBA := 1, dr_Size := 1\<rparr>) 5 = Inr []"
proof -
  let ?r = "zero_dirRecord\<lparr>dr_Flags := 2, dr_ExtentLBA := 1, dr_Size := 1\<rparr>"
  have "bytes_at (image_content [0, 0, 0, 0, 0]) (ext_off sample_vol (rec_extent ?r)) 1 = [0]"
    by (simp add: rec_extent_def ext_off_def sample_vol_def bytes_at_image)
  then show ?thesis
    using readDirRecords_total [OF mem.device_axioms, of ?r "[0, 0, 0, 0, 0]" sample_vol "\<lambda>_ n. n"]
    by (simp add: isDir_def flagDirectory_def zero_dirRecord_def rec_extent_def ext_off_def
        sample_vol_def parse_records.simps)
qed

text \<open>
  The errors of reading a directory: not a directory, \<^verbatim>\<open>ErrCorrupt\<close> for a length, an
  extent or a record that is not well formed, or a wrapped error of the reader; no panic
  for a volume the scan accepted, on a reader whose counts are in range.
\<close>

theorem readDirRecords_errors:
  assumes "readDirRecords gc rs vol rec maxAlloc = Inl e" "0 < v_BlockSize vol" "counted rs"
  shows "\<not> is_panic e \<and> ((e = Sentinel ErrNotDirectory \<and> \<not> isDir rec) \<or> errors_is e ErrCorrupt
    \<or> (\<exists>x. e = Wrap ''iso9660: read dir extent @LBA %d: %w'' [x]))"
proof -
  have np: "\<not> is_panic e"
    using readDirRecords_safe [OF assms(2,3), of gc rec maxAlloc] assms(1) by simp
  have bs: "0 < unat (v_BlockSize vol)" using assms(2) by (simp add: word_gt_0 unat_gt_0)
  show ?thesis
  proof (cases "isDir rec")
    case True
    with np assms(1) parse_records_error [OF _ bs] mergeMultiExtent_error appendAt_panics show ?thesis
      unfolding readDirRecords_def Let_def
      by (auto simp: res_bind_Inl_iff split: option.splits if_splits)
  next
    case False
    then show ?thesis using assms(1) np by (simp add: readDirRecords_def)
  qed
qed

theorem readDirRecords_errors_witness:
  "\<exists>e. readDirRecords (\<lambda>_ n. n) (bytes_reader []) sample_vol
     (zero_dirRecord\<lparr>dr_Flags := 2, dr_Size := 0x1000001\<rparr>) 2 = Inl e \<and> errors_is e ErrCorrupt \<and> \<not> is_panic e"
proof -
  let ?r = "zero_dirRecord\<lparr>dr_Flags := 2, dr_Size := 0x1000001\<rparr>"
  obtain e where e: "readDirRecords (\<lambda>_ n. n) (bytes_reader []) sample_vol ?r 2 = Inl e"
      "errors_is e ErrCorrupt"
    using readDirRecords_too_large [of ?r "\<lambda>_ n. n" "bytes_reader []" sample_vol 2]
    by (auto simp: zero_dirRecord_def isDir_def flagDirectory_def)
  from readDirRecords_errors [OF e(1) _ mem.device_counted] have "\<not> is_panic e" by (simp add: sample_vol_def)
  with e show ?thesis by blast
qed

end
