(* ===== verification/RoundTrip.thy ===== *)
theory RoundTrip
  imports Master ReadImage
begin

text \<open>
  What the Builder encodes, the reader decodes: directory records, directory extents, and the
  volume descriptors.  A buffer that fields are spliced into is first written as the
  concatenation of its fields; \<open>splice_fields\<close> then moves every store to its field.
\<close>

section \<open>Buffers as concatenated fields\<close>

definition zeros :: "nat \<Rightarrow> byte list" where
  "zeros n = replicate n 0"

lemma length_zeros [simp]: "length (zeros n) = n"
  by (simp add: zeros_def)

lemma zeros_add: "zeros (m + n) = zeros m @ zeros n"
  by (simp add: zeros_def replicate_add)

lemma zeros_split: "k \<le> n \<Longrightarrow> zeros n = zeros k @ zeros (n - k)"
  using zeros_add [of k "n - k"] by simp

lemma update_splice: "i < length b \<Longrightarrow> b[i := x] = splice b i [x]"
  by (simp add: splice_def upd_conv_take_nth_drop)

lemma splice_skip: "length a \<le> at \<Longrightarrow> splice (a @ z) at s = a @ splice z (at - length a) s"
  by (simp add: splice_def add.commute)

lemma splice_here: "length s = length a \<Longrightarrow> splice (a @ z) 0 s = s @ z"
  by (simp add: splice_def)

lemma splice_whole: "length s = length b \<Longrightarrow> splice b 0 s = s"
  by (simp add: splice_def)

lemma splice_Cons: "0 < at \<Longrightarrow> splice (x # z) at s = x # splice z (at - 1) s"
  using splice_skip [of "[x]" at z s] by simp

lemma splice_Cons0: "splice (x # z) 0 [s] = s # z"
  using splice_here [of "[s]" "[x]" z] by simp

lemma zeros_1 [simp]: "zeros (Suc 0) = [0]"
  by (simp add: zeros_def)

lemmas splice_fields = splice_skip splice_here splice_whole splice_Cons splice_Cons0

lemma unat_u32_of_nat: "n < 2 ^ 32 \<Longrightarrow> unat (of_nat n :: u32) = n"
  by (simp add: unat_of_nat)

section \<open>Directory records\<close>

lemma length_dirRecordTime [simp]: "length (dirRecordTime t) = 7"
  by (simp add: dirRecordTime_def)

text \<open>The fields of a record, in order.\<close>

definition record_fields :: "gotime \<Rightarrow> byte list \<Rightarrow> u32 \<Rightarrow> u32 \<Rightarrow> bool \<Rightarrow> byte list" where
  "record_fields t ident lba sz dirFlag =
     [byte_of_nat (dirRecordLen (length ident))] @ [0] @ putBoth32 lba @ putBoth32 sz @ dirRecordTime t
     @ [if dirFlag then flagDirectory else 0] @ zeros 2 @ putBoth16 1 @ [byte_of_nat (length ident)]
     @ ident @ zeros (dirRecordLen (length ident) - 33 - length ident)"

lemma dirRecordLen_bounds: "33 + n \<le> dirRecordLen n" "dirRecordLen n \<le> 34 + n"
  by (simp_all add: dirRecordLen_def dirRecordHeaderLen_def)

lemma dirRecord_bytes_fields: "dirRecord_bytes t ident lba sz f = record_fields t ident lba sz f"
proof -
  let ?n = "length ident" and ?r = "dirRecordLen (length ident)"
  have n: "?r = 1 + (1 + (8 + (8 + (7 + (1 + (2 + (4 + (1 + (?n + (?r - 33 - ?n))))))))))"
    using dirRecordLen_bounds [of ?n] by simp
  have r: "replicate ?r 0 = zeros 1 @ zeros 1 @ zeros 8 @ zeros 8 @ zeros 7 @ zeros 1 @ zeros 2
      @ zeros 4 @ zeros 1 @ zeros ?n @ zeros (?r - 33 - ?n)"
    unfolding zeros_def [symmetric] by (subst n) (simp only: zeros_add)
  show ?thesis
    unfolding dirRecord_bytes_def Let_def r record_fields_def
    by (simp add: update_splice splice_fields)
qed

lemma length_record_fields: "length (record_fields t ident lba sz f) = dirRecordLen (length ident)"
  using dirRecordLen_bounds [of "length ident"] by (simp add: record_fields_def)

text \<open>The record the reader makes of it.\<close>

definition written :: "byte list \<Rightarrow> u32 \<Rightarrow> u32 \<Rightarrow> bool \<Rightarrow> dirRecord" where
  "written ident lba sz f =
     \<lparr>dr_Length = byte_of_nat (dirRecordLen (length ident)), dr_ExtentLBA = lba, dr_Size = sz,
      dr_Flags = (if f then flagDirectory else 0), dr_rawName = ident, dr_Name = cleanName ident,
      dr_sysUse = [], dr_extents = None\<rparr>"

lemma record_fields_parse:
  assumes "length ident \<le> 221"
  shows "record_ok (record_fields t ident lba sz f @ rest)"
    "record_at (record_fields t ident lba sz f @ rest) = written ident lba sz f"
    "unat ((record_fields t ident lba sz f @ rest) ! 0) = dirRecordLen (length ident)"
proof -
  let ?n = "length ident" and ?r = "dirRecordLen (length ident)"
  let ?b = "record_fields t ident lba sz f @ rest"
  have r: "?r < 256" "33 + ?n \<le> ?r" using dirRecordLen_bounds [of ?n] assms by simp_all
  have b0: "unat (?b ! 0) = ?r" using r(1) by (simp add: record_fields_def)
  have b32: "unat (?b ! 32) = ?n" using assms by (simp add: record_fields_def nth_append)
  have len: "?r \<le> length ?b" by (simp add: length_record_fields)
  show "record_ok ?b"
    using r len b0 b32 by (auto simp: record_ok_def record_fields_def)
  show "unat (?b ! 0) = ?r" by (rule b0)
  have d2: "projr (le32 (drop 2 ?b)) = lba" by (simp add: record_fields_def)
  have d10: "projr (le32 (drop 10 ?b)) = sz" by (simp add: record_fields_def)
  have b25: "?b ! 25 = (if f then flagDirectory else 0)" by (simp add: record_fields_def nth_append)
  have nm: "take ?n (drop 33 ?b) = ident" by (simp add: record_fields_def)
  have s: "33 + ?n + (if even ?n then 1 else 0) = ?r"
    by (simp add: dirRecordLen_def dirRecordHeaderLen_def even_iff_mod_2_eq_zero)
  have su: "drop ?r (take ?r ?b) = []" by simp
  have hd: "?b ! 0 = byte_of_nat ?r" by (simp add: record_fields_def)
  show "record_at ?b = written ident lba sz f"
    unfolding record_at_def Let_def b0 b32 d2 d10 b25 nm s hd written_def using r(1) by simp
qed

lemma parse_dirRecord_bytes:
  "length ident \<le> 221 \<Longrightarrow>
   parseDirRecord (dirRecord_bytes t ident lba sz f @ rest) = Inr (written ident lba sz f, dirRecordLen (length ident))"
  using parseDirRecord_ok record_fields_parse [of ident t lba sz f rest]
  by (simp add: dirRecord_bytes_fields)

section \<open>A directory extent\<close>

text \<open>Where the records of a list end.\<close>

definition end_pos :: "nat \<Rightarrow> nat list \<Rightarrow> nat" where
  "end_pos pos lens = fold (\<lambda>l p. place_record p l + l) lens pos"

lemma end_pos_simps [simp]:
  "end_pos pos [] = pos" "end_pos pos (l # ls) = end_pos (place_record pos l + l) ls"
  by (simp_all add: end_pos_def)

lemma place_record_ge: "pos \<le> place_record pos l"
  using dividend_less_div_times [of sectorSize pos]
  by (auto simp: place_record_def sectorSize_def)

lemma end_pos_ge: "pos \<le> end_pos pos ls"
proof (induction ls arbitrary: pos)
  case (Cons l ls)
  have "pos \<le> place_record pos l + l" using place_record_ge [of pos l] by simp
  also have "\<dots> \<le> end_pos (place_record pos l + l) ls" by (rule Cons.IH)
  finally show ?case by simp
qed simp

definition zero_from :: "nat \<Rightarrow> byte list \<Rightarrow> bool" where
  "zero_from pos buf \<longleftrightarrow> (\<forall>i. pos \<le> i \<longrightarrow> i < length buf \<longrightarrow> buf ! i = 0)"

lemma parse_records_zeros:
  assumes "zero_from pos data" "0 < bs"
  shows "parse_records bs data pos = Inr []"
  using assms
proof (induction "length data - pos" arbitrary: pos rule: less_induct)
  case less
  show ?case
  proof (cases "pos < length data")
    case False
    then show ?thesis by (simp add: parse_records_end)
  next
    case True
    then have z: "data ! pos = 0" using less.prems(1) by (simp add: zero_from_def)
    have gt: "pos < (pos div bs + 1) * bs"
      using dividend_less_div_times [OF less.prems(2), of pos] by (simp add: algebra_simps)
    have "zero_from ((pos div bs + 1) * bs) data"
      using less.prems(1) gt by (auto simp: zero_from_def)
    then show ?thesis
      using parse_records_skip [OF True z less.prems(2)] less.hyps [of "(pos div bs + 1) * bs"] True gt
        less.prems(2) by simp
  qed
qed

text \<open>
  Where the records of a directory extent start and how long they are, by the rule of the format:
  a zero length byte leads to the next sector.
\<close>

lemma next_sector: "pos < (pos div sectorSize + 1) * sectorSize"
  using dividend_less_div_times [of sectorSize pos] by (simp add: sectorSize_def)

function record_spans :: "byte list \<Rightarrow> nat \<Rightarrow> (nat \<times> nat) list" where
  "record_spans data pos =
     (if pos < length data then
        let l = unat (data ! pos) in
        if l = 0 then record_spans data ((pos div sectorSize + 1) * sectorSize)
        else (pos, l) # record_spans data (pos + l)
      else [])"
  by pat_completeness auto
termination
  by (relation "measure (\<lambda>(data, pos). length data - pos)") (use next_sector in \<open>auto simp: diff_less_mono2\<close>)

declare record_spans.simps [simp del]

definition within_sector :: "nat \<times> nat \<Rightarrow> bool" where
  "within_sector x \<longleftrightarrow> fst x div sectorSize = (fst x + snd x - 1) div sectorSize"

lemma place_record_within:
  assumes "0 < l" "l \<le> sectorSize"
  shows "within_sector (place_record pos l, l)"
proof (cases "pos div sectorSize = (pos + l - 1) div sectorSize")
  case True
  then show ?thesis by (simp add: place_record_def within_sector_def)
next
  case False
  let ?q = "pos div sectorSize + 1"
  have "?q * sectorSize + l - 1 = ?q * sectorSize + (l - 1)" using assms(1) by simp
  also have "\<dots> div sectorSize = ?q"
    using assms by (simp add: sectorSize_def)
  finally show ?thesis using False by (simp add: place_record_def within_sector_def sectorSize_def)
qed

lemma record_spans_zeros: "zero_from pos data \<Longrightarrow> record_spans data pos = []"
proof (induction data pos rule: record_spans.induct)
  case (1 data pos)
  have "zero_from ((pos div sectorSize + 1) * sectorSize) data"
    using "1.prems" next_sector [of pos] by (auto simp: zero_from_def)
  moreover have "pos < length data \<Longrightarrow> data ! pos = 0" using "1.prems" by (simp add: zero_from_def)
  ultimately show ?case using "1.IH"(1) [OF _ refl] by (subst record_spans.simps) (simp add: Let_def)
qed

text \<open>A record that parses on its own, whatever follows it.\<close>

definition clean_record :: "byte list \<Rightarrow> bool" where
  "clean_record r \<longleftrightarrow> record_ok r \<and> unat (r ! 0) = length r
     \<and> (\<forall>rest. record_ok (r @ rest) \<and> record_at (r @ rest) = record_at r)"

lemma clean_dirRecord_bytes:
  assumes "length ident \<le> 221"
  shows "clean_record (dirRecord_bytes t ident lba sz f)"
    "record_at (dirRecord_bytes t ident lba sz f) = written ident lba sz f"
  using record_fields_parse [OF assms, of t lba sz f] record_fields_parse [OF assms, of t lba sz f "[]"]
  by (simp_all add: clean_record_def dirRecord_bytes_fields length_record_fields)

text \<open>What later writes leave of a record: the record itself, and everything before it.\<close>

lemma kept_record:
  assumes "take (p + length r) buf' = take (p + length r) (splice buf p r)"
    and "length buf' = length buf" "p + length r \<le> length buf"
  shows "drop p buf' = r @ drop (p + length r) buf'"
    and "i < p \<Longrightarrow> buf' ! i = buf ! i"
    and "k \<le> p \<Longrightarrow> take k buf' = take k buf"
proof -
  have nth: "buf' ! i = splice buf p r ! i" if "i < p + length r" for i
    using that assms(1) nth_take [OF that, of buf'] nth_take [OF that, of "splice buf p r"] by simp
  have "take (length r) (drop p buf') = r"
    by (rule nth_equalityI) (use assms(2,3) nth in \<open>auto simp: nth_splice\<close>)
  then show "drop p buf' = r @ drop (p + length r) buf'"
    by (metis append_take_drop_id drop_drop add.commute)
  show before: "buf' ! i = buf ! i" if "i < p" for i
    using that nth [of i] assms(3) by (simp add: nth_splice)
  show "take k buf' = take k buf" if "k \<le> p"
    by (rule nth_equalityI) (use that assms(2,3) before in auto)
qed

text \<open>The gap before a record that did not fit in its sector is stepped over.\<close>

lemma skip_gap:
  assumes "place_record pos l < length data"
    and "pos < place_record pos l \<Longrightarrow> data ! pos = 0"
  shows "parse_records sectorSize data pos = parse_records sectorSize data (place_record pos l)"
    and "record_spans data pos = record_spans data (place_record pos l)"
proof -
  let ?p = "place_record pos l"
  have "parse_records sectorSize data pos = parse_records sectorSize data ?p
      \<and> record_spans data pos = record_spans data ?p"
  proof (cases "?p = pos")
    case False
    then have p: "?p = (pos div sectorSize + 1) * sectorSize" by (simp add: place_record_def split: if_splits)
    have "pos < ?p" using False place_record_ge [of pos l] by simp
    then have z: "data ! pos = 0" "pos < length data" using assms by simp_all
    then have "record_spans data pos = record_spans data ?p"
      unfolding p by (subst record_spans.simps) (simp add: Let_def)
    with z show ?thesis
      using parse_records_skip [of pos data sectorSize] p by (simp add: sectorSize_def)
  qed simp
  then show "parse_records sectorSize data pos = parse_records sectorSize data ?p"
    "record_spans data pos = record_spans data ?p" by simp_all
qed

lemma parse_clean_record:
  assumes "clean_record r" and drp: "drop p data = r @ drop (p + length r) data"
    and "parse_records sectorSize data (p + length r) = Inr out"
  shows "parse_records sectorSize data p = Inr (record_at r # out)"
    and "record_spans data p = (p, length r) # record_spans data (p + length r)"
    and "0 < length r" "length r \<le> sectorSize" "p < length data"
proof -
  have r: "r \<noteq> []" "unat (r ! 0) = length r"
    using assms(1) by (auto simp: clean_record_def record_ok_def)
  have ok: "record_ok (drop p data)" "record_at (drop p data) = record_at r"
    using assms(1) unfolding drp clean_record_def by blast+
  show len: "0 < length r" "length r \<le> sectorSize"
    using r(1,2) byte_bound [of "r ! 0"] by (simp_all add: sectorSize_def)
  show plt: "p < length data" using drp r(1) by (cases "p < length data") auto
  then have hd: "data ! p = r ! 0"
    using drp r(1) by (metis append_Cons hd_drop_conv_nth list.collapse list.sel(1) nth_Cons_0)
  show "parse_records sectorSize data p = Inr (record_at r # out)"
    using parse_records_step [OF ok(1)] ok(2) r(2) assms(3) by (simp add: hd)
  show "record_spans data p = (p, length r) # record_spans data (p + length r)"
    using plt r(2) len by (subst record_spans.simps) (simp add: hd Let_def)
qed

lemma emit_all_parse:
  assumes "list_all clean_record rs" "zero_from pos buf" "end_pos pos (map length rs) \<le> length buf"
  shows "\<exists>buf'. emit_all rs (buf, pos) = Inr (buf', end_pos pos (map length rs))
    \<and> length buf' = length buf \<and> take pos buf' = take pos buf
    \<and> parse_records sectorSize buf' pos = Inr (map record_at rs)
    \<and> list_all within_sector (record_spans buf' pos) \<and> length (record_spans buf' pos) = length rs"
  using assms
proof (induction rs arbitrary: buf pos)
  case Nil
  then show ?case by (simp add: parse_records_zeros record_spans_zeros sectorSize_def)
next
  case (Cons r rs)
  let ?p = "place_record pos (length r)"
  let ?q = "?p + length r"
  let ?b = "splice buf ?p r"
  have r: "clean_record r" "list_all clean_record rs" using Cons.prems(1) by simp_all
  have qe: "?q \<le> length buf" using Cons.prems(3) end_pos_ge [of ?q "map length rs"] by simp
  have pge: "pos \<le> ?p" by (rule place_record_ge)
  have zb: "zero_from ?q ?b"
    using Cons.prems(2) pge by (auto simp: zero_from_def nth_splice)
  obtain buf' where b': "emit_all rs (?b, ?q) = Inr (buf', end_pos ?q (map length rs))"
      "length buf' = length ?b" "take ?q buf' = take ?q ?b"
      "parse_records sectorSize buf' ?q = Inr (map record_at rs)"
      "list_all within_sector (record_spans buf' ?q)" "length (record_spans buf' ?q) = length rs"
    using Cons.IH [OF r(2) zb] Cons.prems(3) by auto
  have len: "length buf' = length buf" using b'(2) by simp
  note kept = kept_record [OF b'(3) len qe]
  note here = parse_clean_record [OF r(1) kept(1) b'(4)]
  have "buf' ! pos = 0" if "pos < ?p"
    using kept(2) [OF that] that here(5) len Cons.prems(2) by (simp add: zero_from_def)
  note gap = skip_gap [OF here(5) this]
  have "emit_all (r # rs) (buf, pos) = Inr (buf', end_pos pos (map length (r # rs)))"
    using qe b'(1) by (simp add: emit_def Let_def)
  then show ?case
    using len kept(3) [OF pge] here(1,2) gap b'(5,6) place_record_within [OF here(3,4)] by auto
qed

lemma merge_single: "list_all (\<lambda>r. \<not> multiExt r) rs \<Longrightarrow> mergeMultiExtent rs = Inr rs"
  by (induction rs) simp_all

lemma written_flags [simp]:
  "\<not> multiExt (written ident lba sz f)" "isDir (written ident lba sz f) = f"
  by (simp_all add: written_def multiExt_def isDir_def flagDirectory_def flagMultiExt_def)

lemma fold_add_record:
  "fold (\<lambda>c. add_record (length (f c))) cs pos = end_pos pos (map (\<lambda>c. dirRecordLen (length (f c))) cs)"
  by (induction cs arbitrary: pos) (simp_all add: add_record_def Let_def)

text \<open>The bytes the records of a directory take, and the records the reader finds.\<close>

definition extent_bytes_needed :: "heap \<Rightarrow> addr \<Rightarrow> nat" where
  "extent_bytes_needed h d =
     end_pos 0 (dirRecordLen 1 # dirRecordLen 1
       # map (\<lambda>c. dirRecordLen (length (n_id (h ! c)))) (sortedChildren h d))"

definition node_record :: "heap \<Rightarrow> addr \<Rightarrow> dirRecord" where
  "node_record h c = written (n_id (h ! c)) (n_extentLBA (h ! c)) (n_extentLen (h ! c)) (n_isDir (h ! c))"

definition special_record :: "byte \<Rightarrow> node \<Rightarrow> dirRecord" where
  "special_record x nd = written [x] (n_extentLBA nd) (n_extentLen nd) True"

lemma directoryExtentSize_eq:
  "directoryExtentSize h d =
     of_nat ((extent_bytes_needed h d + sectorSize - 1) div sectorSize * sectorSize)"
  by (simp add: directoryExtentSize_def extent_bytes_needed_def fold_add_record add_record_def Let_def)

lemma round_up_sector:
  "n \<le> (n + sectorSize - 1) div sectorSize * sectorSize" "(n + sectorSize - 1) div sectorSize * sectorSize < n + sectorSize"
  by (simp_all add: sectorSize_def)

lemma directoryExtent_parse:
  assumes ids: "\<And>c. c \<in> set (sortedChildren (b_heap b) d) \<Longrightarrow> length (n_id (b_heap b ! c)) \<le> 221"
    and len: "n_extentLen (b_heap b ! d) = directoryExtentSize (b_heap b) d"
    and small: "extent_bytes_needed (b_heap b) d + sectorSize \<le> 2 ^ 32"
    and p: "p = (case n_parent (b_heap b ! d) of None \<Rightarrow> d | Some p \<Rightarrow> p)"
  shows "\<exists>data. directoryExtent b d = Inr data \<and> length data = unat (n_extentLen (b_heap b ! d))
    \<and> res_bind (parse_records sectorSize data 0) mergeMultiExtent
        = Inr (special_record 0 (b_heap b ! d) # special_record 1 (b_heap b ! p)
               # map (node_record (b_heap b)) (sortedChildren (b_heap b) d))
    \<and> list_all within_sector (record_spans data 0)
    \<and> length (record_spans data 0) = length (sortedChildren (b_heap b) d) + 2"
proof -
  let ?h = "b_heap b" and ?t = "b_created b"
  let ?need = "extent_bytes_needed ?h d"
  let ?recs = "dirRecord_bytes ?t [0x00] (n_extentLBA (?h ! d)) (n_extentLen (?h ! d)) True
     # dirRecord_bytes ?t [0x01] (n_extentLBA (?h ! p)) (n_extentLen (?h ! p)) True
     # map (\<lambda>c. dirRecord_bytes ?t (n_id (?h ! c)) (n_extentLBA (?h ! c)) (n_extentLen (?h ! c)) (n_isDir (?h ! c)))
         (sortedChildren ?h d)"
  let ?buf = "replicate (unat (n_extentLen (?h ! d))) (0 :: byte)"
  have "(?need + sectorSize - 1) div sectorSize * sectorSize < 2 ^ 32"
    using round_up_sector(2) [of ?need] small by linarith
  then have ul: "unat (n_extentLen (?h ! d)) = (?need + sectorSize - 1) div sectorSize * sectorSize"
    unfolding len directoryExtentSize_eq by (rule unat_u32_of_nat)
  have clean: "list_all clean_record ?recs"
    using ids by (auto simp: list_all_iff clean_dirRecord_bytes)
  have lens: "end_pos 0 (map length ?recs) = ?need"
    by (simp add: extent_bytes_needed_def dirRecord_bytes_fields length_record_fields comp_def)
  have at: "map record_at ?recs = special_record 0 (?h ! d) # special_record 1 (?h ! p)
      # map (node_record ?h) (sortedChildren ?h d)"
    using ids by (auto simp: clean_dirRecord_bytes special_record_def node_record_def)
  have "zero_from 0 ?buf" by (simp add: zero_from_def)
  moreover have "end_pos 0 (map length ?recs) \<le> length ?buf"
    unfolding lens using round_up_sector(1) [of ?need] ul by simp
  ultimately obtain data where data: "emit_all ?recs (?buf, 0) = Inr (data, end_pos 0 (map length ?recs))"
      "length data = length ?buf" "parse_records sectorSize data 0 = Inr (map record_at ?recs)"
      "list_all within_sector (record_spans data 0)" "length (record_spans data 0) = length ?recs"
    using emit_all_parse [OF clean, of 0 ?buf] by blast
  have ext: "directoryExtent b d = Inr data"
    unfolding directoryExtent_def Let_def p [symmetric] using data(1) by simp
  have m: "mergeMultiExtent (map record_at ?recs) = Inr (map record_at ?recs)"
    by (rule merge_single, unfold at) (simp add: special_record_def node_record_def list_all_iff)
  have "res_bind (parse_records sectorSize data 0) mergeMultiExtent = Inr (map record_at ?recs)"
    by (simp only: data(3) res_bind_simps m)
  then have "res_bind (parse_records sectorSize data 0) mergeMultiExtent
        = Inr (special_record 0 (b_heap b ! d) # special_record 1 (b_heap b ! p)
               # map (node_record (b_heap b)) (sortedChildren (b_heap b) d))"
    by (simp only: at)
  moreover have "length data = unat (n_extentLen (b_heap b ! d))" using data(2) by simp
  moreover have "length (record_spans data 0) = length (sortedChildren (b_heap b) d) + 2" using data(5) by simp
  ultimately show ?thesis using ext data(4) by blast
qed

section \<open>Volume descriptors\<close>

lemma length_blanks [simp]: "length (blanks n) = n"
  by (simp add: blanks_def)

lemma length_copyField [simp]: "length (copyField n s) = n"
  by (simp add: copyField_def)

lemma length_volumeTime [simp]: "length (volumeTime t) = 17"
  by (simp add: volumeTime_def Let_def)

lemma length_volumeTimeUnset [simp]: "length volumeTimeUnset = 17"
  by (simp add: volumeTimeUnset_def)

lemma length_standardID [simp]: "length standardID = 5"
  by (simp add: standardID_def)

definition pvd_fields :: "Builder \<Rightarrow> addr list \<Rightarrow> u32 \<Rightarrow> byte list" where
  "pvd_fields b dirs tot =
     (let root = b_heap b ! b_root b; ts = volumeTime (b_created b) in
      [vdTypePrimary] @ standardID @ [1] @ zeros 1 @ blanks 32 @ copyField 32 (volumeIdent (b_volumeID b))
      @ zeros 8 @ putBoth32 tot @ zeros 32 @ putBoth16 1 @ putBoth16 1 @ putBoth16 (of_nat sectorSize)
      @ putBoth32 (of_nat (pathTableSize (b_heap b) dirs)) @ putLE32 pathTableLLBA @ zeros 4
      @ putBE32 (b_pathTableMLBA b) @ zeros 4
      @ dirRecord_bytes (b_created b) [0x00] (n_extentLBA root) (n_extentLen root) True
      @ blanks 128 @ blanks 128 @ blanks 128 @ blanks 128 @ blanks 37 @ blanks 37 @ blanks 37
      @ ts @ ts @ volumeTimeUnset @ volumeTimeUnset @ [1] @ zeros 1166)"

lemma zeros_2048:
  "zeros 2048 = zeros 1 @ zeros 5 @ zeros 1 @ zeros 1 @ zeros 32 @ zeros 32 @ zeros 8 @ zeros 8 @ zeros 32
     @ zeros 4 @ zeros 4 @ zeros 4 @ zeros 8 @ zeros 4 @ zeros 4 @ zeros 4 @ zeros 4 @ zeros 34
     @ zeros 128 @ zeros 128 @ zeros 128 @ zeros 128 @ zeros 37 @ zeros 37 @ zeros 37
     @ zeros 17 @ zeros 17 @ zeros 17 @ zeros 17 @ zeros 1 @ zeros 1166"
  by (simp only: zeros_add [symmetric]) simp

lemma length_dirRecord_bytes: "length (dirRecord_bytes t ident lba sz f) = dirRecordLen (length ident)"
  by (simp add: dirRecord_bytes_fields length_record_fields)

lemma length_root_record [simp]: "length (dirRecord_bytes t [x] lba sz f) = 34"
  by (simp add: length_dirRecord_bytes dirRecordLen_def dirRecordHeaderLen_def)

lemma primaryVolumeDescriptor_fields:
  "primaryVolumeDescriptor b dirs = res_bind (totalSectors b dirs) (\<lambda>tot. Inr (pvd_fields b dirs tot))"
proof -
  have z: "replicate sectorSize (0 :: byte) = zeros 2048" by (simp add: zeros_def sectorSize_def)
  show ?thesis
    unfolding primaryVolumeDescriptor_def pvd_fields_def Let_def z zeros_2048
    by (rule arg_cong [where f = "res_bind (totalSectors b dirs)"], rule ext)
      (simp add: update_splice splice_fields)
qed

lemma volumeIdent_chars: "volumeIdent s \<noteq> [] \<and> length (volumeIdent s) \<le> 32 \<and> list_all dchar (volumeIdent s)"
  using clamp_sanitize [of s 32]
  by (auto simp: volumeIdent_def Let_def length_clampField str_def dchar_def)

lemma trimSpace_copyField:
  assumes "length s \<le> n" "list_all dchar s"
  shows "trimSpace (copyField n s) = s"
proof -
  have "copyField n s = s @ blanks (n - length s)"
    using assms(1) by (simp add: copyField_def splice_def blanks_def)
  moreover have "dropWhile (\<lambda>b. b \<in> set [0x20, 0x00]) (rev s) = rev s"
  proof (cases "rev s")
    case (Cons c cs)
    then have "c \<in> set s" by (metis list.set_intros(1) set_rev)
    then have "dchar c" using assms(2) by (auto simp: list_all_iff)
    then show ?thesis using Cons by (auto simp: dchar_def)
  qed simp
  ultimately show ?thesis
    by (simp add: trimSpace_def trim_right_def blanks_def dropWhile_append)
qed

text \<open>The volume the reader makes of the primary descriptor.\<close>

definition written_volume :: "Builder \<Rightarrow> u32 \<Rightarrow> Volume \<Rightarrow> Volume" where
  "written_volume b tot v =
     v\<lparr>v_VolumeID := volumeIdent (b_volumeID b), v_SpaceSize := tot, v_BlockSize := 2048,
       v_pvdRoot := special_record 0 (b_heap b ! b_root b)\<rparr>"

lemma length_pvd_fields: "length (pvd_fields b dirs tot) = 2048"
  by (simp add: pvd_fields_def Let_def)

lemma descriptor_step_pvd:
  "descriptor_step (pvd_fields b dirs tot) v h = Inr (written_volume b tot v, True, False)"
proof -
  let ?p = "pvd_fields b dirs tot"
  note len = length_pvd_fields [of b dirs tot]
  have a: "subslice ?p 1 6 = Inr standardID" "index ?p 0 = Inr vdTypePrimary"
    using len by (simp_all add: subslice_def index_def) (simp_all add: pvd_fields_def Let_def)
  have vid: "subslice ?p 40 72 = Inr (copyField 32 (volumeIdent (b_volumeID b)))"
    using len by (simp add: subslice_def) (simp add: pvd_fields_def Let_def)
  have spc: "res_bind (slice_from ?p 80) le32 = Inr tot"
    using len by simp (simp add: pvd_fields_def Let_def)
  have bs: "res_bind (slice_from ?p 128) le16 = Inr 2048"
    using len by simp (simp add: pvd_fields_def Let_def sectorSize_def)
  obtain rest where d: "drop 156 ?p = dirRecord_bytes (b_created b) [0x00] (n_extentLBA (b_heap b ! b_root b))
      (n_extentLen (b_heap b ! b_root b)) True @ rest"
    by (simp add: pvd_fields_def Let_def)
  have root: "slice_from ?p 156 = Inr (drop 156 ?p)" using len by simp
  have pr: "parseDirRecord (drop 156 ?p)
      = Inr (special_record 0 (b_heap b ! b_root b), dirRecordLen (length [0x00 :: byte]))"
    unfolding d special_record_def by (rule parse_dirRecord_bytes) simp
  have ts: "trimSpace (copyField 32 (volumeIdent (b_volumeID b))) = volumeIdent (b_volumeID b)"
    using trimSpace_copyField volumeIdent_chars by blast
  have "decode_primary ?p v = Inr (written_volume b tot v)"
    unfolding decode_primary_def Let_def vid spc bs root
    by (simp add: pr ts written_volume_def)
  then show ?thesis
    unfolding descriptor_step_def a by simp
qed

definition terminator_fields :: "byte list" where
  "terminator_fields = [vdTypeTerminator] @ standardID @ [1] @ zeros 2041"

lemma terminator_eq: "volumeDescriptorTerminator = terminator_fields"
proof -
  have "replicate sectorSize (0 :: byte) = zeros (1 + (5 + (1 + 2041)))"
    by (simp add: zeros_def sectorSize_def)
  also have "\<dots> = zeros 1 @ zeros 5 @ zeros 1 @ zeros 2041" by (simp only: zeros_add)
  finally have z: "replicate sectorSize (0 :: byte) = zeros 1 @ zeros 5 @ zeros 1 @ zeros 2041" .
  show ?thesis
    unfolding volumeDescriptorTerminator_def z terminator_fields_def
    by (simp add: update_splice splice_fields)
qed

lemma length_terminator: "length volumeDescriptorTerminator = 2048"
  by (simp add: terminator_eq terminator_fields_def)

lemma descriptor_step_terminator:
  "descriptor_step volumeDescriptorTerminator v True = Inr (v, True, True)"
proof -
  have "subslice terminator_fields 1 6 = Inr standardID" "index terminator_fields 0 = Inr vdTypeTerminator"
    by (simp_all add: subslice_def index_def terminator_fields_def)
  then show ?thesis
    unfolding terminator_eq descriptor_step_def
    by (simp add: vdTypeTerminator_def vdTypePrimary_def vdTypeSupplement_def)
qed

section \<open>Properties\<close>

text \<open>
  A directory record the Builder writes is read back by \<^verbatim>\<open>parseDirRecord\<close>, with the
  identifier, extent, length and directory flag it was given, whatever follows it.
\<close>

theorem dirRecord_roundtrip:
  assumes "length ident \<le> 221"
  shows "parseDirRecord (dirRecord_bytes t ident lba sz f @ rest)
    = Inr (written ident lba sz f, length (dirRecord_bytes t ident lba sz f))"
  using parse_dirRecord_bytes [OF assms] by (simp add: length_dirRecord_bytes)

theorem dirRecord_roundtrip_witness:
  "parseDirRecord (dirRecord_bytes sample_time (str ''A.B;1'') 7 9 False @ [])
   = Inr (written (str ''A.B;1'') 7 9 False, 38)"
  using dirRecord_roundtrip [of "str ''A.B;1''" sample_time 7 9 False "[]"]
  by (simp add: length_dirRecord_bytes dirRecordLen_def dirRecordHeaderLen_def)

text \<open>
  C10: a directory extent the Builder writes is read back record by record: the extent has the
  length the layout computed, the reader finds the current and the parent directory and then
  the children in order, and no record crosses the boundary of a sector (ECMA-119 6.8.1.1).
\<close>

theorem directoryExtent_roundtrip:
  assumes "\<forall>c \<in> set (sortedChildren (b_heap b) d). length (n_id (b_heap b ! c)) \<le> 221"
    and "n_extentLen (b_heap b ! d) = directoryExtentSize (b_heap b) d"
    and "extent_bytes_needed (b_heap b) d + sectorSize \<le> 2 ^ 32"
    and "p = (case n_parent (b_heap b ! d) of None \<Rightarrow> d | Some p \<Rightarrow> p)"
  shows "\<exists>data. directoryExtent b d = Inr data \<and> length data = unat (n_extentLen (b_heap b ! d))
    \<and> res_bind (parse_records sectorSize data 0) mergeMultiExtent
        = Inr (special_record 0 (b_heap b ! d) # special_record 1 (b_heap b ! p)
               # map (node_record (b_heap b)) (sortedChildren (b_heap b) d))
    \<and> list_all within_sector (record_spans data 0)
    \<and> length (record_spans data 0) = length (sortedChildren (b_heap b) d) + 2"
  by (rule directoryExtent_parse) (use assms in auto)

definition sample_builder :: Builder where
  "sample_builder =
     (NewBuilder [] sample_time)\<lparr>b_heap := [(new_dir [slash])\<lparr>n_extentLen := 2048\<rparr>]\<rparr>"

theorem directoryExtent_roundtrip_witness:
  "\<exists>data. directoryExtent sample_builder 0 = Inr data \<and> length data = 2048"
proof -
  have cs: "sortedChildren (b_heap sample_builder) 0 = []"
    by (simp add: sortedChildren_def sample_builder_def sort_by_def)
  have need: "extent_bytes_needed (b_heap sample_builder) 0 = 68"
    by (simp add: extent_bytes_needed_def cs place_record_def sectorSize_def dirRecordLen_def
        dirRecordHeaderLen_def)
  have sz: "n_extentLen (b_heap sample_builder ! 0) = directoryExtentSize (b_heap sample_builder) 0"
    unfolding directoryExtentSize_eq need by (simp add: sample_builder_def sectorSize_def)
  have "n_extentLen (b_heap sample_builder ! 0) = 2048" by (simp add: sample_builder_def)
  with directoryExtent_roundtrip [of sample_builder 0, OF _ sz _ refl] show ?thesis
    by (auto simp: cs need sectorSize_def)
qed

text \<open>
  The descriptor set the Builder writes is one the reader accepts: the primary
  descriptor yields the sanitised volume identifier, the total number of sectors, blocks of
  2048 bytes and the root directory, and the terminator ends the scan.
\<close>

theorem descriptors_roundtrip:
  assumes "primaryVolumeDescriptor b dirs = Inr pvd"
  shows "\<exists>tot. totalSectors b dirs = Inr tot
    \<and> scan (pvd # volumeDescriptorTerminator # rest) zero_Volume False
        = Inr (Some (written_volume b tot zero_Volume))"
proof -
  obtain tot where "totalSectors b dirs = Inr tot" "pvd = pvd_fields b dirs tot"
    using assms by (auto simp: primaryVolumeDescriptor_fields res_inv)
  then show ?thesis by (simp add: descriptor_step_pvd descriptor_step_terminator)
qed

theorem descriptors_roundtrip_witness:
  "\<exists>pvd v. primaryVolumeDescriptor sample_builder [0] = Inr pvd
     \<and> scan [pvd, volumeDescriptorTerminator] zero_Volume False = Inr (Some v) \<and> v_BlockSize v = 2048"
proof -
  have "sortedChildren (b_heap sample_builder) 0 = []"
    by (simp add: sortedChildren_def sample_builder_def sort_by_def)
  then obtain tot where "totalSectors sample_builder [0] = Inr tot"
    by (auto simp: totalSectors_def Let_def sample_builder_def NewBuilder_def)
  then have p: "primaryVolumeDescriptor sample_builder [0] = Inr (pvd_fields sample_builder [0] tot)"
    by (simp add: primaryVolumeDescriptor_fields)
  from descriptors_roundtrip [OF p, of "[]"] p show ?thesis
    by (auto simp: written_volume_def)
qed

end
