(* ===== verification/Placement.thy ===== *)
theory Placement
  imports Extents RoundTrip
begin

text \<open>
  Where the layout puts things, in unbounded numbers.  The 32-bit arithmetic of the source
  wraps; \<open>fits\<close> says that nothing it computes reaches that bound.  Then the extents follow
  each other without gaps, do not overlap, and end where the volume descriptor says.
\<close>

section \<open>Unbounded sizes\<close>

definition nsec :: "nat \<Rightarrow> nat" where
  "nsec n = (n + sectorSize - 1) div sectorSize"

definition item_bytes :: "heap \<Rightarrow> addr \<Rightarrow> nat" where
  "item_bytes h x =
     (if n_isDir (h ! x) then nsec (extent_bytes_needed h x) * sectorSize else length (n_data (h ! x)))"

definition bytes_sectors :: "heap \<Rightarrow> addr list \<Rightarrow> nat" where
  "bytes_sectors h xs = sum_list (map (\<lambda>x. nsec (item_bytes h x)) xs)"

definition first_extent :: "heap \<Rightarrow> addr list \<Rightarrow> nat" where
  "first_extent h dirs = 18 + 2 * nsec (pathTableSize h dirs)"

definition image_sectors :: "heap \<Rightarrow> addr list \<Rightarrow> nat" where
  "image_sectors h dirs = first_extent h dirs + bytes_sectors h (items_of h dirs)"

definition fits :: "heap \<Rightarrow> addr list \<Rightarrow> bool" where
  "fits h dirs \<longleftrightarrow>
     image_sectors h dirs < 2 ^ 32 \<and> pathTableSize h dirs + sectorSize \<le> 2 ^ 32
     \<and> (\<forall>x \<in> set (items_of h dirs). item_bytes h x + sectorSize \<le> 2 ^ 32)"

lemma u32_of_unat: "unat (w :: u32) = n \<Longrightarrow> w = of_nat n"
  by auto

lemma planned_len_item: "planned_len h x = of_nat (item_bytes h x)"
  by (simp add: planned_len_def item_bytes_def nsec_def directoryExtentSize_eq)

lemma sectorsFor_nsec:
  assumes "n + sectorSize \<le> 2 ^ 32"
  shows "sectorsFor (of_nat n) = of_nat (nsec n)"
proof -
  have "(of_nat n + of_nat sectorSize - 1 :: u32) = of_nat (n + 2047)" by (simp add: sectorSize_def)
  moreover have "unat (of_nat (n + 2047) :: u32) = n + 2047"
    using assms by (intro unat_u32_of_nat) (simp add: sectorSize_def)
  moreover have "unat (of_nat sectorSize :: u32) = 2048" by (simp add: sectorSize_def)
  ultimately have "unat (sectorsFor (of_nat n)) = (n + 2047) div 2048"
    unfolding sectorsFor_def by (simp only: unat_div)
  also have "\<dots> = nsec n" by (simp add: nsec_def sectorSize_def add.commute)
  finally show ?thesis by (rule u32_of_unat)
qed

lemma sectors_of_nat:
  "\<forall>x \<in> set xs. item_bytes h x + sectorSize \<le> 2 ^ 32 \<Longrightarrow>
   sectors_of (planned_len h) xs = of_nat (bytes_sectors h xs)"
  by (induction xs) (simp_all add: sectors_of_def bytes_sectors_def planned_len_item sectorsFor_nsec)

lemma bytes_sectors_append: "bytes_sectors h (xs @ ys) = bytes_sectors h xs + bytes_sectors h ys"
  by (simp add: bytes_sectors_def)

lemma bytes_sectors_nth:
  "i < length xs \<Longrightarrow> bytes_sectors h (take (Suc i) xs) = bytes_sectors h (take i xs) + nsec (item_bytes h (xs ! i))"
  by (simp add: bytes_sectors_def take_Suc_conv_app_nth)

lemma bytes_sectors_take_mono: "i \<le> j \<Longrightarrow> bytes_sectors h (take i xs) \<le> bytes_sectors h (take j xs)"
proof -
  assume "i \<le> j"
  then have "take j xs = take i xs @ take (j - i) (drop i xs)" by (metis le_add_diff_inverse take_add)
  then show ?thesis by (simp add: bytes_sectors_append)
qed

lemma bytes_sectors_take_le: "bytes_sectors h (take i xs) \<le> bytes_sectors h xs"
  using bytes_sectors_take_mono [of i "max i (length xs)" h xs] by simp

section \<open>The extents\<close>

text \<open>The fields of a laid-out heap, with the words read as numbers.\<close>

lemma laid_out_numbers:
  assumes lo: "laid_out b b' dirs" and fit: "fits (b_heap b') dirs" and i: "i < length (items_of (b_heap b') dirs)"
  shows "unat (n_extentLen (b_heap b' ! (items_of (b_heap b') dirs ! i))) = item_bytes (b_heap b') (items_of (b_heap b') dirs ! i)"
    "unat (n_extentLBA (b_heap b' ! (items_of (b_heap b') dirs ! i)))
       = first_extent (b_heap b') dirs + bytes_sectors (b_heap b') (take i (items_of (b_heap b') dirs))"
proof -
  let ?h = "b_heap b'" and ?items = "items_of (b_heap b') dirs"
  have x: "?items ! i \<in> set ?items" using i by simp
  have small: "item_bytes ?h x + sectorSize \<le> 2 ^ 32" if "x \<in> set ?items" for x
    using fit that by (simp add: fits_def)
  have len: "n_extentLen (?h ! (?items ! i)) = planned_len ?h (?items ! i)"
    and lba: "n_extentLBA (?h ! (?items ! i)) = pathTableLLBA + table_sectors ?h dirs + table_sectors ?h dirs
        + sectors_of (planned_len ?h) (take i ?items)"
    using lo i by (simp_all add: laid_out_def Let_def)
  show "unat (n_extentLen (?h ! (?items ! i))) = item_bytes ?h (?items ! i)"
    unfolding len planned_len_item using small [OF x] by (intro unat_u32_of_nat) (simp add: sectorSize_def)
  have tab: "table_sectors ?h dirs = of_nat (nsec (pathTableSize ?h dirs))"
    unfolding table_sectors_def using fit by (intro sectorsFor_nsec) (simp add: fits_def)
  have "sectors_of (planned_len ?h) (take i ?items) = of_nat (bytes_sectors ?h (take i ?items))"
    using small by (intro sectors_of_nat) (auto dest: in_set_takeD)
  then have "n_extentLBA (?h ! (?items ! i))
      = of_nat (first_extent ?h dirs + bytes_sectors ?h (take i ?items))"
    unfolding lba tab by (simp add: first_extent_def pathTableLLBA_def)
  moreover have "first_extent ?h dirs + bytes_sectors ?h (take i ?items) < 2 ^ 32"
    using fit bytes_sectors_take_le [of ?h i ?items] by (simp add: fits_def image_sectors_def)
  ultimately show "unat (n_extentLBA (?h ! (?items ! i)))
       = first_extent ?h dirs + bytes_sectors ?h (take i ?items)"
    by (simp only: unat_u32_of_nat)
qed

text \<open>The blocks an extent occupies.\<close>

definition extent_first :: "node \<Rightarrow> nat" where "extent_first nd = unat (n_extentLBA nd)"
definition extent_last :: "node \<Rightarrow> nat" where "extent_last nd = extent_first nd + nsec (unat (n_extentLen nd))"

lemma extent_positions:
  assumes "laid_out b b' dirs" "fits (b_heap b') dirs" "i < length (items_of (b_heap b') dirs)"
  shows "extent_first (b_heap b' ! (items_of (b_heap b') dirs ! i))
      = first_extent (b_heap b') dirs + bytes_sectors (b_heap b') (take i (items_of (b_heap b') dirs))"
    "extent_last (b_heap b' ! (items_of (b_heap b') dirs ! i))
      = first_extent (b_heap b') dirs + bytes_sectors (b_heap b') (take (Suc i) (items_of (b_heap b') dirs))"
  using laid_out_numbers [OF assms] bytes_sectors_nth [OF assms(3), of "b_heap b'"]
  by (simp_all add: extent_first_def extent_last_def)

lemma extent_order:
  assumes "laid_out b b' dirs" "fits (b_heap b') dirs" "i < j" "j < length (items_of (b_heap b') dirs)"
  shows "extent_last (b_heap b' ! (items_of (b_heap b') dirs ! i)) \<le> extent_first (b_heap b' ! (items_of (b_heap b') dirs ! j))"
  using extent_positions [OF assms(1,2)] assms(3,4)
    bytes_sectors_take_mono [of "Suc i" j "b_heap b'" "items_of (b_heap b') dirs"] by simp

lemma laid_out_facts:
  assumes "laid_out b b' dirs"
  shows "wf_heap (b_heap b')" "same_tree (b_heap b) (b_heap b')" "orderedDirs (b_heap b') 0 = Inr dirs"
    "b_root b' = b_root b" "b_volumeID b' = b_volumeID b" "b_created b' = b_created b"
    "b_pathTableMLBA b' = pathTableLLBA + table_sectors (b_heap b') dirs"
    "n_parent (b_heap b' ! 0) = None" "n_id (b_heap b' ! 0) = []"
    "reachable (b_heap b') x \<Longrightarrow> ids_ok (b_heap b') x"
    "set (items_of (b_heap b') dirs) = {x. reachable (b_heap b') x}"
    "distinct (items_of (b_heap b') dirs)"
    "set dirs \<subseteq> {d. d < length (b_heap b') \<and> n_isDir (b_heap b' ! d)}"
proof -
  obtain g m where b': "b' = b\<lparr>b_heap := g, b_pathTableMLBA := m\<rparr>"
    using assms unfolding laid_out_def Let_def by metis
  then show "b_root b' = b_root b" "b_volumeID b' = b_volumeID b" "b_created b' = b_created b"
    by simp_all
  show wf: "wf_heap (b_heap b')" and ord: "orderedDirs (b_heap b') 0 = Inr dirs"
    and "same_tree (b_heap b) (b_heap b')" "n_parent (b_heap b' ! 0) = None" "n_id (b_heap b' ! 0) = []"
    and "reachable (b_heap b') x \<Longrightarrow> ids_ok (b_heap b') x"
    using assms by (simp_all add: laid_out_def Let_def)
  have "b_pathTableMLBA b' = b_pathTableMLBA (b\<lparr>b_heap := b_heap b', b_pathTableMLBA := pathTableLLBA + table_sectors (b_heap b') dirs\<rparr>)"
    using assms unfolding laid_out_def Let_def by metis
  then show "b_pathTableMLBA b' = pathTableLLBA + table_sectors (b_heap b') dirs" by simp
  show "set (items_of (b_heap b') dirs) = {x. reachable (b_heap b') x}" "distinct (items_of (b_heap b') dirs)"
    "set dirs \<subseteq> {d. d < length (b_heap b') \<and> n_isDir (b_heap b' ! d)}"
    using items_distinct [OF wf ord] by simp_all
qed

section \<open>The size of the volume\<close>

lemma extent_end_fold:
  assumes lo: "laid_out b b' dirs" and fit: "fits (b_heap b') dirs"
    and n: "n \<le> length (items_of (b_heap b') dirs)"
  shows "fold (\<lambda>x. extent_end (n_extentLBA (b_heap b' ! x)) (n_extentLen (b_heap b' ! x)))
      (take n (items_of (b_heap b') dirs)) (of_nat (first_extent (b_heap b') dirs))
    = of_nat (first_extent (b_heap b') dirs + bytes_sectors (b_heap b') (take n (items_of (b_heap b') dirs)))"
  using n
proof (induction n)
  case 0
  then show ?case by (simp add: bytes_sectors_def)
next
  case (Suc n)
  let ?h = "b_heap b'" and ?items = "items_of (b_heap b') dirs"
  let ?at = "\<lambda>k. first_extent ?h dirs + bytes_sectors ?h (take k ?items)"
  have n: "n < length ?items" using Suc.prems by simp
  note num = laid_out_numbers [OF lo fit n]
  have small: "item_bytes ?h (?items ! n) + sectorSize \<le> 2 ^ 32" using fit n by (simp add: fits_def)
  have len: "n_extentLen (?h ! (?items ! n)) = of_nat (item_bytes ?h (?items ! n))"
    by (rule u32_of_unat [OF num(1)])
  have lba: "n_extentLBA (?h ! (?items ! n)) = of_nat (?at n)" by (rule u32_of_unat [OF num(2)])
  have step: "?at (Suc n) = ?at n + nsec (item_bytes ?h (?items ! n))"
    using bytes_sectors_nth [OF n] by simp
  have e: "n_extentLBA (?h ! (?items ! n)) + sectorsFor (n_extentLen (?h ! (?items ! n))) = of_nat (?at (Suc n))"
    unfolding len lba sectorsFor_nsec [OF small] step by simp
  have bound: "?at k < 2 ^ 32" for k
    using fit bytes_sectors_take_le [of ?h k ?items] by (simp add: fits_def image_sectors_def)
  have "extent_end (n_extentLBA (?h ! (?items ! n))) (n_extentLen (?h ! (?items ! n))) (of_nat (?at n)) = of_nat (?at (Suc n))"
  proof (cases "nsec (item_bytes ?h (?items ! n)) = 0")
    case True
    then show ?thesis unfolding extent_end_def Let_def e using step by simp
  next
    case False
    then have "?at n < ?at (Suc n)" unfolding step by simp
    then have "(of_nat (?at (Suc n)) :: u32) > of_nat (?at n)"
      by (simp only: word_less_nat_alt unat_u32_of_nat [OF bound])
    then show ?thesis unfolding extent_end_def Let_def e by simp
  qed
  then show ?case using Suc by (simp add: take_Suc_conv_app_nth [OF n])
qed

lemma write_each_Inr: "write_each (\<lambda>x s. Inr (f x s)) xs s = Inr (fold f xs s)"
  by (induction xs arbitrary: s) simp_all

lemma totalSectors_image:
  assumes lo: "laid_out b b' dirs" and fit: "fits (b_heap b') dirs" and root: "b_root b = 0"
  shows "totalSectors b' dirs = Inr (of_nat (image_sectors (b_heap b') dirs))"
proof -
  let ?h = "b_heap b'" and ?items = "items_of (b_heap b') dirs"
  let ?upto = "\<lambda>x. extent_end (n_extentLBA (b_heap b' ! x)) (n_extentLen (b_heap b' ! x))"
  note f = laid_out_facts [OF lo]
  have wf: "wf_heap ?h" by (rule f(1))
  have tab: "table_sectors ?h dirs = of_nat (nsec (pathTableSize ?h dirs))"
    unfolding table_sectors_def using fit by (intro sectorsFor_nsec) (simp add: fits_def)
  have mx: "b_pathTableMLBA b' + sectorsFor (of_nat (pathTableSize ?h dirs)) = of_nat (first_extent ?h dirs)"
    using f(7) tab by (simp add: table_sectors_def first_extent_def pathTableLLBA_def)
  have "keeps_order ?h (\<lambda>_. ?h) (\<lambda>c m. Inr (?upto c m))" by (simp add: keeps_order_def)
  from visit_loop(1) [OF wf this, where d = 0 and k = "length ?h"]
  have "totalSectors b' dirs = Inr (fold ?upto (dirs @ files_of ?h) (of_nat (first_extent ?h dirs)))"
    using wf by (simp add: totalSectors_def Let_def mx f(4) root wf_heap_def files_of_def write_each_Inr)
  also have "fold ?upto (dirs @ files_of ?h) (of_nat (first_extent ?h dirs)) = of_nat (image_sectors ?h dirs)"
    using extent_end_fold [OF lo fit order_refl] by (simp add: items_of_def image_sectors_def)
  finally show ?thesis .
qed

end
