(* ===== verification/ImageWrite.thy ===== *)
theory ImageWrite
  imports Placement
begin

text \<open>
  \<^verbatim>\<open>WriteTo\<close> in \<^verbatim>\<open>create.go\<close>.  For any writer it performs one fixed sequence of writes and
  stops at the first that fails (\<open>write_image_trace\<close>).  The offsets of that sequence follow
  each other, so on a writer that keeps the contract of \<^verbatim>\<open>io.WriterAt\<close> (locale \<open>writer_at\<close>)
  the medium holds the concatenation of the padded pieces, the image.
\<close>

section \<open>Writers\<close>

text \<open>
  A writer that succeeds: \<open>contents w\<close> are the bytes of the medium; a write replaces the bytes
  from its offset on and lengthens the medium when it has to.
\<close>

definition overwrite :: "byte list \<Rightarrow> nat \<Rightarrow> byte list \<Rightarrow> byte list" where
  "overwrite img off data = splice (img @ zeros (off + length data - length img)) off data"

locale writer_at =
  fixes wa :: "'w writer_fun" and contents :: "'w \<Rightarrow> byte list"
  assumes write_ok: "0 \<le> off \<Longrightarrow>
    \<exists>w' n. wa w data off = (w', n, None) \<and> contents w' = overwrite (contents w) (nat off) data"

text \<open>The pieces are written one after the other.\<close>

fun contiguous :: "nat \<Rightarrow> (int \<times> byte list) list \<Rightarrow> bool" where
  "contiguous pos [] = True"
| "contiguous pos ((off, data) # cs) =
     (off = int pos \<and> contiguous (pos + length (pad_sector data)) cs)"

definition pieces :: "(int \<times> byte list) list \<Rightarrow> byte list" where
  "pieces cs = concat (map (\<lambda>(off, data). pad_sector data) cs)"

definition write_piece :: "'w writer_fun \<Rightarrow> int \<times> byte list \<Rightarrow> 'w \<Rightarrow> 'w res" where
  "write_piece wa c = writeAt wa (fst c) (snd c)"

lemma overwrite_append:
  "overwrite (img @ drop (length img) old) (length img) data
   = (img @ data) @ drop (length img + length data) old"
  by (cases "length data \<le> length old - length img")
    (simp_all add: overwrite_def splice_def zeros_def add.commute)

context writer_at
begin

lemma write_pieces:
  assumes "contiguous (length img) cs" "contents w = img @ drop (length img) old"
  shows "\<exists>w'. write_each (write_piece wa) cs w = Inr w'
    \<and> contents w' = (img @ pieces cs) @ drop (length (img @ pieces cs)) old"
  using assms
proof (induction cs arbitrary: img w)
  case Nil
  then show ?case by (simp add: pieces_def)
next
  case (Cons c cs)
  obtain off data where c: "c = (off, data)" by (cases c)
  let ?p = "pad_sector data"
  have off: "off = int (length img)" using Cons.prems(1) c by simp
  obtain w1 n where w1: "wa w ?p off = (w1, n, None)" "contents w1 = overwrite (contents w) (nat off) ?p"
    using write_ok [of off w ?p] off by auto
  have "contents w1 = (img @ ?p) @ drop (length (img @ ?p)) old"
    using w1(2) Cons.prems(2) off by (simp add: overwrite_append)
  moreover have "contiguous (length (img @ ?p)) cs" using Cons.prems(1) c by simp
  ultimately obtain w' where "write_each (write_piece wa) cs w1 = Inr w'"
      "contents w' = ((img @ ?p) @ pieces cs) @ drop (length ((img @ ?p) @ pieces cs)) old"
    using Cons.IH by blast
  moreover have "write_piece wa c w = Inr w1" using w1(1) by (simp add: write_piece_def writeAt_def c)
  moreover have "pieces (c # cs) = ?p @ pieces cs" by (simp add: pieces_def c)
  ultimately show ?case by simp
qed

end

text \<open>
  The in-memory image the round-trip tests of the repository write to: \<^verbatim>\<open>memImage.WriteAt\<close> of
  \<^verbatim>\<open>create_test.go\<close>.
\<close>

definition memImage_WriteAt :: "byte list writer_fun" where
  "memImage_WriteAt b p off =
     (let end_off = off + int (length p);
          b' = (if end_off > int (length b) then b @ replicate (nat (end_off - int (length b))) 0 else b)
      in (splice b' (nat off) p, length p, None))"

interpretation mem_image: writer_at memImage_WriteAt "\<lambda>b. b"
proof unfold_locales
  fix off :: int and w data :: "byte list"
  assume off: "0 \<le> off"
  have "nat (off + int (length data) - int (length w)) = nat off + length data - length w"
    using off by linarith
  moreover have "off + int (length data) > int (length w) \<longleftrightarrow> 0 < nat off + length data - length w"
    using off by linarith
  ultimately show "\<exists>w' n. memImage_WriteAt w data off = (w', n, None) \<and> w' = overwrite w (nat off) data"
    by (simp add: memImage_WriteAt_def overwrite_def Let_def zeros_def)
qed

section \<open>Padding\<close>

lemma round_up:
  fixes n :: nat
  shows "n + (if n mod 2048 = 0 then 0 else 2048 - n mod 2048) = (n + 2047) div 2048 * 2048"
proof -
  have n: "n = n div 2048 * 2048 + n mod 2048" and r: "n mod 2048 < 2048" by simp_all
  have "(n + 2047) div 2048 = n div 2048 + (n mod 2048 + 2047) div 2048"
  proof -
    have "(q * 2048 + (r + 2047)) div 2048 = q + (r + 2047) div 2048" for q r :: nat by simp
    from this [of "n div 2048" "n mod 2048"] show ?thesis using n by (simp only: add.assoc [symmetric])
  qed
  moreover have "(n mod 2048 + 2047) div 2048 = (if n mod 2048 = 0 then 0 else 1)"
    using r by (auto intro: div_nat_eqI)
  ultimately have "(n + 2047) div 2048 = n div 2048 + (if n mod 2048 = 0 then 0 else 1)" by simp
  moreover have "n + (if r = 0 then 0 else 2048 - r) = (q + (if r = 0 then 0 else 1)) * 2048"
    if "n = q * 2048 + r" "r < 2048" for q r :: nat
    using that by (cases "r = 0") simp_all
  ultimately show ?thesis using n r by metis
qed

lemma length_pad_sector: "length (pad_sector data) = nsec (length data) * sectorSize"
  using round_up [of "length data"]
  by (simp add: pad_sector_def nsec_def sectorSize_def Let_def add.commute split: if_splits)

lemma take_pad_sector [simp]: "take (length data) (pad_sector data) = data"
  by (simp add: pad_sector_def Let_def)

lemma pad_sector_whole: "length data mod sectorSize = 0 \<Longrightarrow> pad_sector data = data"
  by (simp add: pad_sector_def)

lemma pad_sector_Nil [simp]: "pad_sector [] = []"
  by (simp add: pad_sector_def)

lemma contiguous_append:
  "contiguous pos (xs @ ys) \<longleftrightarrow> contiguous pos xs \<and> contiguous (pos + length (pieces xs)) ys"
  by (induction xs arbitrary: pos) (auto simp: pieces_def add.assoc)

lemma pieces_append: "pieces (xs @ ys) = pieces xs @ pieces ys"
  by (simp add: pieces_def)

lemma contiguous_nonempty:
  "contiguous pos cs \<Longrightarrow> contiguous pos (filter (\<lambda>c. snd c \<noteq> []) cs)"
  by (induction pos cs rule: contiguous.induct) auto

lemma pieces_nonempty: "pieces (filter (\<lambda>c. snd c \<noteq> []) cs) = pieces cs"
  by (induction cs) (auto simp: pieces_def)

text \<open>Every piece is where its offset says.\<close>

lemma pieces_at:
  assumes "contiguous pos cs" "(off, data) \<in> set cs"
  shows "int pos \<le> off \<and> nat off - pos + length data \<le> length (pieces cs)
    \<and> take (length data) (drop (nat off - pos) (pieces cs)) = data"
  using assms
proof (induction cs arbitrary: pos)
  case (Cons c cs)
  obtain o1 d1 where c: "c = (o1, d1)" by (cases c)
  show ?case
  proof (cases "(off, data) = c")
    case True
    have "length data \<le> length (pad_sector data)"
      by (metis length_take min.cobounded1 take_pad_sector)
    then show ?thesis using Cons.prems(1) c True by (simp add: pieces_def)
  next
    case False
    let ?p = "length (pad_sector d1)"
    have "int (pos + ?p) \<le> off \<and> nat off - (pos + ?p) + length data \<le> length (pieces cs)
        \<and> take (length data) (drop (nat off - (pos + ?p)) (pieces cs)) = data"
      by (rule Cons.IH) (use Cons.prems False c in auto)
    moreover have "pieces (c # cs) = pad_sector d1 @ pieces cs" by (simp add: pieces_def c)
    ultimately show ?thesis by auto
  qed
qed simp

section \<open>The image\<close>

definition dir_bytes :: "Builder \<Rightarrow> addr \<Rightarrow> byte list" where
  "dir_bytes b d = (case directoryExtent b d of Inr data \<Rightarrow> data | Inl _ \<Rightarrow> [])"

definition item_data :: "Builder \<Rightarrow> addr \<Rightarrow> byte list" where
  "item_data b x = (if n_isDir (b_heap b ! x) then dir_bytes b x else n_data (b_heap b ! x))"

definition header_chunks :: "Builder \<Rightarrow> addr list \<Rightarrow> (int \<times> byte list) list" where
  "header_chunks b dirs =
     map (\<lambda>s. (int s * int sectorSize, zeros sectorSize)) [0..<systemAreaSectors]
     @ [(16 * int sectorSize, pvd_fields b dirs (of_nat (image_sectors (b_heap b) dirs))),
        (17 * int sectorSize, volumeDescriptorTerminator),
        (at_lba pathTableLLBA, pathTable b dirs False),
        (at_lba (b_pathTableMLBA b), pathTable b dirs True)]"

definition item_chunks :: "Builder \<Rightarrow> addr list \<Rightarrow> (int \<times> byte list) list" where
  "item_chunks b xs = map (\<lambda>x. (at_lba (n_extentLBA (b_heap b ! x)), item_data b x)) xs"

definition chunks :: "Builder \<Rightarrow> addr list \<Rightarrow> (int \<times> byte list) list" where
  "chunks b dirs =
     header_chunks b dirs @ item_chunks b dirs
     @ filter (\<lambda>c. snd c \<noteq> []) (item_chunks b (files_of (b_heap b)))"

definition iso_image :: "Builder \<Rightarrow> addr list \<Rightarrow> byte list" where
  "iso_image b dirs = pieces (chunks b dirs)"

section \<open>The sequence of writes\<close>

lemma write_each_map: "write_each f (map g xs) w = write_each (\<lambda>x. f (g x)) xs w"
  by (induction xs arbitrary: w) (simp_all add: res_bind_def split: sum.splits)

lemma write_each_cong: "(\<And>x w. x \<in> set xs \<Longrightarrow> f x w = g x w) \<Longrightarrow> write_each f xs w = write_each g xs w"
  by (induction xs arbitrary: w) (simp_all add: res_bind_def split: sum.splits)

lemma write_each_filter:
  "write_each (\<lambda>x w. if P x then f x w else Inr w) xs w = write_each f (filter P xs) w"
  by (induction xs arbitrary: w) (simp_all add: res_bind_def split: sum.splits)

lemma writeSector_piece: "length data = sectorSize \<Longrightarrow> writeSector wa s data w = write_piece wa (int s * int sectorSize, data) w"
  by (simp add: writeSector_def write_piece_def splice_whole)

lemma writeSector_empty: "writeSector wa s [] w = write_piece wa (int s * int sectorSize, zeros sectorSize) w"
  by (simp add: writeSector_def write_piece_def zeros_def)

lemma level1_length: "level1 d s \<Longrightarrow> length s \<le> 14"
  by (auto simp: level1_def level1_dir_def level1_file_def level1_ext_def split: if_splits)

lemma child_ids_short:
  assumes "laid_out b b' dirs" "reachable (b_heap b') d" "c \<in> set (sortedChildren (b_heap b') d)"
  shows "length (n_id (b_heap b' ! c)) \<le> 221"
proof -
  note f = laid_out_facts [OF assms(1)]
  have "c \<in> set (children (b_heap b') d)"
    using assms(3) sortedChildren_set [OF f(1) reachable_bound [OF f(1) assms(2)]] by simp
  then have "level1 (n_isDir (b_heap b' ! c)) (n_id (b_heap b' ! c))"
    using f(10) [OF assms(2)] by (simp add: ids_ok_def)
  then show ?thesis using level1_length by fastforce
qed

text \<open>A directory of the list: its extent is encoded, decodes again, and has the planned length.\<close>

lemma directory_written:
  assumes lo: "laid_out b b' dirs" and fit: "fits (b_heap b') dirs" and d: "d \<in> set dirs"
  shows "directoryExtent b' d = Inr (dir_bytes b' d)" "length (dir_bytes b' d) = item_bytes (b_heap b') d"
    "res_bind (parse_records sectorSize (dir_bytes b' d) 0) mergeMultiExtent
      = Inr (special_record 0 (b_heap b' ! d)
          # special_record 1 (b_heap b' ! (case n_parent (b_heap b' ! d) of None \<Rightarrow> d | Some p \<Rightarrow> p))
          # map (node_record (b_heap b')) (sortedChildren (b_heap b') d))"
proof -
  let ?h = "b_heap b'"
  note f = laid_out_facts [OF lo]
  have x: "d \<in> set (items_of ?h dirs)" using d by (simp add: items_of_def)
  then have r: "reachable ?h d" using f(11) by simp
  have dir: "n_isDir (?h ! d)" using f(13) d by auto
  obtain i where i: "i < length (items_of ?h dirs)" "items_of ?h dirs ! i = d"
    using x by (metis in_set_conv_nth)
  have len: "n_extentLen (?h ! d) = directoryExtentSize ?h d"
    using lo i dir by (auto simp: laid_out_def Let_def planned_len_def)
  have small: "item_bytes ?h d + sectorSize \<le> 2 ^ 32" using fit x by (simp add: fits_def)
  moreover have "extent_bytes_needed ?h d \<le> item_bytes ?h d"
    using round_up_sector(1) [of "extent_bytes_needed ?h d"] dir by (simp add: item_bytes_def nsec_def)
  ultimately have need: "extent_bytes_needed ?h d + sectorSize \<le> 2 ^ 32" by simp
  obtain data where data: "directoryExtent b' d = Inr data" "length data = unat (n_extentLen (?h ! d))"
      "res_bind (parse_records sectorSize data 0) mergeMultiExtent
      = Inr (special_record 0 (?h ! d)
          # special_record 1 (?h ! (case n_parent (?h ! d) of None \<Rightarrow> d | Some p \<Rightarrow> p))
          # map (node_record ?h) (sortedChildren ?h d))"
    using directoryExtent_parse [OF child_ids_short [OF lo r] len need refl] by blast
  show "directoryExtent b' d = Inr (dir_bytes b' d)" using data(1) by (simp add: dir_bytes_def)
  show "length (dir_bytes b' d) = item_bytes ?h d"
    using data(1,2) laid_out_numbers(1) [OF lo fit i(1)] i(2) by (simp add: dir_bytes_def)
  show "res_bind (parse_records sectorSize (dir_bytes b' d) 0) mergeMultiExtent
      = Inr (special_record 0 (?h ! d)
          # special_record 1 (?h ! (case n_parent (?h ! d) of None \<Rightarrow> d | Some p \<Rightarrow> p))
          # map (node_record ?h) (sortedChildren ?h d))"
    using data(1,3) by (simp add: dir_bytes_def)
qed

lemma item_data_length:
  assumes "laid_out b b' dirs" "fits (b_heap b') dirs" "x \<in> set (items_of (b_heap b') dirs)"
  shows "length (item_data b' x) = item_bytes (b_heap b') x"
proof (cases "n_isDir (b_heap b' ! x)")
  case True
  note f = laid_out_facts [OF assms(1)]
  have "x \<in> set dirs" using assms(3) True files_of_facts(1) [OF f(1)] by (simp add: items_of_def)
  then show ?thesis using True directory_written(2) [OF assms(1,2)] by (simp add: item_data_def)
next
  case False
  then show ?thesis by (simp add: item_data_def item_bytes_def)
qed

lemma write_dir_piece:
  assumes "laid_out b b' dirs" "fits (b_heap b') dirs" "d \<in> set dirs"
  shows "write_dir wa b' d w = write_piece wa (at_lba (n_extentLBA (b_heap b' ! d)), item_data b' d) w"
  using directory_written(1) [OF assms] laid_out_facts(13) [OF assms(1)] assms(3)
  by (auto simp: write_dir_def write_piece_def item_data_def)

lemma write_file_piece:
  assumes "\<not> n_isDir (b_heap b ! c)"
  shows "write_file wa b c w =
    (if item_data b c \<noteq> [] then write_piece wa (at_lba (n_extentLBA (b_heap b ! c)), item_data b c) w else Inr w)"
  using assms by (simp add: write_file_def write_piece_def item_data_def)

lemma write_image_trace:
  assumes lo: "laid_out b b' dirs" and fit: "fits (b_heap b') dirs" and root: "b_root b = 0"
  shows "write_image wa b' dirs w = write_each (write_piece wa) (chunks b' dirs) w"
proof -
  let ?h = "b_heap b'"
  note f = laid_out_facts [OF lo]
  have tot: "totalSectors b' dirs = Inr (of_nat (image_sectors ?h dirs))"
    by (rule totalSectors_image [OF lo fit root])
  have sys: "write_each (\<lambda>s. writeSector wa s []) xs w
      = write_each (write_piece wa) (map (\<lambda>s. (int s * int sectorSize, zeros sectorSize)) xs) w" for xs w
    unfolding write_each_map by (rule write_each_cong) (rule writeSector_empty)
  have dirs: "write_each (write_dir wa b') dirs w = write_each (write_piece wa) (item_chunks b' dirs) w" for w
    unfolding item_chunks_def write_each_map
    by (rule write_each_cong) (rule write_dir_piece [OF lo fit])
  have "keeps_order ?h (\<lambda>_. ?h) (write_file wa b')" by (simp add: keeps_order_def)
  from visit_loop(1) [OF f(1) this, where d = 0 and k = "length ?h"]
  have visit: "visit_files (\<lambda>_. ?h) (write_file wa b') (length ?h) 0 w
      = write_each (write_file wa b') (files_of ?h) w" for w
    using f(1) by (simp add: wf_heap_def files_of_def)
  have "write_each (write_file wa b') (files_of ?h) w
      = write_each (\<lambda>c w. if item_data b' c \<noteq> []
          then write_piece wa (at_lba (n_extentLBA (?h ! c)), item_data b' c) w else Inr w) (files_of ?h) w" for w
    by (rule write_each_cong, rule write_file_piece) (use files_of_facts(1) [OF f(1)] in simp)
  then have files: "write_each (write_file wa b') (files_of ?h) w
      = write_each (write_piece wa) (filter (\<lambda>c. snd c \<noteq> []) (item_chunks b' (files_of ?h))) w" for w
    by (simp add: write_each_filter item_chunks_def filter_map write_each_map comp_def)
  have s16: "writeSector wa 16 (pvd_fields b' dirs t) w = write_piece wa (16 * int sectorSize, pvd_fields b' dirs t) w" for t w
    using writeSector_piece [of "pvd_fields b' dirs t" wa 16 w] by (simp add: length_pvd_fields sectorSize_def)
  have s17: "writeSector wa 17 volumeDescriptorTerminator w
      = write_piece wa (17 * int sectorSize, volumeDescriptorTerminator) w" for w
    using writeSector_piece [of volumeDescriptorTerminator wa 17 w] by (simp add: length_terminator sectorSize_def)
  show ?thesis
    unfolding write_image_def chunks_def header_chunks_def sys dirs primaryVolumeDescriptor_fields tot
      res_bind_simps s16 s17 f(4) root visit files write_each_append
    by (simp add: write_piece_def res_bind_assoc)
qed

section \<open>The writes follow each other\<close>

lemma pad_sector_idem [simp]: "pad_sector (pad_sector data) = pad_sector data"
  using length_pad_sector [of data] by (intro pad_sector_whole) simp

lemma length_pieces_Cons [simp]: "length (pieces ((off, data) # cs)) = nsec (length data) * sectorSize + length (pieces cs)"
  by (simp add: pieces_def length_pad_sector)

lemma length_pieces_Nil [simp]: "length (pieces []) = 0"
  by (simp add: pieces_def)

lemma zero_sectors:
  "contiguous (a * sectorSize) (map (\<lambda>s. (int s * int sectorSize, zeros sectorSize)) [a..<a + n])
   \<and> length (pieces (map (\<lambda>s. (int s * int sectorSize, zeros sectorSize)) [a..<a + n])) = n * sectorSize"
proof (induction n)
  case (Suc n)
  have "nsec sectorSize = 1" by (simp add: nsec_def sectorSize_def)
  then show ?case
    using Suc by (simp add: contiguous_append pieces_append algebra_simps del: length_append)
       (simp add: algebra_simps)
qed (simp add: pieces_def)

lemma fold_plus: "fold (\<lambda>x t. t + f x) xs (a :: nat) = a + sum_list (map f xs)"
  by (induction xs arbitrary: a) (simp_all add: add.assoc)

lemma length_path_entry: "length (path_entry h msb d) = pathTableEntryLen (length (pathTableIdent h d))"
  by (simp add: path_entry_def Let_def)

lemma length_pathTable: "length (pathTable b dirs msb) = nsec (pathTableSize (b_heap b) dirs) * sectorSize"
proof -
  have "length (concat (map (path_entry (b_heap b) msb) dirs)) = pathTableSize (b_heap b) dirs"
    by (simp add: pathTableSize_def fold_plus length_concat comp_def length_path_entry)
  then show ?thesis by (simp add: pathTable_def length_pad_sector)
qed

lemma nsec_mult [simp]: "nsec (n * sectorSize) = n"
proof -
  have "(n * 2048 + 2047) div 2048 = n" for n :: nat by (rule div_nat_eqI) simp_all
  then show ?thesis by (simp add: nsec_def sectorSize_def)
qed

lemma nsec_mult' [simp]: "nsec (sectorSize * n) = n"
  using nsec_mult [of n] by (simp add: mult.commute)

lemma nsec_sector [simp]: "nsec sectorSize = 1"
  using nsec_mult [of 1] by simp

lemma at_lba_eq: "unat lba = n \<Longrightarrow> at_lba lba = int (n * sectorSize)"
  by (simp add: at_lba_def)

lemma header_layout:
  assumes lo: "laid_out b b' dirs" and fit: "fits (b_heap b') dirs"
  shows "contiguous 0 (header_chunks b' dirs)
    \<and> length (pieces (header_chunks b' dirs)) = first_extent (b_heap b') dirs * sectorSize"
proof -
  let ?h = "b_heap b'" and ?n = "nsec (pathTableSize (b_heap b') dirs)"
  have tab: "table_sectors ?h dirs = of_nat ?n"
    unfolding table_sectors_def using fit by (intro sectorsFor_nsec) (simp add: fits_def)
  have "b_pathTableMLBA b' = of_nat (18 + ?n)"
    using laid_out_facts(7) [OF lo] tab by (simp add: pathTableLLBA_def)
  moreover have "18 + ?n < 2 ^ 32" using fit by (simp add: fits_def image_sectors_def first_extent_def)
  ultimately have m: "unat (b_pathTableMLBA b') = 18 + ?n" by (simp only: unat_u32_of_nat)
  have l: "unat pathTableLLBA = 18" by (simp add: pathTableLLBA_def)
  have len: "length (pvd_fields b' dirs t) = sectorSize" "length volumeDescriptorTerminator = sectorSize" for t
    by (simp_all add: length_pvd_fields length_terminator sectorSize_def)
  show ?thesis
    using zero_sectors [of 0 16]
    by (simp add: header_chunks_def contiguous_append pieces_append systemAreaSectors_def
        at_lba_eq [OF m] at_lba_eq [OF l] length_pathTable length_pad_sector len first_extent_def
        algebra_simps del: upt_rec_numeral)
qed

lemma item_layout:
  assumes lo: "laid_out b b' dirs" and fit: "fits (b_heap b') dirs"
    and "items_of (b_heap b') dirs = pre @ xs"
  shows "contiguous ((first_extent (b_heap b') dirs + bytes_sectors (b_heap b') pre) * sectorSize) (item_chunks b' xs)
    \<and> length (pieces (item_chunks b' xs)) = bytes_sectors (b_heap b') xs * sectorSize"
  using assms(3)
proof (induction xs arbitrary: pre)
  case Nil
  then show ?case by (simp add: item_chunks_def bytes_sectors_def)
next
  case (Cons x xs)
  let ?h = "b_heap b'"
  have i: "length pre < length (items_of ?h dirs)" "items_of ?h dirs ! length pre = x"
    "take (length pre) (items_of ?h dirs) = pre" "x \<in> set (items_of ?h dirs)"
    using Cons.prems by simp_all
  have lba: "unat (n_extentLBA (?h ! x)) = first_extent ?h dirs + bytes_sectors ?h pre"
    using laid_out_numbers(2) [OF lo fit i(1)] i(2,3) by simp
  have len: "length (item_data b' x) = item_bytes ?h x" by (rule item_data_length [OF lo fit i(4)])
  have one: "bytes_sectors ?h (pre @ [x]) = bytes_sectors ?h pre + nsec (item_bytes ?h x)"
    by (simp add: bytes_sectors_def)
  have "items_of ?h dirs = (pre @ [x]) @ xs" using Cons.prems by simp
  from Cons.IH [OF this] show ?case
    by (simp add: item_chunks_def at_lba_eq [OF lba] len length_pad_sector one bytes_sectors_def algebra_simps)
qed

lemma chunks_layout:
  assumes lo: "laid_out b b' dirs" and fit: "fits (b_heap b') dirs"
  shows "contiguous 0 (chunks b' dirs)" "length (iso_image b' dirs) = image_sectors (b_heap b') dirs * sectorSize"
proof -
  let ?h = "b_heap b'"
  note H = header_layout [OF lo fit]
  have items: "items_of ?h dirs = [] @ items_of ?h dirs" "items_of ?h dirs = dirs @ files_of ?h"
    by (simp_all add: items_of_def)
  note D = item_layout [OF lo fit items(1)] and F = item_layout [OF lo fit items(2)]
  have ch: "item_chunks b' (items_of ?h dirs) = item_chunks b' dirs @ item_chunks b' (files_of ?h)"
    by (simp add: item_chunks_def items_of_def)
  have dl: "length (pieces (item_chunks b' dirs)) = bytes_sectors ?h dirs * sectorSize"
    using D F unfolding ch pieces_append by (simp add: items_of_def bytes_sectors_append algebra_simps)
  have "contiguous (first_extent ?h dirs * sectorSize) (item_chunks b' dirs)"
    using D unfolding ch contiguous_append by (simp add: bytes_sectors_def)
  moreover have "contiguous (first_extent ?h dirs * sectorSize + bytes_sectors ?h dirs * sectorSize)
      (filter (\<lambda>c. snd c \<noteq> []) (item_chunks b' (files_of ?h)))"
    using F by (intro contiguous_nonempty) (simp add: algebra_simps)
  ultimately show "contiguous 0 (chunks b' dirs)"
    using H dl by (simp add: chunks_def contiguous_append)
  show "length (iso_image b' dirs) = image_sectors ?h dirs * sectorSize"
    using H dl F
    by (simp add: iso_image_def chunks_def pieces_append pieces_nonempty image_sectors_def items_of_def
        bytes_sectors_append algebra_simps)
qed

section \<open>The contents of the image\<close>

text \<open>Where the parts of the image are.\<close>

lemma image_item:
  assumes lo: "laid_out b b' dirs" and fit: "fits (b_heap b') dirs"
    and x: "x \<in> set (items_of (b_heap b') dirs)"
  shows "unat (n_extentLBA (b_heap b' ! x)) * sectorSize + length (item_data b' x) \<le> length (iso_image b' dirs)
      \<or> item_data b' x = []"
    "take (length (item_data b' x)) (drop (unat (n_extentLBA (b_heap b' ! x)) * sectorSize) (iso_image b' dirs)) = item_data b' x"
proof -
  let ?off = "unat (n_extentLBA (b_heap b' ! x)) * sectorSize" and ?data = "item_data b' x"
  note f = laid_out_facts [OF lo]
  have at: "?off + length ?data \<le> length (iso_image b' dirs) \<and> take (length ?data) (drop ?off (iso_image b' dirs)) = ?data"
    if ne: "?data \<noteq> []"
  proof -
    have "(at_lba (n_extentLBA (b_heap b' ! x)), ?data) \<in> set (chunks b' dirs)"
      using x ne by (auto simp: chunks_def item_chunks_def items_of_def)
    from pieces_at [OF chunks_layout(1) [OF lo fit] this] ne
    have p: "nat (at_lba (n_extentLBA (b_heap b' ! x))) + length ?data \<le> length (iso_image b' dirs)"
      "take (length ?data) (drop (nat (at_lba (n_extentLBA (b_heap b' ! x)))) (iso_image b' dirs)) = ?data"
      by (simp_all add: iso_image_def)
    moreover have "nat (at_lba (n_extentLBA (b_heap b' ! x))) = ?off"
      by (simp add: at_lba_eq [OF refl] del: of_nat_mult)
    ultimately show ?thesis by simp
  qed
  show "?off + length ?data \<le> length (iso_image b' dirs) \<or> ?data = []" using at by blast
  show "take (length ?data) (drop ?off (iso_image b' dirs)) = ?data" using at by (cases "?data = []") simp_all
qed

lemma path_table_nonempty:
  assumes lo: "laid_out b b' dirs"
  shows "0 < nsec (pathTableSize (b_heap b') dirs)"
proof -
  note f = laid_out_facts [OF lo]
  have "dirs \<noteq> []" using orderedDirs_ok [OF f(1)] f(3) by (metis list.distinct(1) sum.inject(2))
  then obtain d ds where "dirs = d # ds" by (cases dirs) auto
  then have "0 < pathTableSize (b_heap b') dirs"
    by (simp add: pathTableSize_def fold_plus pathTableEntryLen_def)
  then show ?thesis by (simp add: nsec_def sectorSize_def div_greater_zero_iff)
qed

lemma image_descriptors:
  assumes lo: "laid_out b b' dirs" and fit: "fits (b_heap b') dirs"
  shows "take sectorSize (drop (16 * sectorSize) (iso_image b' dirs))
      = pvd_fields b' dirs (of_nat (image_sectors (b_heap b') dirs))"
    "take sectorSize (drop (17 * sectorSize) (iso_image b' dirs)) = volumeDescriptorTerminator"
    "18 * sectorSize < length (iso_image b' dirs)"
proof -
  note at = pieces_at [OF chunks_layout(1) [OF lo fit]]
  have len: "length (pvd_fields b' dirs t) = sectorSize" "length volumeDescriptorTerminator = sectorSize" for t
    by (simp_all add: length_pvd_fields length_terminator sectorSize_def)
  have "(16 * int sectorSize, pvd_fields b' dirs (of_nat (image_sectors (b_heap b') dirs))) \<in> set (chunks b' dirs)"
    "(17 * int sectorSize, volumeDescriptorTerminator) \<in> set (chunks b' dirs)"
    by (simp_all add: chunks_def header_chunks_def)
  from this [THEN at] len
  show "take sectorSize (drop (16 * sectorSize) (iso_image b' dirs))
      = pvd_fields b' dirs (of_nat (image_sectors (b_heap b') dirs))"
    "take sectorSize (drop (17 * sectorSize) (iso_image b' dirs)) = volumeDescriptorTerminator"
    by (simp_all add: iso_image_def nat_mult_distrib)
  show "18 * sectorSize < length (iso_image b' dirs)"
    using chunks_layout(2) [OF lo fit] path_table_nonempty [OF lo]
    by (simp add: image_sectors_def first_extent_def sectorSize_def)
qed

text \<open>Writing to a medium that keeps the contract.\<close>

context writer_at
begin

lemma write_image_contents:
  assumes lo: "laid_out b b' dirs" and fit: "fits (b_heap b') dirs" and root: "b_root b = 0"
  shows "\<exists>w'. write_image wa b' dirs w = Inr w'
    \<and> contents w' = iso_image b' dirs @ drop (length (iso_image b' dirs)) (contents w)"
  using write_pieces [of "[]" "chunks b' dirs" w "contents w"] chunks_layout(1) [OF lo fit]
  by (simp add: write_image_trace [OF lo fit root] iso_image_def)

end

end
