(* ===== verification/RockRidge.thy ===== *)
theory RockRidge
  imports Paths
begin

unbundle bit_operations_syntax

text \<open>
  \<^verbatim>\<open>rockridge.go\<close>: the System Use entries of a directory record.  The three loops of the
  source walk the area by an index \<open>o\<close>; here the index is the suffix \<^verbatim>\<open>sua[o:]\<close>, so
  \<^verbatim>\<open>sua[o+i]\<close> is position \<open>i\<close> of the suffix.
\<close>

section \<open>Types and constants\<close>

record rrInfo =
  rr_name :: gostring
  rr_hasName :: bool
  rr_mode :: u16
  rr_hasMode :: bool
  rr_symlink :: gostring
  rr_isSymlink :: bool

definition zero_rrInfo :: rrInfo where
  "zero_rrInfo =
     \<lparr>rr_name = [], rr_hasName = False, rr_mode = 0, rr_hasMode = False, rr_symlink = [],
      rr_isSymlink = False\<rparr>"

definition slCompCont :: byte where "slCompCont = 0x01"
definition slCompCur :: byte where "slCompCur = 0x02"
definition slCompPar :: byte where "slCompPar = 0x04"
definition slCompRoot :: byte where "slCompRoot = 0x08"

definition chr_C :: byte where "chr_C = 0x43"
definition chr_E :: byte where "chr_E = 0x45"
definition chr_L :: byte where "chr_L = 0x4C"
definition chr_M :: byte where "chr_M = 0x4D"
definition chr_N :: byte where "chr_N = 0x4E"
definition chr_P :: byte where "chr_P = 0x50"
definition chr_S :: byte where "chr_S = 0x53"
definition chr_X :: byte where "chr_X = 0x58"

lemmas chr_defs = chr_C_def chr_E_def chr_L_def chr_M_def chr_N_def chr_P_def chr_S_def chr_X_def

section \<open>The walk over the entries\<close>

text \<open>
  The test at the head of each loop: signature and length of the entry at the start of the
  suffix, or nothing when fewer than four bytes are left or the length is impossible.
\<close>

definition susp_head :: "byte list \<Rightarrow> (byte \<times> byte \<times> nat) option res" where
  "susp_head sua =
     (if 4 \<le> length sua then
        res_bind (index sua 0) (\<lambda>sig0. res_bind (index sua 1) (\<lambda>sig1.
        res_bind (index sua 2) (\<lambda>l.
          if unat l < 4 \<or> unat l > length sua then Inr None
          else Inr (Some (sig0, sig1, unat l)))))
      else Inr None)"

lemma susp_head_eq:
  "susp_head sua =
     Inr (if 4 \<le> length sua \<and> 4 \<le> unat (sua ! 2) \<and> unat (sua ! 2) \<le> length sua
          then Some (sua ! 0, sua ! 1, unat (sua ! 2)) else None)"
  by (cases "4 \<le> length sua") (auto simp: susp_head_def index_prefix [of 4 sua])

lemma susp_head_Some:
  "susp_head sua = Inr (Some (s0, s1, l)) \<Longrightarrow> 4 \<le> l \<and> l \<le> length sua"
  by (auto simp: susp_head_eq split: if_splits)

section \<open>Continuation areas and the skip length\<close>

text \<open>The payload of a CE entry: block, offset and length, each recorded in both byte orders.\<close>

definition ce_fields :: "byte list \<Rightarrow> (u32 \<times> u32 \<times> u32) res" where
  "ce_fields d =
     res_bind (res_bind (slice_from d 0) le32) (\<lambda>block.
     res_bind (res_bind (slice_from d 8) le32) (\<lambda>offset.
     res_bind (res_bind (slice_from d 16) le32) (\<lambda>len.
       Inr (block, offset, len))))"

text \<open>The payload of an SP entry at the start of the suffix: check bytes, then the skip length.\<close>

definition sp_skip :: "byte list \<Rightarrow> nat option res" where
  "sp_skip sua =
     res_bind (index sua 4) (\<lambda>a. res_bind (index sua 5) (\<lambda>b.
       if a = 0xBE \<and> b = 0xEF
       then res_bind (index sua 6) (\<lambda>s. Inr (Some (unat s)))
       else Inr None))"

function ceEntry :: "byte list \<Rightarrow> (u32 \<times> u32 \<times> u32) option res" where
  "ceEntry sua =
     res_bind (susp_head sua) (\<lambda>h.
       case h of
         None \<Rightarrow> Inr None
       | Some (sig0, sig1, l) \<Rightarrow>
           if sig0 = chr_C \<and> sig1 = chr_E \<and> l \<ge> 28 then
             res_bind (subslice sua 4 l) (\<lambda>d. res_bind (ce_fields d) (\<lambda>c. Inr (Some c)))
           else ceEntry (drop l sua))"
  by pat_completeness auto
termination
  by (relation "measure length") (auto dest!: susp_head_Some)

declare ceEntry.simps [simp del]

function detectSUSPSkip :: "byte list \<Rightarrow> nat option res" where
  "detectSUSPSkip sua =
     res_bind (susp_head sua) (\<lambda>h.
       case h of
         None \<Rightarrow> Inr None
       | Some (sig0, sig1, l) \<Rightarrow>
           res_bind
             (if sig0 = chr_S \<and> sig1 = chr_P \<and> l \<ge> 7 then sp_skip sua else Inr None)
             (\<lambda>found. case found of Some s \<Rightarrow> Inr (Some s) | None \<Rightarrow> detectSUSPSkip (drop l sua)))"
  by pat_completeness auto
termination
  by (relation "measure length") (auto dest!: susp_head_Some)

declare detectSUSPSkip.simps [simp del]

section \<open>Symbolic-link components\<close>

text \<open>
  The loop over the components of one SL entry.  The state is the target so far and the
  component being assembled; both live on across entries.
\<close>

type_synonym sl_state = "gostring \<times> gostring"

definition sl_flush :: "sl_state \<Rightarrow> sl_state" where
  "sl_flush st =
     (case st of (target, c) \<Rightarrow>
        ((if target \<noteq> [] \<and> last target \<noteq> slash then target @ [slash] else target) @ c, []))"

function sl_components :: "byte list \<Rightarrow> sl_state \<Rightarrow> sl_state res" where
  "sl_components comps st =
     (if 2 \<le> length comps then
        res_bind (index comps 0) (\<lambda>cflags. res_bind (index comps 1) (\<lambda>cl.
        let clen = unat cl in
        if 2 + clen > length comps then Inr st
        else
          res_bind (subslice comps 2 (2 + clen)) (\<lambda>content.
          case st of (slTarget, slComp) \<Rightarrow>
          if cflags AND slCompCur = 0 \<and> cflags AND slCompPar = 0 \<and> cflags AND slCompRoot \<noteq> 0
             \<and> slTarget = [] \<and> slComp = []
          then sl_components (drop (2 + clen) comps) ([slash], slComp)
          else
            let c =
                  (if cflags AND slCompCur \<noteq> 0 then slComp @ [dot]
                   else if cflags AND slCompPar \<noteq> 0 then slComp @ [dot, dot]
                   else if cflags AND slCompRoot \<noteq> 0 then slComp
                   else slComp @ content) in
            sl_components (drop (2 + clen) comps)
              (if cflags AND slCompCont = 0 then sl_flush (slTarget, c) else (slTarget, c)))))
      else Inr st)"
  by pat_completeness auto
termination
  by (relation "measure (\<lambda>(comps, st). length comps)") auto

declare sl_components.simps [simp del]

section \<open>The Rock Ridge parser\<close>

text \<open>The body of the loop on one entry, with payload \<open>data\<close>.\<close>

definition rr_entry ::
  "byte \<Rightarrow> byte \<Rightarrow> byte list \<Rightarrow> rrInfo \<times> sl_state \<Rightarrow> (rrInfo \<times> sl_state) res"
where
  "rr_entry sig0 sig1 data s =
     (case s of (rr, st) \<Rightarrow>
      if sig0 = chr_N \<and> sig1 = chr_M \<and> length data \<ge> 1 then
        res_bind (slice_from data 1) (\<lambda>part.
          Inr (rr\<lparr>rr_name := rr_name rr @ part, rr_hasName := True\<rparr>, st))
      else if sig0 = chr_P \<and> sig1 = chr_X \<and> length data \<ge> 4 then
        res_bind (res_bind (subslice data 0 4) le32) (\<lambda>m.
          Inr (rr\<lparr>rr_mode := ucast m, rr_hasMode := True\<rparr>, st))
      else if sig0 = chr_S \<and> sig1 = chr_L \<and> length data \<ge> 1 then
        res_bind (res_bind (slice_from data 1) (\<lambda>comps. sl_components comps st)) (\<lambda>st'.
          Inr (rr\<lparr>rr_isSymlink := True\<rparr>, st'))
      else Inr (rr, st))"

function rr_loop :: "byte list \<Rightarrow> rrInfo \<times> sl_state \<Rightarrow> (rrInfo \<times> sl_state) res" where
  "rr_loop sua s =
     res_bind (susp_head sua) (\<lambda>h.
       case h of
         None \<Rightarrow> Inr s
       | Some (sig0, sig1, l) \<Rightarrow>
           res_bind (subslice sua 4 l) (\<lambda>data.
           res_bind (rr_entry sig0 sig1 data s) (\<lambda>s'. rr_loop (drop l sua) s')))"
  by pat_completeness auto
termination
  by (relation "measure (\<lambda>(sua, s). length sua)") (auto dest!: susp_head_Some)

declare rr_loop.simps [simp del]

definition parseRockRidge :: "byte list \<Rightarrow> rrInfo res" where
  "parseRockRidge sua =
     res_bind (rr_loop sua (zero_rrInfo, ([], []))) (\<lambda>(rr, (slTarget, _)).
       Inr (if rr_isSymlink rr then rr\<lparr>rr_symlink := slTarget\<rparr> else rr))"

section \<open>The parsers always return\<close>

text \<open>
  No System Use Area, however malformed, makes these functions panic, and they have no other
  error: a broken entry ends the walk.
\<close>

lemma susp_head_returns [returns_intros]: "returns (susp_head sua)"
  by (simp add: susp_head_eq)

lemma ce_fields_returns [returns_intros]: "24 \<le> length d \<Longrightarrow> returns (ce_fields d)"
  unfolding ce_fields_def by (auto intro!: returns_bind le32_returns)

lemma sp_skip_returns [returns_intros]: "7 \<le> length sua \<Longrightarrow> returns (sp_skip sua)"
  unfolding sp_skip_def by (auto intro!: returns_bind simp: index_prefix [of 7 sua])

lemma ceEntry_returns [returns_intros]: "returns (ceEntry sua)"
proof (induction sua rule: ceEntry.induct)
  case (1 sua)
  show ?case
  proof (cases "\<exists>s0 s1 l. susp_head sua = Inr (Some (s0, s1, l))")
    case False
    then show ?thesis by (subst ceEntry.simps) (auto simp: susp_head_eq split: option.splits)
  next
    case True
    then obtain s0 s1 l where h: "susp_head sua = Inr (Some (s0, s1, l))" by blast
    then show ?thesis
      using 1 [OF h refl refl refl] susp_head_Some [OF h]
      by (subst ceEntry.simps) (auto intro!: returns_bind ce_fields_returns)
  qed
qed

lemma detectSUSPSkip_returns [returns_intros]: "returns (detectSUSPSkip sua)"
proof (induction sua rule: detectSUSPSkip.induct)
  case (1 sua)
  show ?case
  proof (cases "\<exists>s0 s1 l. susp_head sua = Inr (Some (s0, s1, l))")
    case False
    then show ?thesis
      by (subst detectSUSPSkip.simps) (auto simp: susp_head_eq split: option.splits)
  next
    case True
    then obtain s0 s1 l where h: "susp_head sua = Inr (Some (s0, s1, l))" by blast
    then have "returns (if s0 = chr_S \<and> s1 = chr_P \<and> 7 \<le> l then sp_skip sua else Inr None)"
      using susp_head_Some [OF h] by (auto intro: sp_skip_returns)
    then show ?thesis
      using 1 [OF h refl refl refl] h
      by (subst detectSUSPSkip.simps) (auto intro!: returns_bind split: option.splits)
  qed
qed

lemma sl_components_returns [returns_intros]: "returns (sl_components comps st)"
proof (induction comps st rule: sl_components.induct)
  case (1 comps st)
  show ?case
  proof (cases "2 \<le> length comps")
    case False
    then show ?thesis by (subst sl_components.simps) simp
  next
    case True
    then have ix: "index comps 0 = Inr (comps ! 0)" "index comps 1 = Inr (comps ! 1)"
      by (simp_all add: index_prefix [of 2 comps])
    show ?thesis
      using True 1 [OF True ix refl]
      by (subst sl_components.simps)
        (auto simp: ix Let_def split: prod.splits intro!: returns_bind)
  qed
qed

lemma rr_entry_returns [returns_intros]: "returns (rr_entry s0 s1 data s)"
  unfolding rr_entry_def by (auto intro!: returns_bind returns_intros split: prod.splits)

lemma rr_loop_returns [returns_intros]: "returns (rr_loop sua s)"
proof (induction sua s rule: rr_loop.induct)
  case (1 sua s)
  show ?case
  proof (cases "\<exists>s0 s1 l. susp_head sua = Inr (Some (s0, s1, l))")
    case False
    then show ?thesis
      by (subst rr_loop.simps) (auto simp: susp_head_eq split: option.splits)
  next
    case True
    then obtain s0 s1 l where h: "susp_head sua = Inr (Some (s0, s1, l))" by blast
    then show ?thesis
      using 1 [OF h refl refl] susp_head_Some [OF h]
      by (subst rr_loop.simps) (auto intro!: returns_bind rr_entry_returns)
  qed
qed

lemma parseRockRidge_returns [returns_intros]: "returns (parseRockRidge sua)"
  unfolding parseRockRidge_def by (auto intro!: returns_bind returns_intros split: prod.splits)

lemmas parseRockRidge_safe [safe_intros] = parseRockRidge_returns [THEN returns_safe]
lemmas ceEntry_safe [safe_intros] = ceEntry_returns [THEN returns_safe]
lemmas detectSUSPSkip_safe [safe_intros] = detectSUSPSkip_returns [THEN returns_safe]

section \<open>Whole entries\<close>

text \<open>A System Use entry of version 1 with a given payload, and the walk over it.\<close>

definition susp_entry :: "byte \<Rightarrow> byte \<Rightarrow> byte list \<Rightarrow> byte list" where
  "susp_entry s0 s1 p = s0 # s1 # byte_of_nat (4 + length p) # 1 # p"

lemma length_susp_entry [simp]: "length (susp_entry s0 s1 p) = 4 + length p"
  by (simp add: susp_entry_def)

lemma susp_head_entry:
  "length p \<le> 251 \<Longrightarrow> susp_head (susp_entry s0 s1 p @ rest) = Inr (Some (s0, s1, 4 + length p))"
  by (simp add: susp_head_eq susp_entry_def)

lemma rr_loop_entry:
  assumes "length p \<le> 251"
  shows "rr_loop (susp_entry s0 s1 p @ rest) s = res_bind (rr_entry s0 s1 p s) (rr_loop rest)"
proof -
  have "subslice (susp_entry s0 s1 p @ rest) 4 (4 + length p) = Inr p"
    by (simp add: susp_entry_def)
  moreover have "drop (4 + length p) (susp_entry s0 s1 p @ rest) = rest"
    by simp
  ultimately show ?thesis
    by (subst rr_loop.simps) (simp add: susp_head_entry [OF assms] del: subslice_in drop_append)
qed

lemma rr_loop_end: "susp_head sua = Inr None \<Longrightarrow> rr_loop sua s = Inr s"
  by (simp add: rr_loop.simps [of sua])

lemma susp_head_nil [simp]: "susp_head [] = Inr None"
  by (simp add: susp_head_eq)

lemma rr_entry_NM:
  "rr_entry chr_N chr_M (f # part) (rr, st)
   = Inr (rr\<lparr>rr_name := rr_name rr @ part, rr_hasName := True\<rparr>, st)"
  by (simp add: rr_entry_def)

lemma rr_entry_SL:
  "rr_entry chr_S chr_L (f # comps) (rr, st)
   = res_bind (sl_components comps st) (\<lambda>st'. Inr (rr\<lparr>rr_isSymlink := True\<rparr>, st'))"
  by (simp add: rr_entry_def chr_defs)

section \<open>Names split over NM entries\<close>

definition nm_area :: "(byte \<times> gostring) list \<Rightarrow> byte list" where
  "nm_area parts = concat (map (\<lambda>(f, part). susp_entry chr_N chr_M (f # part)) parts)"

lemma rr_loop_nm:
  assumes "\<forall>(f, part) \<in> set parts. length part \<le> 250" and "parts \<noteq> []"
  shows "rr_loop (nm_area parts @ rest) (rr, st)
    = rr_loop rest (rr\<lparr>rr_name := rr_name rr @ concat (map snd parts), rr_hasName := True\<rparr>, st)"
  using assms
proof (induction parts arbitrary: rr)
  case (Cons p parts)
  obtain f part where p: "p = (f, part)" by (cases p)
  have "rr_loop (nm_area (p # parts) @ rest) (rr, st)
      = rr_loop (nm_area parts @ rest) (rr\<lparr>rr_name := rr_name rr @ part, rr_hasName := True\<rparr>, st)"
    using Cons.prems(1) by (simp add: nm_area_def p rr_loop_entry rr_entry_NM)
  then show ?case
    using Cons.IH Cons.prems(1) p by (cases "parts = []") (simp_all add: nm_area_def)
qed simp

section \<open>Targets split over SL entries\<close>

text \<open>
  A component record is a flag byte and a content.  The loop is a fold of one step per
  record, so it does not matter how the records are distributed over entries.
\<close>

type_synonym sl_rec = "byte \<times> gostring"

definition sl_bytes :: "sl_rec \<Rightarrow> byte list" where
  "sl_bytes r = fst r # byte_of_nat (length (snd r)) # snd r"

definition sl_step :: "sl_rec \<Rightarrow> sl_state \<Rightarrow> sl_state" where
  "sl_step r st =
     (case (r, st) of ((f, content), (t, c)) \<Rightarrow>
      if f AND slCompCur = 0 \<and> f AND slCompPar = 0 \<and> f AND slCompRoot \<noteq> 0 \<and> t = [] \<and> c = []
      then ([slash], c)
      else
        let c' = (if f AND slCompCur \<noteq> 0 then c @ [dot]
                  else if f AND slCompPar \<noteq> 0 then c @ [dot, dot]
                  else if f AND slCompRoot \<noteq> 0 then c else c @ content) in
        if f AND slCompCont = 0 then sl_flush (t, c') else (t, c'))"

lemma sl_components_record:
  assumes "length (snd r) \<le> 255"
  shows "sl_components (sl_bytes r @ rest) st = sl_components rest (sl_step r st)"
  using assms
  by (subst sl_components.simps)
    (simp add: sl_bytes_def sl_step_def Let_def split: prod.splits)

lemma sl_components_nil [simp]: "sl_components [] st = Inr st"
  by (simp add: sl_components.simps)

lemma sl_components_records:
  "\<forall>r \<in> set rs. length (snd r) \<le> 255 \<Longrightarrow>
   sl_components (concat (map sl_bytes rs)) st = Inr (fold sl_step rs st)"
  by (induction rs arbitrary: st) (simp_all add: sl_components_record)

text \<open>Entries that carry the records of \<open>chunks\<close>, one list of records per entry.\<close>

definition sl_area :: "(byte \<times> sl_rec list) list \<Rightarrow> byte list" where
  "sl_area chunks =
     concat (map (\<lambda>(f, rs). susp_entry chr_S chr_L (f # concat (map sl_bytes rs))) chunks)"

lemma rr_loop_sl:
  assumes "\<forall>(f, rs) \<in> set chunks. length (concat (map sl_bytes rs)) \<le> 250
      \<and> (\<forall>r \<in> set rs. length (snd r) \<le> 255)" and "chunks \<noteq> []"
  shows "rr_loop (sl_area chunks @ rest) (rr, st)
    = rr_loop rest (rr\<lparr>rr_isSymlink := True\<rparr>, fold sl_step (concat (map snd chunks)) st)"
  using assms
proof (induction chunks arbitrary: rr st)
  case (Cons p chunks)
  obtain f rs where p: "p = (f, rs)" by (cases p)
  have "rr_loop (sl_area (p # chunks) @ rest) (rr, st)
      = rr_loop (sl_area chunks @ rest) (rr\<lparr>rr_isSymlink := True\<rparr>, fold sl_step rs st)"
    using Cons.prems(1)
    by (simp add: sl_area_def p rr_loop_entry rr_entry_SL sl_components_records del: length_concat)
  then show ?case
    using Cons.IH Cons.prems(1) p by (cases "chunks = []") (simp_all add: sl_area_def)
qed simp

text \<open>The records RRIP writes for one path component; a name may be split over records.\<close>

datatype sl_comp = CCur | CPar | CName "gostring list" gostring

fun sl_encode :: "sl_comp \<Rightarrow> sl_rec list" where
  "sl_encode CCur = [(slCompCur, [])]"
| "sl_encode CPar = [(slCompPar, [])]"
| "sl_encode (CName parts final) = map (\<lambda>p. (slCompCont, p)) parts @ [(0, final)]"

fun sl_text :: "sl_comp \<Rightarrow> gostring" where
  "sl_text CCur = [dot]"
| "sl_text CPar = [dot, dot]"
| "sl_text (CName parts final) = concat parts @ final"

definition sl_root :: sl_rec where
  "sl_root = (slCompRoot, [])"

lemma sl_flag_bits:
  "slCompCont AND slCompCur = 0" "slCompCont AND slCompPar = 0" "slCompCont AND slCompRoot = 0"
  "slCompCont AND slCompCont \<noteq> 0" "slCompCur AND slCompCont = 0" "slCompPar AND slCompCont = 0"
  "slCompCur AND slCompCur \<noteq> 0" "slCompPar AND slCompCur = 0" "slCompPar AND slCompPar \<noteq> 0"
  "slCompRoot AND slCompCur = 0" "slCompRoot AND slCompPar = 0" "slCompRoot AND slCompRoot \<noteq> 0"
  "slCompRoot AND slCompCont = 0"
  "slCompCont \<noteq> 0" "slCompCur \<noteq> 0" "slCompPar \<noteq> 0" "slCompRoot \<noteq> 0"
  by (simp_all add: slCompCont_def slCompCur_def slCompPar_def slCompRoot_def)

lemma fold_sl_parts:
  "fold sl_step (map (\<lambda>p. (slCompCont, p)) parts) (t, c) = (t, c @ concat parts)"
  by (induction parts arbitrary: c) (simp_all add: sl_step_def sl_flag_bits Let_def)

lemma fold_sl_encode: "fold sl_step (sl_encode x) (t, []) = sl_flush (t, sl_text x)"
  by (cases x) (simp_all add: fold_sl_parts sl_step_def sl_flag_bits Let_def)

text \<open>The target is the path of its components.\<close>

definition sl_prefix :: "gostring \<Rightarrow> gostring list \<Rightarrow> gostring" where
  "sl_prefix t cs =
     (if cs = [] then t
      else (if t \<noteq> [] \<and> last t \<noteq> slash then t @ [slash] else t) @ join_path cs)"

lemma fold_sl_target:
  assumes "\<forall>x \<in> set xs. sl_text x \<noteq> [] \<and> slash \<notin> set (sl_text x)"
  shows "fold sl_step (concat (map sl_encode xs)) (t, []) = (sl_prefix t (map sl_text xs), [])"
  using assms
proof (induction xs arbitrary: t)
  case (Cons x xs)
  let ?t = "(if t \<noteq> [] \<and> last t \<noteq> slash then t @ [slash] else t) @ sl_text x"
  have x: "sl_text x \<noteq> []" "slash \<notin> set (sl_text x)" using Cons.prems by auto
  then have "last (sl_text x) \<noteq> slash" using last_in_set by metis
  with x have l: "?t \<noteq> []" "last ?t \<noteq> slash" by auto
  have "fold sl_step (concat (map sl_encode (x # xs))) (t, [])
      = fold sl_step (concat (map sl_encode xs)) (?t, [])"
    by (simp add: fold_sl_encode sl_flush_def)
  also have "\<dots> = (sl_prefix ?t (map sl_text xs), [])" using Cons by auto
  also have "\<dots> = (sl_prefix t (map sl_text (x # xs)), [])"
    using l by (simp add: sl_prefix_def join_path_Cons)
  finally show ?case .
qed (simp add: sl_prefix_def)

lemma parseRockRidge_sl:
  assumes chunks: "concat (map snd chunks) = (if absolute then [sl_root] else []) @ concat (map sl_encode xs)"
    and "\<forall>(f, rs) \<in> set chunks. length (concat (map sl_bytes rs)) \<le> 250
      \<and> (\<forall>r \<in> set rs. length (snd r) \<le> 255)" and "chunks \<noteq> []"
    and "\<forall>x \<in> set xs. sl_text x \<noteq> [] \<and> slash \<notin> set (sl_text x)"
  shows "parseRockRidge (sl_area chunks) =
    Inr (zero_rrInfo\<lparr>rr_isSymlink := True,
      rr_symlink := (if absolute then [slash] else []) @ join_path (map sl_text xs)\<rparr>)"
proof -
  have root: "sl_step sl_root ([], []) = ([slash], [])"
    by (simp add: sl_step_def sl_root_def sl_flag_bits)
  have "fold sl_step (concat (map snd chunks)) ([], [])
      = (sl_prefix (if absolute then [slash] else []) (map sl_text xs), [])"
    unfolding chunks using fold_sl_target [OF assms(4)] root by simp
  then have "rr_loop (sl_area chunks @ []) (zero_rrInfo, ([], []))
      = Inr (zero_rrInfo\<lparr>rr_isSymlink := True\<rparr>,
          (sl_prefix (if absolute then [slash] else []) (map sl_text xs), []))"
    using rr_loop_sl [OF assms(2,3), of "[]" zero_rrInfo "([], [])"] rr_loop_end [of "[]"]
    by (simp only: susp_head_nil append_Nil2)
  then show ?thesis by (simp add: parseRockRidge_def sl_prefix_def)
qed

lemma parseRockRidge_nm:
  assumes "\<forall>(f, part) \<in> set parts. length part \<le> 250" and "parts \<noteq> []"
  shows "parseRockRidge (nm_area parts)
    = Inr (zero_rrInfo\<lparr>rr_name := concat (map snd parts), rr_hasName := True\<rparr>)"
  using rr_loop_nm [OF assms, of "[]" zero_rrInfo] rr_loop_end [of "[]"]
  by (simp add: parseRockRidge_def zero_rrInfo_def)

section \<open>Properties\<close>

text \<open>
  No System Use Area, however malformed, makes the three walkers panic or fail: they
  terminate with a value on every byte sequence.
\<close>

theorem susp_parsers_total:
  "(\<exists>rr. parseRockRidge sua = Inr rr) \<and> (\<exists>s. detectSUSPSkip sua = Inr s) \<and> (\<exists>c. ceEntry sua = Inr c)"
  using parseRockRidge_returns detectSUSPSkip_returns ceEntry_returns by (simp add: returns_def)

text \<open>
  A name of any length split over NM entries, whatever their flags, is put together in
  order.
\<close>

theorem parseRockRidge_name:
  assumes "list_all (\<lambda>p. length (snd p) \<le> 250) parts" "parts \<noteq> []"
  shows "parseRockRidge (nm_area parts)
    = Inr (zero_rrInfo\<lparr>rr_name := concat (map snd parts), rr_hasName := True\<rparr>)"
  by (rule parseRockRidge_nm) (use assms in \<open>auto simp: list_all_iff\<close>)

theorem parseRockRidge_name_witness:
  "parseRockRidge (nm_area [(1, str ''long''), (0, str ''name'')])
   = Inr (zero_rrInfo\<lparr>rr_name := str ''longname'', rr_hasName := True\<rparr>)"
  using parseRockRidge_name [of "[(1, str ''long''), (0, str ''name'')]"] by (simp add: str_def)

text \<open>
  C37: a symbolic-link target survives its encoding as SL component records: names may be
  split over records, records may be distributed over SL entries in any way, and current,
  parent and root components come back as \<open>"."\<close>, \<open>".."\<close> and a leading slash.
\<close>

theorem parseRockRidge_target:
  assumes "concat (map snd chunks) = (if absolute then [sl_root] else []) @ concat (map sl_encode xs)"
    and "\<forall>(f, rs) \<in> set chunks. length (concat (map sl_bytes rs)) \<le> 250
      \<and> (\<forall>r \<in> set rs. length (snd r) \<le> 255)"
    and "chunks \<noteq> []" and "\<forall>x \<in> set xs. sl_text x \<noteq> [] \<and> slash \<notin> set (sl_text x)"
  shows "parseRockRidge (sl_area chunks) =
    Inr (zero_rrInfo\<lparr>rr_isSymlink := True,
      rr_symlink := (if absolute then [slash] else []) @ join_path (map sl_text xs)\<rparr>)"
  by (rule parseRockRidge_sl [OF assms])

theorem parseRockRidge_target_witness:
  "parseRockRidge (sl_area
      [(1, [sl_root, (slCompCont, str ''us'')]), (0, [(0, str ''r''), (slCompPar, [])])])
   = Inr (zero_rrInfo\<lparr>rr_isSymlink := True, rr_symlink := str ''/usr/..''\<rparr>)"
  using parseRockRidge_target [of "[(1, [sl_root, (slCompCont, str ''us'')]),
      (0, [(0, str ''r''), (slCompPar, [])])]" True "[CName [str ''us''] (str ''r''), CPar]"]
  by (simp add: str_def sl_root_def sl_bytes_def slash_def dot_def)

end
