(* ===== verification/FSys.thy ===== *)
theory FSys
  imports ReadImage RockRidge
begin

text \<open>
  \<^verbatim>\<open>fs.go\<close> and \<^verbatim>\<open>openreader.go\<close>: opening an image, choosing the tree to traverse, names,
  path resolution with symbolic links, and the operations of \<^verbatim>\<open>filesystem.Filesystem\<close>.
\<close>

section \<open>State\<close>

text \<open>
  What the run-time and the Unicode tables decide: the capacity policy of a growing slice
  (ReadImage) and the case folding of runes outside ASCII (GoText).
\<close>

record go_env =
  env_grow :: "nat \<Rightarrow> nat \<Rightarrow> nat"
  env_fold :: "rune \<Rightarrow> rune \<Rightarrow> bool"

text \<open>\<open>fs_closer\<close>: absent, or what its \<^verbatim>\<open>Close\<close> answers (an error or nil).\<close>

record FS =
  fs_rs :: reader
  fs_size :: int
  fs_vol :: Volume
  fs_root :: dirRecord
  fs_joliet :: bool
  fs_suspSkip :: nat
  fs_closer :: "goerror option option"

definition read_dir :: "go_env \<Rightarrow> FS \<Rightarrow> dirRecord \<Rightarrow> dirRecord list res" where
  "read_dir env fs rec =
     readDirRecords (env_grow env) (fs_rs fs) (fs_vol fs) rec (allocCeiling (fs_size fs))"

section \<open>Opening\<close>

definition primarySUSP :: "go_env \<Rightarrow> FS \<Rightarrow> (nat \<times> bool) res" where
  "primarySUSP env fs =
     (case read_dir env fs (v_pvdRoot (fs_vol fs)) of
        Inl e \<Rightarrow> if is_panic e then Inl e else Inr (0, False)
      | Inr entries \<Rightarrow>
          (case find (\<lambda>e. length (dr_rawName e) = 1 \<and> dr_rawName e ! 0 = 0x00) entries of
             None \<Rightarrow> Inr (0, False)
           | Some e \<Rightarrow>
               res_bind (detectSUSPSkip (dr_sysUse e)) (\<lambda>r.
                 case r of None \<Rightarrow> Inr (0, False) | Some s \<Rightarrow> Inr (s, True))))"

definition chooseTree :: "go_env \<Rightarrow> FS \<Rightarrow> FS res" where
  "chooseTree env fs =
     res_bind (primarySUSP env fs) (\<lambda>(skip, hasRR).
       Inr (if hasRR
            then fs\<lparr>fs_root := v_pvdRoot (fs_vol fs), fs_suspSkip := skip, fs_joliet := False\<rparr>
            else if v_hasJoliet (fs_vol fs)
            then fs\<lparr>fs_root := v_jolietRoot (fs_vol fs), fs_joliet := True\<rparr>
            else fs\<lparr>fs_root := v_pvdRoot (fs_vol fs)\<rparr>))"

text \<open>\<^verbatim>\<open>Open(rs, size)\<close>; \<open>closer\<close> says whether \<open>rs\<close> implements \<^verbatim>\<open>io.Closer\<close>.\<close>

definition Open :: "go_env \<Rightarrow> reader \<Rightarrow> int \<Rightarrow> goerror option option \<Rightarrow> FS res" where
  "Open env rs imgSize closer =
     res_bind (readVolume rs) (\<lambda>vol.
       chooseTree env
         \<lparr>fs_rs = rs, fs_size = imgSize, fs_vol = vol, fs_root = zero_dirRecord,
          fs_joliet = False, fs_suspSkip = 0, fs_closer = closer\<rparr>)"

text \<open>\<^verbatim>\<open>OpenReader\<close> returns what \<^verbatim>\<open>Open\<close> returns, and no file system with an error.\<close>

definition OpenReader :: "go_env \<Rightarrow> reader \<Rightarrow> int \<Rightarrow> goerror option option \<Rightarrow> FS res" where
  "OpenReader env rs imgSize closer =
     (case Open env rs imgSize closer of Inl e \<Rightarrow> Inl e | Inr fs \<Rightarrow> Inr fs)"

text \<open>
  The package function \<^verbatim>\<open>OpenFile(path)\<close>.  The host answers \<^verbatim>\<open>os.Open\<close> with an error or a
  file (a reader, what its \<^verbatim>\<open>Stat\<close> says of its size, what its \<^verbatim>\<open>Close\<close> answers).  The
  second component is the number of times the file was closed on the way out.
\<close>

record host_file =
  hf_reader :: reader
  hf_stat :: "int res"
  hf_close :: "goerror option"

definition OpenHostFile ::
  "go_env \<Rightarrow> (gostring \<Rightarrow> host_file res) \<Rightarrow> gostring \<Rightarrow> FS res \<times> nat"
where
  "OpenHostFile env os_Open path =
     (case os_Open path of
        Inl e \<Rightarrow> (Inl (Wrap ''iso9660: open %s: %w'' [e]), 0)
      | Inr f \<Rightarrow>
          (case hf_stat f of
             Inl e \<Rightarrow> (Inl (Wrap ''iso9660: stat %s: %w'' [e]), 1)
           | Inr sz \<Rightarrow>
               (case Open env (hf_reader f) sz (Some (hf_close f)) of
                  Inl e \<Rightarrow> (Inl e, 1)
                | Inr fs \<Rightarrow> (Inr fs, 0))))"

definition FS_Close :: "FS \<Rightarrow> goerror option" where
  "FS_Close fs = (case fs_closer fs of Some r \<Rightarrow> r | None \<Rightarrow> None)"

section \<open>Rock Ridge attributes and names\<close>

primrec collect_loop :: "FS \<Rightarrow> nat \<Rightarrow> byte list \<Rightarrow> byte list \<Rightarrow> byte list res" where
  "collect_loop fs 0 cur out = Inr out"
| "collect_loop fs (Suc k) cur out =
     res_bind (ceEntry cur) (\<lambda>c.
       case c of
         None \<Rightarrow> Inr out
       | Some (block, offset, len) \<Rightarrow>
           if len = 0 \<or> len > v_BlockSize (fs_vol fs) then Inr out
           else
             let off = int (unat block) * int (unat (v_BlockSize (fs_vol fs))) + int (unat offset) in
             (case read_into (fs_rs fs) (replicate (unat len) 0) off of
                (_, _, Some e) \<Rightarrow> Inr out
              | (area, _, None) \<Rightarrow> collect_loop fs k area (out @ area)))"

definition collectSUSP :: "FS \<Rightarrow> byte list \<Rightarrow> byte list res" where
  "collectSUSP fs sua = collect_loop fs 16 sua sua"

definition rrFor :: "FS \<Rightarrow> dirRecord \<Rightarrow> rrInfo res" where
  "rrFor fs rec =
     (if length (dr_sysUse rec) \<le> fs_suspSkip fs then Inr zero_rrInfo
      else res_bind (slice_from (dr_sysUse rec) (fs_suspSkip fs)) (\<lambda>sua.
             res_bind (collectSUSP fs sua) parseRockRidge))"

definition effectiveName :: "FS \<Rightarrow> dirRecord \<Rightarrow> gostring res" where
  "effectiveName fs rec =
     res_bind (rrFor fs rec) (\<lambda>rr.
       if rr_hasName rr then Inr (rr_name rr)
       else if fs_joliet fs then jolietName (dr_rawName rec)
       else Inr (dr_Name rec))"

section \<open>Path resolution\<close>

definition maxSymlinkHops :: nat where "maxSymlinkHops = 40"

text \<open>
  The search for one component: an exact match on the effective name, else the first entry
  that matches case-insensitively.  The special entries never match.
\<close>

definition find_child :: "go_env \<Rightarrow> FS \<Rightarrow> dirRecord list \<Rightarrow> gostring \<Rightarrow> dirRecord option res" where
  "find_child env fs entries name =
     res_bind (find_res (\<lambda>e. if isSpecial e then Inr False
                 else res_bind (effectiveName fs e) (\<lambda>n. Inr (n = name))) entries) (\<lambda>r.
       case r of
         Some e \<Rightarrow> Inr (Some e)
       | None \<Rightarrow> find_res (\<lambda>e. if isSpecial e then Inr False
                 else res_bind (effectiveName fs e) (\<lambda>n. Inr (equal_fold (env_fold env) n name)))
                 entries)"

text \<open>
  \<open>resolve_walk\<close> is the loop of \<^verbatim>\<open>resolveFrom\<close> over the remaining components; a symbolic
  link calls \<open>resolveFrom\<close> again with one more hop.
\<close>

function (sequential) resolveFrom ::
    "go_env \<Rightarrow> FS \<Rightarrow> dirRecord \<Rightarrow> gostring list \<Rightarrow> bool \<Rightarrow> nat \<Rightarrow> dirRecord res"
  and resolve_walk ::
    "go_env \<Rightarrow> FS \<Rightarrow> dirRecord \<Rightarrow> gostring list \<Rightarrow> bool \<Rightarrow> nat \<Rightarrow> dirRecord res"
where
  "resolveFrom env fs start parts followFinal hops =
     (if hops > maxSymlinkHops then Inl (Sentinel ErrTooManyLinks)
      else resolve_walk env fs start parts followFinal hops)"
| "resolve_walk env fs cur [] followFinal hops = Inr cur"
| "resolve_walk env fs cur (name # rest) followFinal hops =
     (if \<not> isDir cur then Inl (Wrap ''%w: %q'' [Sentinel ErrNotDirectory])
      else
        res_bind (read_dir env fs cur) (\<lambda>entries.
        res_bind (find_child env fs entries name) (\<lambda>found.
        case found of
          None \<Rightarrow> Inl (Wrap ''%w: %q'' [Sentinel ErrNotFound])
        | Some child \<Rightarrow>
            res_bind (rrFor fs child) (\<lambda>rr.
            res_bind
              (if rr_isSymlink rr \<and> (rest \<noteq> [] \<or> followFinal) then
                 resolveFrom env fs
                   (if has_prefix (rr_symlink rr) [slash] then fs_root fs else cur)
                   (splitPath (rr_symlink rr)) True (hops + 1)
               else Inr child)
              (\<lambda>next_rec. resolve_walk env fs next_rec rest followFinal hops)))))"
  by pat_completeness auto
termination
  by (relation "measures
        [\<lambda>x. (case x of
            Inl (_, _, _, _, _, h) \<Rightarrow>
              if h > maxSymlinkHops then 0 else 2 * (maxSymlinkHops + 1 - h) + 2
          | Inr (_, _, _, _, _, h) \<Rightarrow> 2 * (maxSymlinkHops + 1 - h) + 1),
         \<lambda>x. (case x of Inl _ \<Rightarrow> 0 | Inr (_, _, _, ps, _, _) \<Rightarrow> length ps)]")
    auto

declare resolveFrom.simps [simp del] resolve_walk.simps(2) [simp del]

definition resolve :: "go_env \<Rightarrow> FS \<Rightarrow> gostring \<Rightarrow> dirRecord res" where
  "resolve env fs path = resolveFrom env fs (fs_root fs) (splitPath path) True 0"

definition resolveNoFollow :: "go_env \<Rightarrow> FS \<Rightarrow> gostring \<Rightarrow> dirRecord res" where
  "resolveNoFollow env fs path = resolveFrom env fs (fs_root fs) (splitPath path) False 0"

section \<open>Operations\<close>

definition ReadFile :: "go_env \<Rightarrow> FS \<Rightarrow> gostring \<Rightarrow> byte list res" where
  "ReadFile env fs path =
     res_bind (resolve env fs path) (\<lambda>rec.
       readFile (env_grow env) (fs_rs fs) (fs_vol fs) rec (allocCeiling (fs_size fs)))"

text \<open>The arguments \<^verbatim>\<open>filesystem.NewDirEntry\<close> and \<^verbatim>\<open>filesystem.NewStat\<close> are given.\<close>

record DirEntry =
  de_ino :: u64
  de_name :: gostring
  de_type :: byte

record Stat =
  st_mode :: u16
  st_size :: u64
  st_ino :: u64

definition dir_entry :: "FS \<Rightarrow> dirRecord \<Rightarrow> DirEntry res" where
  "dir_entry fs e =
     res_bind (effectiveName fs e) (\<lambda>n.
       Inr \<lparr>de_ino = ucast (dr_ExtentLBA e), de_name = n, de_type = (if isDir e then 2 else 0)\<rparr>)"

text \<open>The decoded volume descriptor, which the file system keeps.\<close>

definition FS_Volume :: "FS \<Rightarrow> Volume" where "FS_Volume fs = fs_vol fs"

definition ListDir :: "go_env \<Rightarrow> FS \<Rightarrow> gostring \<Rightarrow> DirEntry list res" where
  "ListDir env fs path =
     res_bind (resolve env fs path) (\<lambda>rec.
     res_bind (read_dir env fs rec) (\<lambda>entries.
       map_res (dir_entry fs) (filter (\<lambda>e. \<not> isSpecial e) entries)))"

definition sIFDIR :: u16 where "sIFDIR = 0x4000"
definition sIFREG :: u16 where "sIFREG = 0x8000"
definition modeDirDefault :: u16 where "modeDirDefault = sIFDIR OR 0x16D"  \<comment> \<open>\<open>sIFDIR | 0o555\<close>\<close>
definition modeFileDefault :: u16 where "modeFileDefault = sIFREG OR 0x124"  \<comment> \<open>\<open>sIFREG | 0o444\<close>\<close>

definition FS_Stat :: "go_env \<Rightarrow> FS \<Rightarrow> gostring \<Rightarrow> Stat res" where
  "FS_Stat env fs path =
     res_bind (resolve env fs path) (\<lambda>rec.
     res_bind (rrFor fs rec) (\<lambda>rr.
       let mk = (\<lambda>mode. \<lparr>st_mode = mode, st_size = ucast (dr_Size rec),
                          st_ino = ucast (dr_ExtentLBA rec)\<rparr>) in
       if rr_hasMode rr then Inr (mk (rr_mode rr))
       else Inr (mk (if isDir rec then modeDirDefault else modeFileDefault))))"

definition ReadLink :: "go_env \<Rightarrow> FS \<Rightarrow> gostring \<Rightarrow> gostring res" where
  "ReadLink env fs path =
     res_bind (resolveNoFollow env fs path) (\<lambda>rec.
     res_bind (rrFor fs rec) (\<lambda>rr.
       if rr_isSymlink rr then Inr (rr_symlink rr)
       else Inl (Wrap ''%w: %s'' [Sentinel ErrNotSymlink])))"

text \<open>The mutating methods.\<close>

datatype mutation =
    WriteFile gostring "byte list" u32
  | MkDir gostring u32
  | DeleteFile gostring
  | DeleteDir gostring
  | Rename gostring gostring

definition FS_mutate :: "FS \<Rightarrow> mutation \<Rightarrow> FS \<times> goerror option" where
  "FS_mutate fs m = (fs, Some (Sentinel ErrReadOnly))"

section \<open>No panics\<close>

definition wf_fs :: "FS \<Rightarrow> bool" where
  "wf_fs fs \<longleftrightarrow> 0 < v_BlockSize (fs_vol fs) \<and> unat (v_BlockSize (fs_vol fs)) < 65536"

lemma read_dir_safe [safe_intros]: "wf_fs fs \<Longrightarrow> counted (fs_rs fs) \<Longrightarrow> safe (read_dir env fs rec)"
  by (auto simp: read_dir_def wf_fs_def intro!: safe_intros)

lemma primarySUSP_safe [safe_intros]: "wf_fs fs \<Longrightarrow> counted (fs_rs fs) \<Longrightarrow> safe (primarySUSP env fs)"
  using read_dir_safe [of fs env "v_pvdRoot (fs_vol fs)"]
  by (auto simp: primarySUSP_def intro!: safe_bind safe_intros split: sum.splits option.splits)

lemma chooseTree_safe [safe_intros]: "wf_fs fs \<Longrightarrow> counted (fs_rs fs) \<Longrightarrow> safe (chooseTree env fs)"
  by (auto simp: chooseTree_def intro!: safe_bind safe_intros split: prod.splits)

lemma Open_safe [safe_intros]: "counted rs \<Longrightarrow> safe (Open env rs imgSize closer)"
  unfolding Open_def
  by (intro safe_bind readVolume_safe chooseTree_safe)
    (auto simp: wf_fs_def dest: readVolume_block)

lemma collect_loop_returns [returns_intros]: "returns (collect_loop fs k cur out)"
  by (induction k arbitrary: cur out)
    (auto simp: Let_def intro!: returns_intros split: option.splits prod.splits)

lemma rrFor_returns [returns_intros]: "returns (rrFor fs rec)"
  by (auto simp: rrFor_def collectSUSP_def intro!: returns_intros)

lemma effectiveName_returns [returns_intros]: "returns (effectiveName fs rec)"
  by (auto simp: effectiveName_def intro!: returns_intros)

lemmas rrFor_safe [safe_intros] = rrFor_returns [THEN returns_safe]
lemmas effectiveName_safe [safe_intros] = effectiveName_returns [THEN returns_safe]

lemma find_child_safe [safe_intros]: "safe (find_child env fs entries name)"
  by (auto simp: find_child_def intro!: safe_bind safe_intros split: option.splits)

lemma resolve_safe:
  "wf_fs fs \<Longrightarrow> counted (fs_rs fs) \<Longrightarrow> safe (resolveFrom env fs start parts followFinal hops)"
  "wf_fs fs \<Longrightarrow> counted (fs_rs fs) \<Longrightarrow> safe (resolve_walk env fs start parts followFinal hops)"
proof (induction env fs start parts followFinal hops and env fs start parts followFinal hops
    rule: resolveFrom_resolve_walk.induct)
  case (1 env fs start parts followFinal hops)
  then show ?case by (simp add: resolveFrom.simps)
next
  case (3 env fs cur name rest followFinal hops)
  show ?case
    unfolding resolve_walk.simps(2)
    using 3 by (auto intro!: safe_bind safe_intros split: option.splits)
qed simp

lemma resolve_safe' [safe_intros]:
  "wf_fs fs \<Longrightarrow> counted (fs_rs fs) \<Longrightarrow> safe (resolve env fs path)"
  "wf_fs fs \<Longrightarrow> counted (fs_rs fs) \<Longrightarrow> safe (resolveNoFollow env fs path)"
  by (simp_all add: resolve_def resolveNoFollow_def resolve_safe)

lemma operations_safe:
  assumes "wf_fs fs" "counted (fs_rs fs)"
  shows "safe (ReadFile env fs path)" "safe (ListDir env fs path)" "safe (FS_Stat env fs path)"
    "safe (ReadLink env fs path)"
  using assms
  by (auto simp: ReadFile_def ListDir_def FS_Stat_def ReadLink_def dir_entry_def Let_def
      intro!: safe_bind safe_intros)

section \<open>What Open returns\<close>

lemma chooseTree_frame:
  "chooseTree env fs = Inr fs' \<Longrightarrow>
   fs_rs fs' = fs_rs fs \<and> fs_size fs' = fs_size fs \<and> fs_vol fs' = fs_vol fs
   \<and> fs_closer fs' = fs_closer fs
   \<and> fs_root fs' \<in> {v_pvdRoot (fs_vol fs), v_jolietRoot (fs_vol fs)}"
  by (auto simp: chooseTree_def res_inv split: prod.splits if_splits)

lemma Open_wf: "Open env rs imgSize closer = Inr fs \<Longrightarrow> wf_fs fs \<and> fs_rs fs = rs \<and> fs_size fs = imgSize"
  by (auto simp: Open_def res_inv wf_fs_def dest!: chooseTree_frame readVolume_block)

lemma Open_chooses:
  assumes "Open env rs imgSize closer = Inr fs"
  shows "\<exists>vol skip hasRR. readVolume rs = Inr vol \<and> fs_vol fs = vol \<and> fs_rs fs = rs \<and> fs_size fs = imgSize
    \<and> primarySUSP env fs = Inr (skip, hasRR)
    \<and> fs_joliet fs = (\<not> hasRR \<and> v_hasJoliet vol)
    \<and> fs_root fs = (if fs_joliet fs then v_jolietRoot vol else v_pvdRoot vol)
    \<and> fs_suspSkip fs = (if hasRR then skip else 0)"
proof -
  have same: "primarySUSP env (fs'\<lparr>fs_root := a, fs_suspSkip := b, fs_joliet := c\<rparr>) = primarySUSP env fs'"
    for fs' a b c by (simp add: primarySUSP_def read_dir_def)
  have same2: "primarySUSP env (fs'\<lparr>fs_root := a, fs_joliet := c\<rparr>) = primarySUSP env fs'"
      "primarySUSP env (fs'\<lparr>fs_root := a\<rparr>) = primarySUSP env fs'"
    for fs' a c by (simp_all add: primarySUSP_def read_dir_def)
  define fs0 where "fs0 vol = \<lparr>fs_rs = rs, fs_size = imgSize, fs_vol = vol, fs_root = zero_dirRecord,
      fs_joliet = False, fs_suspSkip = 0, fs_closer = closer\<rparr>" for vol
  from assms obtain vol skip hasRR where v: "readVolume rs = Inr vol"
    and p: "primarySUSP env (fs0 vol) = Inr (skip, hasRR)"
    and f: "fs = (if hasRR
            then (fs0 vol)\<lparr>fs_root := v_pvdRoot vol, fs_suspSkip := skip, fs_joliet := False\<rparr>
            else if v_hasJoliet vol
            then (fs0 vol)\<lparr>fs_root := v_jolietRoot vol, fs_joliet := True\<rparr>
            else (fs0 vol)\<lparr>fs_root := v_pvdRoot vol\<rparr>)"
    by (auto simp: Open_def chooseTree_def res_inv fs0_def)
  have "primarySUSP env fs = Inr (skip, hasRR)"
    unfolding f using p same same2 by (cases hasRR; cases "v_hasJoliet vol") (simp_all only: if_True if_False)
  then show ?thesis using v f
    by (intro exI [of _ vol] exI [of _ skip] exI [of _ hasRR]) (simp add: fs0_def)
qed

section \<open>Names and lookup in closed form\<close>

definition name_of :: "FS \<Rightarrow> dirRecord \<Rightarrow> gostring" where
  "name_of fs e = projr (effectiveName fs e)"

definition rr_of :: "FS \<Rightarrow> dirRecord \<Rightarrow> rrInfo" where
  "rr_of fs e = projr (rrFor fs e)"

lemma effectiveName_eq [simp]: "effectiveName fs e = Inr (name_of fs e)"
  using effectiveName_returns [of fs e] by (auto simp: name_of_def returns_def)

lemma rrFor_eq [simp]: "rrFor fs e = Inr (rr_of fs e)"
  using rrFor_returns [of fs e] by (auto simp: rr_of_def returns_def)

definition lookup_entry :: "go_env \<Rightarrow> FS \<Rightarrow> dirRecord list \<Rightarrow> gostring \<Rightarrow> dirRecord option" where
  "lookup_entry env fs entries name =
     (case find (\<lambda>e. \<not> isSpecial e \<and> name_of fs e = name) entries of
        Some e \<Rightarrow> Some e
      | None \<Rightarrow> find (\<lambda>e. \<not> isSpecial e \<and> equal_fold (env_fold env) (name_of fs e) name) entries)"

lemma find_child_eq: "find_child env fs entries name = Inr (lookup_entry env fs entries name)"
proof -
  have "find_res (\<lambda>e. if isSpecial e then Inr False
            else res_bind (effectiveName fs e) (\<lambda>n. Inr (P n))) entries
      = Inr (find (\<lambda>e. \<not> isSpecial e \<and> P (name_of fs e)) entries)" for P
    by (rule find_res_pure) simp
  then show ?thesis
    by (simp add: find_child_def lookup_entry_def split: option.splits del: effectiveName_eq)
qed

lemma lookup_entry_Some:
  "lookup_entry env fs entries name = Some e \<Longrightarrow> e \<in> set entries \<and> \<not> isSpecial e"
  by (auto simp: lookup_entry_def find_Some_iff split: option.splits)

lemma lookup_entry_exact:
  assumes "e \<in> set entries" "\<not> isSpecial e" "name_of fs e = name"
  shows "\<exists>e'. lookup_entry env fs entries name = Some e' \<and> name_of fs e' = name"
  using assms by (auto simp: lookup_entry_def find_None_iff find_Some_iff split: option.splits)

lemma lookup_entry_first:
  assumes "entries = pre @ e # post" "\<not> isSpecial e" "name_of fs e = name"
    and "\<And>d. d \<in> set pre \<Longrightarrow> isSpecial d \<or> name_of fs d \<noteq> name"
  shows "lookup_entry env fs entries name = Some e"
proof -
  have "find (\<lambda>e. \<not> isSpecial e \<and> name_of fs e = name) entries = Some e"
    unfolding assms(1) using assms(2-4) by (induction pre) auto
  then show ?thesis by (simp add: lookup_entry_def)
qed

text \<open>Where every name is upper-case ASCII, the case of the letters asked for does not matter.\<close>

lemma lookup_entry_upper:
  assumes names: "\<And>e. e \<in> set entries \<Longrightarrow> \<not> isSpecial e \<Longrightarrow>
      ascii (name_of fs e) \<and> upper_ascii (name_of fs e) = name_of fs e"
    and found: "lookup_entry env fs entries name = Some e" "name_of fs e = name"
    and asked: "upper_ascii k = name"
  shows "lookup_entry env fs entries k = Some e"
proof -
  let ?is = "\<lambda>n e. \<not> isSpecial e \<and> name_of fs e = n"
  have e: "e \<in> set entries" "\<not> isSpecial e" using lookup_entry_Some [OF found(1)] by simp_all
  have exact: "find (?is name) entries = Some e"
    using found e by (auto simp: lookup_entry_def find_None_iff split: option.splits)
  show ?thesis
  proof (cases "k = name")
    case True
    then show ?thesis using found(1) by simp
  next
    case False
    then have "find (?is k) entries = None"
      using names asked by (auto simp: find_None_iff)
    moreover have "ascii k" using names [OF e] asked found(2) by (metis ascii_upper)
    then have "find (\<lambda>e. \<not> isSpecial e \<and> equal_fold (env_fold env) (name_of fs e) k) entries
        = find (?is name) entries"
      using names asked by (intro find_cong) (auto simp: equal_fold_ascii)
    ultimately show ?thesis using exact by (simp add: lookup_entry_def)
  qed
qed

text \<open>The step of the walk, with the searches evaluated.\<close>

lemma resolve_walk_step:
  "resolve_walk env fs cur (name # rest) followFinal hops =
     (if \<not> isDir cur then Inl (Wrap ''%w: %q'' [Sentinel ErrNotDirectory])
      else
        res_bind (read_dir env fs cur) (\<lambda>entries.
        case lookup_entry env fs entries name of
          None \<Rightarrow> Inl (Wrap ''%w: %q'' [Sentinel ErrNotFound])
        | Some child \<Rightarrow>
            res_bind
              (if rr_isSymlink (rr_of fs child) \<and> (rest \<noteq> [] \<or> followFinal) then
                 resolveFrom env fs
                   (if has_prefix (rr_symlink (rr_of fs child)) [slash] then fs_root fs else cur)
                   (splitPath (rr_symlink (rr_of fs child))) True (hops + 1)
               else Inr child)
              (\<lambda>next_rec. resolve_walk env fs next_rec rest followFinal hops)))"
  by (simp only: resolve_walk.simps(2) find_child_eq rrFor_eq res_bind_simps)

text \<open>
  \<^verbatim>\<open>splitPath\<close> drops empty components and \<^verbatim>\<open>"."\<close>, but not \<^verbatim>\<open>".."\<close>, which is looked up like any
  other name: the target of a link that goes through a parent directory is not found, unless
  an entry of the image has that name.
\<close>

lemma parent_component_not_found:
  assumes "isDir cur" "read_dir env fs cur = Inr entries"
    and "\<forall>e \<in> set entries. isSpecial e
      \<or> name_of fs e \<noteq> [dot, dot] \<and> \<not> equal_fold (env_fold env) (name_of fs e) [dot, dot]"
  shows "splitPath [dot, dot, slash, dot] = [[dot, dot]]"
    "resolve_walk env fs cur ([dot, dot] # rest) followFinal hops
      = Inl (Wrap ''%w: %q'' [Sentinel ErrNotFound])"
proof -
  show "splitPath [dot, dot, slash, dot] = [[dot, dot]]"
    by (simp add: splitPath_def dot_def slash_def)
  have "find (\<lambda>e. \<not> isSpecial e \<and> name_of fs e = [dot, dot]) entries = None"
    "find (\<lambda>e. \<not> isSpecial e \<and> equal_fold (env_fold env) (name_of fs e) [dot, dot]) entries = None"
    using assms(3) by (auto simp: find_None_iff)
  then have "lookup_entry env fs entries [dot, dot] = None" by (simp add: lookup_entry_def)
  then show "resolve_walk env fs cur ([dot, dot] # rest) followFinal hops
      = Inl (Wrap ''%w: %q'' [Sentinel ErrNotFound])"
    using assms(1,2) by (simp add: resolve_walk_step)
qed

section \<open>Resolution of composed paths\<close>

text \<open>Intermediate symbolic links are always followed, so a walk splits at any component.\<close>

lemma resolve_walk_append:
  assumes "qs \<noteq> []"
  shows "resolve_walk env fs cur (ps @ qs) followFinal hops =
    res_bind (resolve_walk env fs cur ps True hops) (\<lambda>r. resolve_walk env fs r qs followFinal hops)"
proof (induction ps arbitrary: cur)
  case (Cons p ps)
  have bind_assoc: "res_bind (res_bind r f) g = res_bind r (\<lambda>x. res_bind (f x) g)"
    for r :: "'a res" and f :: "'a \<Rightarrow> 'b res" and g :: "'b \<Rightarrow> 'c res"
    by (cases r) auto
  show ?case
    using assms by (cases "isDir cur"; cases "read_dir env fs cur")
      (auto simp: resolve_walk_step Cons.IH bind_assoc split: option.splits)
qed simp

section \<open>Listing\<close>

lemma ListDir_eq:
  "ListDir env fs path =
     res_bind (resolve env fs path) (\<lambda>rec. res_bind (read_dir env fs rec) (\<lambda>entries.
       Inr (map (\<lambda>e. \<lparr>de_ino = ucast (dr_ExtentLBA e), de_name = name_of fs e,
                      de_type = (if isDir e then 2 else 0)\<rparr>)
            (filter (\<lambda>e. \<not> isSpecial e) entries))))"
  unfolding ListDir_def by (simp add: dir_entry_def map_res_Inr)

text \<open>Every listed name leads back to an entry with that name.\<close>

lemma resolveNoFollow_path:
  assumes "splitPath q \<noteq> []"
  shows "resolveNoFollow env fs (p @ slash # q) =
    res_bind (resolve env fs p) (\<lambda>r. resolve_walk env fs r (splitPath q) False 0)"
    "resolve env fs (p @ slash # q) =
    res_bind (resolve env fs p) (\<lambda>r. resolve_walk env fs r (splitPath q) True 0)"
  using resolve_walk_append [OF assms]
  by (simp_all add: resolveNoFollow_def resolve_def resolveFrom.simps splitPath_append)

lemma splitPath_component: "component s \<Longrightarrow> splitPath s = [s]"
  using splitPath_join(1) [of "[s]"] by simp

lemma read_dir_isDir: "read_dir env fs rec = Inr es \<Longrightarrow> isDir rec"
  by (auto simp: read_dir_def readDirRecords_def split: if_splits)

section \<open>A small image\<close>

text \<open>
  A root directory of two entries in one block: a symbolic link \<open>A\<close> to itself and a regular
  file \<open>B\<close>.  It instantiates the theorems below.
\<close>

definition sample_entry :: "byte \<Rightarrow> byte list \<Rightarrow> byte list" where
  "sample_entry name sua =
     byte_of_nat (34 + length sua) # replicate 31 0 @ [1, name] @ sua"

definition sample_dir :: "byte list" where
  "sample_dir = sample_entry 0x41 (susp_entry chr_S chr_L [0, 0, 1, 0x41]) @ sample_entry 0x42 []"

definition sample_root :: dirRecord where
  "sample_root = zero_dirRecord\<lparr>dr_Flags := 2, dr_Size := 76\<rparr>"

definition sample_env :: go_env where
  "sample_env = \<lparr>env_grow = (\<lambda>_ n. n), env_fold = (\<lambda>_ _. False)\<rparr>"

definition sample_fs :: FS where
  "sample_fs =
     \<lparr>fs_rs = bytes_reader sample_dir, fs_size = 76, fs_vol = zero_Volume\<lparr>v_BlockSize := 128\<rparr>,
      fs_root = sample_root, fs_joliet = False, fs_suspSkip = 0, fs_closer = None\<rparr>"

definition sample_A :: dirRecord where
  "sample_A = zero_dirRecord\<lparr>dr_Length := 42, dr_rawName := [0x41], dr_Name := [0x41],
     dr_sysUse := susp_entry chr_S chr_L [0, 0, 1, 0x41]\<rparr>"

definition sample_B :: dirRecord where
  "sample_B = zero_dirRecord\<lparr>dr_Length := 34, dr_rawName := [0x42], dr_Name := [0x42]\<rparr>"

lemma sample_record:
  assumes "length sua \<le> 200" "name \<noteq> 0" "name \<noteq> 1" "name \<noteq> semicolon" "name \<noteq> dot"
  shows "record_ok (sample_entry name sua @ rest)"
    "record_at (sample_entry name sua @ rest) =
      zero_dirRecord\<lparr>dr_Length := byte_of_nat (34 + length sua), dr_rawName := [name],
        dr_Name := [name], dr_sysUse := sua\<rparr>"
proof -
  let ?b = "sample_entry name sua @ rest"
  have b0: "unat (?b ! 0) = 34 + length sua" using assms(1) by (simp add: sample_entry_def)
  have b32: "?b ! 32 = 1" by (simp add: sample_entry_def nth_append nth_Cons')
  show "record_ok ?b" using b0 b32 by (simp add: record_ok_def sample_entry_def)
  have d: "drop 2 ?b = replicate 30 0 @ [1, name] @ sua @ rest"
      "drop 10 ?b = replicate 22 0 @ [1, name] @ sua @ rest"
      "drop 33 ?b = name # sua @ rest" "?b ! 25 = 0"
    by (simp_all add: sample_entry_def nth_append nth_Cons' drop_Cons')
  have le: "le32 (drop 2 ?b) = Inr 0" "le32 (drop 10 ?b) = Inr 0"
    unfolding d by (simp_all add: le32_eq nth_append)
  have "cut_version [name] = [name]"
    by (rule cut_version_version(2)) (use assms(4,5) in auto)
  then have cn: "cleanName [name] = [name]" using assms(2,3) by (simp add: cleanName_def)
  obtain H where H: "?b = H @ sua @ rest" "length H = 34"
    by (rule that [of "byte_of_nat (34 + length sua) # replicate 31 0 @ [1, name]"])
      (simp_all add: sample_entry_def)
  have "drop 34 (take (34 + length sua) ?b) = sua" unfolding H(1) using H(2) by simp
  then show "record_at ?b = zero_dirRecord\<lparr>dr_Length := byte_of_nat (34 + length sua),
      dr_rawName := [name], dr_Name := [name], dr_sysUse := sua\<rparr>"
    unfolding record_at_def Let_def b0 b32 le d(3,4)
    by (simp add: cn zero_dirRecord_def del: drop_append take_append) (simp add: sample_entry_def)
qed

lemma sample_read: "read_dir sample_env sample_fs sample_root = Inr [sample_A, sample_B]"
proof -
  let ?l = "susp_entry chr_S chr_L [0, 0, 1, 0x41]"
  have ne: "(0x41 :: byte) \<noteq> semicolon" "(0x41 :: byte) \<noteq> dot" "(0x42 :: byte) \<noteq> semicolon"
      "(0x42 :: byte) \<noteq> dot" by (simp_all add: semicolon_def dot_def)
  have len: "length (sample_entry n s) = 34 + length s" for n s by (simp add: sample_entry_def)
  have A: "record_ok (drop 0 sample_dir)" "record_at (drop 0 sample_dir) = sample_A" "unat (sample_dir ! 0) = 42"
    using sample_record [of ?l "0x41" "sample_entry 0x42 []"] ne
    by (simp_all add: sample_dir_def sample_A_def byte_of_nat_def) (simp add: sample_entry_def)
  have B: "drop 42 sample_dir = sample_entry 0x42 [] @ []" "sample_dir ! 42 = 34" "length sample_dir = 76"
    by (simp_all add: sample_dir_def len nth_append) (simp add: sample_entry_def byte_of_nat_def)
  have B': "record_ok (drop 42 sample_dir)" "record_at (drop 42 sample_dir) = sample_B"
    unfolding B(1) using sample_record [of "[]" "0x42" "[]"] ne
    by (simp_all add: sample_B_def byte_of_nat_def zero_dirRecord_def)
  have p: "parse_records 128 sample_dir 0 = Inr [sample_A, sample_B]"
    using parse_records_step [OF A(1)] parse_records_step [OF B'(1)] A(2,3) B B'(2)
    by (simp add: parse_records_end)
  have m: "mergeMultiExtent [sample_A, sample_B] = Inr [sample_A, sample_B]"
    by (simp add: sample_A_def sample_B_def zero_dirRecord_def isDir_def multiExt_def)
  have "bytes_at (image_content sample_dir) (ext_off (zero_Volume\<lparr>v_BlockSize := 128\<rparr>) (rec_extent sample_root)) 76
      = sample_dir"
    using B(3) by (simp add: sample_root_def rec_extent_def zero_dirRecord_def ext_off_def bytes_at_image)
  with mem.readDirRecords_complete [where rec = sample_root and img = sample_dir and maxAlloc = 76
      and vol = "zero_Volume\<lparr>v_BlockSize := 128\<rparr>" and gc = "\<lambda>_ n. n"] p m B(3)
  show ?thesis
    by (simp add: read_dir_def sample_fs_def sample_env_def allocCeiling_def)
      (simp add: sample_root_def zero_dirRecord_def isDir_def flagDirectory_def rec_extent_def ext_off_def)
qed

lemma sample_rr:
  "rr_of sample_fs sample_A = zero_rrInfo\<lparr>rr_isSymlink := True, rr_symlink := [0x41]\<rparr>"
  "rr_of sample_fs sample_B = zero_rrInfo"
  "name_of sample_fs sample_A = [0x41]" "name_of sample_fs sample_B = [0x42]"
proof -
  let ?l = "susp_entry chr_S chr_L [0, 0, 1, 0x41]"
  have sua: "dr_sysUse sample_A = ?l" by (simp add: sample_A_def)
  have ce: "ceEntry ?l = Inr None"
    by (simp add: ceEntry.simps susp_head_eq susp_entry_def chr_defs byte_of_nat_def)
  have comps: "sl_area [(0, [(0, [0x41])])] = ?l" by (simp add: sl_area_def sl_bytes_def byte_of_nat_def)
  have pr: "parseRockRidge ?l = Inr (zero_rrInfo\<lparr>rr_isSymlink := True, rr_symlink := [0x41]\<rparr>)"
    using parseRockRidge_sl [of "[(0, [(0, [0x41])])]" False "[CName [] [0x41]]", unfolded comps]
    by (simp add: sl_bytes_def slash_def)
  have len: "length ?l = 8" by simp
  have "rrFor sample_fs sample_A = Inr (zero_rrInfo\<lparr>rr_isSymlink := True, rr_symlink := [0x41]\<rparr>)"
    unfolding rrFor_def sua collectSUSP_def using len ce pr
    by (simp add: sample_fs_def eval_nat_numeral del: rrFor_eq)
  then show A: "rr_of sample_fs sample_A = zero_rrInfo\<lparr>rr_isSymlink := True, rr_symlink := [0x41]\<rparr>"
    by (simp only: rr_of_def sum.sel)
  have "rrFor sample_fs sample_B = Inr zero_rrInfo"
    by (simp add: rrFor_def sample_fs_def sample_B_def zero_dirRecord_def del: rrFor_eq)
  then show B: "rr_of sample_fs sample_B = zero_rrInfo" by (simp only: rr_of_def sum.sel)
  show "name_of sample_fs sample_A = [0x41]" "name_of sample_fs sample_B = [0x42]"
    unfolding name_of_def effectiveName_def rrFor_eq res_bind_simps A B
    by (simp_all add: zero_rrInfo_def sample_fs_def) (simp_all add: sample_A_def sample_B_def)
qed

lemma sample_isDir [simp]: "isDir sample_root" "isSpecial sample_A = False" "isSpecial sample_B = False"
    "fs_root sample_fs = sample_root"
  by (simp_all add: sample_root_def sample_A_def sample_B_def zero_dirRecord_def isDir_def
      flagDirectory_def isSpecial_def sample_fs_def)

lemma sample_resolve_B:
  "resolve sample_env sample_fs [0x42] = Inr sample_B"
  "resolveNoFollow sample_env sample_fs [0x42] = Inr sample_B"
proof -
  have "component [0x42]" by (simp add: component_def dot_def slash_def)
  then have "splitPath [0x42] = [[0x42]]" by (rule splitPath_component)
  moreover have "lookup_entry sample_env sample_fs [sample_A, sample_B] [0x42] = Some sample_B"
    by (simp add: lookup_entry_def sample_rr)
  ultimately show "resolve sample_env sample_fs [0x42] = Inr sample_B"
    "resolveNoFollow sample_env sample_fs [0x42] = Inr sample_B"
    by (simp_all add: resolve_def resolveNoFollow_def resolveFrom.simps resolve_walk_step sample_read
        sample_rr maxSymlinkHops_def zero_rrInfo_def)
qed

lemma sample_list: "ListDir sample_env sample_fs [] =
    Inr [\<lparr>de_ino = 0, de_name = [0x41], de_type = 0\<rparr>, \<lparr>de_ino = 0, de_name = [0x42], de_type = 0\<rparr>]"
  by (simp add: ListDir_eq resolve_def resolveFrom.simps sample_read sample_rr maxSymlinkHops_def)
    (simp add: sample_A_def sample_B_def zero_dirRecord_def isDir_def)

section \<open>Properties\<close>

text \<open>
  An exact match wins over a case-insensitive one, and the first exact match over later
  ones: a component that names an entry of a directory exactly resolves to the first such
  entry, whatever case-variants the directory lists before it.
\<close>

theorem exact_match_first:
  assumes "read_dir env fs d = Inr (pre @ e # post)" "\<not> isSpecial e" "name_of fs e = name"
    and "\<forall>x \<in> set pre. isSpecial x \<or> name_of fs x \<noteq> name"
  shows "resolve_walk env fs d [name] False hops = Inr e"
  using read_dir_isDir [OF assms(1)] assms(1) lookup_entry_first [where env = env, OF refl assms(2,3)]
    assms(4) by (simp add: resolve_walk_step)

theorem exact_match_first_witness:
  "resolve_walk sample_env sample_fs sample_root [[0x42]] False 0 = Inr sample_B"
  using exact_match_first [of sample_env sample_fs sample_root "[sample_A]" sample_B "[]" "[0x42]" 0]
  by (simp add: sample_read sample_rr)

text \<open>
  C33: what \<^verbatim>\<open>ListDir\<close> lists can be looked up: appending a listed name to the path resolves,
  without following a final link, to an entry of that name.  (A name that is no path
  component, such as one with a separator in it, cannot be asked for.)
\<close>

theorem ListDir_resolves:
  assumes "ListDir env fs path = Inr ds" "d \<in> set ds" "component (de_name d)"
  shows "\<exists>r. resolveNoFollow env fs (path @ slash # de_name d) = Inr r
    \<and> name_of fs r = de_name d \<and> \<not> isSpecial r"
proof -
  from assms(1) obtain rec es where r: "resolve env fs path = Inr rec" "read_dir env fs rec = Inr es"
      and ds: "ds = map (\<lambda>e. \<lparr>de_ino = ucast (dr_ExtentLBA e), de_name = name_of fs e,
                      de_type = (if isDir e then 2 else 0)\<rparr>) (filter (\<lambda>e. \<not> isSpecial e) es)"
    by (auto simp: ListDir_eq res_inv)
  from assms(2) obtain e where e: "e \<in> set es" "\<not> isSpecial e" "name_of fs e = de_name d"
    by (auto simp: ds)
  obtain e' where l: "lookup_entry env fs es (de_name d) = Some e'" "name_of fs e' = de_name d"
    using lookup_entry_exact [OF e] by blast
  have sp: "splitPath (de_name d) = [de_name d]" by (rule splitPath_component [OF assms(3)])
  have "resolveNoFollow env fs (path @ slash # de_name d) = Inr e'"
    using resolveNoFollow_path(1) [of "de_name d" env fs path] sp r read_dir_isDir [OF r(2)] l(1)
    by (simp add: resolve_walk_step)
  with l lookup_entry_Some [OF l(1)] show ?thesis by blast
qed

theorem ListDir_resolves_witness:
  "\<exists>r. resolveNoFollow sample_env sample_fs ([] @ slash # [0x42]) = Inr r \<and> name_of sample_fs r = [0x42]"
  using ListDir_resolves [OF sample_list, of "\<lparr>de_ino = 0, de_name = [0x42], de_type = 0\<rparr>"]
  by (auto simp: component_def dot_def slash_def)

text \<open>
  C35: \<^verbatim>\<open>OpenFile(path)\<close> never leaks the host file: once the host has opened it, a failure
  closes it exactly once, and a success leaves it open and hands its \<^verbatim>\<open>Close\<close> to the file
  system.
\<close>

theorem OpenHostFile_no_leak:
  assumes "os_Open path = Inr f" "OpenHostFile env os_Open path = (r, closes)"
  shows "(case r of Inl e \<Rightarrow> closes = 1 | Inr fs \<Rightarrow> closes = 0 \<and> FS_Close fs = hf_close f)"
proof -
  have "fs_closer fs = Some (hf_close f)"
    if "Open env (hf_reader f) sz (Some (hf_close f)) = Inr fs" for sz fs
    using that by (auto simp: Open_def res_inv dest!: chooseTree_frame)
  then show ?thesis
    using assms by (auto simp: OpenHostFile_def FS_Close_def split: sum.splits)
qed

theorem OpenHostFile_no_leak_witness:
  "snd (OpenHostFile sample_env
     (\<lambda>_. Inr \<lparr>hf_reader = bytes_reader [], hf_stat = Inl (Device 0), hf_close = None\<rparr>) []) = 1"
proof -
  let ?f = "\<lparr>hf_reader = bytes_reader [], hf_stat = Inl (Device 0), hf_close = None\<rparr>"
  obtain r c where r: "OpenHostFile sample_env (\<lambda>_. Inr ?f) [] = (r, c)" by (metis surj_pair)
  have "r = Inl (Wrap ''iso9660: stat %s: %w'' [Device 0])" using r by (simp add: OpenHostFile_def)
  with OpenHostFile_no_leak [OF _ r] r show ?thesis by simp
qed

end
