(* ===== verification/RandomAccess.thy ===== *)
theory RandomAccess
  imports FSys
begin

text \<open>
  \<^verbatim>\<open>openfile.go\<close>: an open file as a list of placed extents, and reads at an offset.  The
  loop of \<^verbatim>\<open>ReadAt\<close> makes progress only as far as the reader does, so it is a
  \<^theory_text>\<open>partial_function\<close> whose value \<open>None\<close> is "does not return";
  \<open>iso_read_loop_device\<close> shows that it returns for every reader that keeps the contract.
\<close>

section \<open>State\<close>

record fileExtent =
  fe_fileOff :: int
  fe_diskOff :: int
  fe_size :: int

record isoFile =
  if_rs :: reader
  if_extents :: "fileExtent list"
  if_size :: int
  if_covered :: int
  if_closed :: bool

section \<open>Opening\<close>

fun place_extents :: "Volume \<Rightarrow> int \<Rightarrow> extent list \<Rightarrow> int \<Rightarrow> (fileExtent list \<times> int) res" where
  "place_extents vol sz [] covered = Inr ([], covered)"
| "place_extents vol sz (e # es) covered =
     (if ext_size e = 0 then place_extents vol sz es covered
      else if covered + int (ext_len e) > sz
      then Inl (Wrap ''%w: file extent @LBA %d overruns size %d'' [Sentinel ErrCorrupt])
      else
        res_bind (place_extents vol sz es (covered + int (ext_len e))) (\<lambda>(placed, c).
          Inr (\<lparr>fe_fileOff = covered, fe_diskOff = ext_off vol e, fe_size = int (ext_len e)\<rparr>
                 # placed, c)))"

definition openRecord :: "FS \<Rightarrow> dirRecord \<Rightarrow> isoFile res" where
  "openRecord fs rec =
     (if isDir rec then Inl (Sentinel ErrNotRegular)
      else
        let sz = int (unat (dr_Size rec)) in
        if fs_size fs \<ge> 0 \<and> sz > fs_size fs
        then Inl (Wrap ''%w: file size %d exceeds image size %d'' [Sentinel ErrCorrupt])
        else
          res_bind (place_extents (fs_vol fs) sz (rec_extents rec) 0) (\<lambda>(placed, covered).
            Inr \<lparr>if_rs = fs_rs fs, if_extents = placed, if_size = sz, if_covered = covered,
                 if_closed = False\<rparr>))"

definition OpenFile :: "go_env \<Rightarrow> FS \<Rightarrow> gostring \<Rightarrow> isoFile res" where
  "OpenFile env fs path = res_bind (resolve env fs path) (openRecord fs)"

definition File_Size :: "isoFile \<Rightarrow> int" where
  "File_Size f = if_size f"

definition File_Close :: "isoFile \<Rightarrow> isoFile \<times> goerror option" where
  "File_Close f = (f\<lparr>if_closed := True\<rparr>, None)"

lemma place_extents_safe [safe_intros]: "safe (place_extents vol sz es covered)"
  by (induction es arbitrary: covered) (auto intro!: safe_bind)

lemma OpenFile_safe: "wf_fs fs \<Longrightarrow> counted (fs_rs fs) \<Longrightarrow> safe (OpenFile env fs path)"
  by (auto simp: OpenFile_def openRecord_def Let_def intro!: safe_bind safe_intros)

section \<open>Binary search\<close>

text \<open>\<^verbatim>\<open>sort.Search\<close>.\<close>

function search_loop :: "(nat \<Rightarrow> bool) \<Rightarrow> nat \<Rightarrow> nat \<Rightarrow> nat" where
  "search_loop f i j =
     (if i < j then
        let h = (i + j) div 2 in
        if \<not> f h then search_loop f (h + 1) j else search_loop f i h
      else i)"
  by pat_completeness auto
termination
  by (relation "measure (\<lambda>(f, i, j). j - i)") (auto simp: Let_def)

declare search_loop.simps [simp del]

definition sort_Search :: "nat \<Rightarrow> (nat \<Rightarrow> bool) \<Rightarrow> nat" where
  "sort_Search n f = search_loop f 0 n"

text \<open>For a test that stays true once it is, the result is the least index that passes it.\<close>

lemma search_loop_least:
  assumes mono: "\<And>a b. a \<le> b \<Longrightarrow> b < n \<Longrightarrow> f a \<Longrightarrow> f b"
    and "i \<le> j" "j \<le> n" "\<And>k. k < i \<Longrightarrow> \<not> f k" "j < n \<Longrightarrow> f j"
  shows "search_loop f i j \<le> n \<and> (\<forall>k < search_loop f i j. \<not> f k)
    \<and> (search_loop f i j < n \<longrightarrow> f (search_loop f i j))"
  using assms(2-5)
proof (induction "j - i" arbitrary: i j rule: less_induct)
  case less
  show ?case
  proof (cases "i < j")
    case False
    then have "search_loop f i j = i" by (simp add: search_loop.simps [of f i j])
    moreover have "i = j" using False less.prems(1) by simp
    ultimately show ?thesis using less.prems by auto
  next
    case True
    define h where "h = (i + j) div 2"
    have h: "i \<le> h" "h < j" using True by (auto simp: h_def)
    show ?thesis
    proof (cases "f h")
      case False
      have low: "\<not> f k" if "k < h + 1" for k
        using mono [of k h] that h less.prems(2) False by auto
      have "search_loop f i j = search_loop f (h + 1) j"
        using True False by (simp add: search_loop.simps [of f i j] h_def)
      then show ?thesis using less.hyps [of j "h + 1"] h low less.prems by auto
    next
      case f: True
      have "search_loop f i j = search_loop f i h"
        using True f by (simp add: search_loop.simps [of f i j] h_def)
      then show ?thesis using less.hyps [of h i] h f less.prems by auto
    qed
  qed
qed

lemma sort_Search_least:
  assumes "\<forall>a b. a \<le> b \<longrightarrow> b < n \<longrightarrow> f a \<longrightarrow> f b"
  shows "sort_Search n f \<le> n \<and> (\<forall>k < sort_Search n f. \<not> f k)
    \<and> (sort_Search n f < n \<longrightarrow> f (sort_Search n f))"
  unfolding sort_Search_def by (rule search_loop_least) (use assms in auto)

section \<open>Reading at an offset\<close>

text \<open>
  One round of the loop: it returns from the call with the buffer, the count and the error, or goes
  on from a position in the buffer.  The count the reader returns is used as it is.  A negative
  one can take the position below 0; the next round then slices or indexes the buffer there and
  panics on either branch, which is recorded here at once.
\<close>

datatype read_round =
    Return "byte list" int "goerror option"
  | Continue "byte list" nat

definition iso_read_round :: "isoFile \<Rightarrow> byte list \<Rightarrow> int \<Rightarrow> nat \<Rightarrow> read_round" where
  "iso_read_round f p off n =
     (if n < length p then
        let cur = off + int n in
        if cur \<ge> if_size f then Return p (int n) (Some (Sentinel EOF))
        else
          let want = min (int (length p - n)) (if_size f - cur) in
          if cur \<ge> if_covered f
          then Continue (splice p n (replicate (nat want) 0)) (n + nat want)
          else
            let i = sort_Search (length (if_extents f))
                      (\<lambda>i. fe_fileOff (if_extents f ! i) + fe_size (if_extents f ! i) > cur) in
            if i \<ge> length (if_extents f) then Return p (int n) (Some (Panic ''index out of range''))
            else
              let e = if_extents f ! i;
                  chunk = min (fe_fileOff e + fe_size e - cur) want;
                  (seg, m, err) = read_into (if_rs f) (take (nat chunk) (drop n p))
                                    (fe_diskOff e + (cur - fe_fileOff e));
                  p' = splice p n seg
              in (case err of
                    Some x \<Rightarrow>
                      Return p' (int n + m) (Some (Wrap ''iso9660: read file extent @offset %d: %w'' [x]))
                  | None \<Rightarrow>
                      if int n + m < 0
                      then Return p' (int n + m) (Some (Panic ''slice bounds out of range''))
                      else Continue p' (nat (int n + m)))
      else Return p (int n) None)"

partial_function (option) iso_read_loop ::
    "isoFile \<Rightarrow> byte list \<Rightarrow> int \<Rightarrow> nat \<Rightarrow> (byte list \<times> int \<times> goerror option) option"
where
  "iso_read_loop f p off n =
     (case iso_read_round f p off n of
        Return p' m err \<Rightarrow> Some (p', m, err)
      | Continue p' m \<Rightarrow> iso_read_loop f p' off m)"

text \<open>The buffer, the count and the error; \<open>None\<close> when the call does not return.\<close>

definition ReadAt :: "isoFile \<Rightarrow> byte list \<Rightarrow> int \<Rightarrow> (byte list \<times> int \<times> goerror option) option" where
  "ReadAt f p off =
     (if if_closed f then Some (p, 0, Some (Sentinel OsErrClosed))
      else if off < 0 then Some (p, 0, Some (Wrap ''iso9660: ReadAt: negative offset %d'' []))
      else if off \<ge> if_size f then Some (p, 0, Some (Sentinel EOF))
      else iso_read_loop f p off 0)"

section \<open>Placed extents\<close>

text \<open>The extents of an open file are adjacent, not empty, and cover \<open>[c, d)\<close>.\<close>

fun placed :: "int \<Rightarrow> fileExtent list \<Rightarrow> int \<Rightarrow> bool" where
  "placed c [] d = (c = d)"
| "placed c (e # es) d = (fe_fileOff e = c \<and> 0 < fe_size e \<and> placed (c + fe_size e) es d)"

definition fe_end :: "fileExtent \<Rightarrow> int" where
  "fe_end e = fe_fileOff e + fe_size e"

lemma placed_le: "placed c es d \<Longrightarrow> c \<le> d"
  by (induction c es d rule: placed.induct) auto

lemma placed_nth:
  "placed c es d \<Longrightarrow> i < length es \<Longrightarrow>
   c \<le> fe_fileOff (es ! i) \<and> 0 < fe_size (es ! i) \<and> fe_end (es ! i) \<le> d
   \<and> (i = 0 \<longrightarrow> fe_fileOff (es ! i) = c) \<and> (0 < i \<longrightarrow> fe_fileOff (es ! i) = fe_end (es ! (i - 1)))
   \<and> (Suc i = length es \<longrightarrow> fe_end (es ! i) = d)"
proof (induction c es d arbitrary: i rule: placed.induct)
  case (2 c e es d)
  from "2.prems"(1) have e: "fe_fileOff e = c" "0 < fe_size e" and pl: "placed (c + fe_size e) es d"
    by simp_all
  show ?case
  proof (cases i)
    case 0
    have "es = [] \<Longrightarrow> c + fe_size e = d" using pl by auto
    then show ?thesis using 0 e placed_le [OF pl] by (simp add: fe_end_def)
  next
    case (Suc j)
    then have j: "j < length es" using "2.prems"(2) by simp
    note IH = "2.IH" [OF pl j]
    show ?thesis
    proof (cases j)
      case 0
      then show ?thesis using IH Suc e j by (cases es) (auto simp: fe_end_def)
    next
      case (Suc k)
      have nths: "(e # es) ! i = es ! j" "(e # es) ! (i - 1) = es ! (j - 1)"
        using Suc \<open>i = Suc j\<close> by simp_all
      show ?thesis unfolding nths using IH Suc \<open>i = Suc j\<close> e by auto
    qed
  qed
qed simp

lemma placed_ends_mono:
  assumes "placed c es d" "i \<le> j" "j < length es"
  shows "fe_end (es ! i) \<le> fe_end (es ! j)"
  using assms(2,3)
proof (induction rule: dec_induct)
  case (step k)
  have "fe_fileOff (es ! Suc k) = fe_end (es ! k)" "0 < fe_size (es ! Suc k)"
    using placed_nth [OF assms(1), of "Suc k"] step by auto
  then show ?case using step by (simp add: fe_end_def)
qed simp

text \<open>The search of \<^verbatim>\<open>ReadAt\<close> finds the extent that holds a covered position.\<close>

lemma placed_search:
  assumes "placed c es d" "c \<le> cur" "cur < d"
    and i: "i = sort_Search (length es) (\<lambda>i. fe_fileOff (es ! i) + fe_size (es ! i) > cur)"
  shows "i < length es" "fe_fileOff (es ! i) \<le> cur" "cur < fe_end (es ! i)"
proof -
  let ?f = "\<lambda>i. fe_fileOff (es ! i) + fe_size (es ! i) > cur"
  have "\<forall>a b. a \<le> b \<longrightarrow> b < length es \<longrightarrow> ?f a \<longrightarrow> ?f b"
    using placed_ends_mono [OF assms(1)] by (fastforce simp: fe_end_def)
  then have S: "\<And>k. k < i \<Longrightarrow> \<not> ?f k" and S': "i < length es \<Longrightarrow> ?f i"
    using sort_Search_least [of "length es" ?f] unfolding i by blast+
  have ne: "es \<noteq> []" using assms by auto
  show lt: "i < length es"
  proof (rule ccontr)
    assume "\<not> i < length es"
    then have "length es - 1 < i" using ne by (cases es) auto
    then have "\<not> ?f (length es - 1)" by (rule S)
    moreover have "fe_end (es ! (length es - 1)) = d"
      using placed_nth [OF assms(1), of "length es - 1"] ne by auto
    ultimately show False using assms(3) by (simp add: fe_end_def)
  qed
  then show "cur < fe_end (es ! i)" using S' by (simp add: fe_end_def)
  show "fe_fileOff (es ! i) \<le> cur"
  proof (cases i)
    case 0
    then show ?thesis using placed_nth [OF assms(1) lt] assms(2) by simp
  next
    case (Suc k)
    then have "fe_end (es ! k) \<le> cur" using S [of k] by (simp add: fe_end_def)
    then show ?thesis using placed_nth [OF assms(1) lt] Suc by simp
  qed
qed

section \<open>The file an open file serves\<close>

text \<open>
  \<open>serves content f F\<close>: the placed extents of \<open>f\<close> show the bytes of \<open>F\<close>, and \<open>F\<close> is zero
  past what they cover.
\<close>

definition serves :: "(int \<Rightarrow> byte) \<Rightarrow> isoFile \<Rightarrow> byte list \<Rightarrow> bool" where
  "serves content f F \<longleftrightarrow>
     if_size f = int (length F) \<and> if_covered f \<le> int (length F)
     \<and> placed 0 (if_extents f) (if_covered f)
     \<and> (\<forall>e \<in> set (if_extents f). \<forall>k. 0 \<le> k \<and> k < fe_size e \<longrightarrow>
           F ! nat (fe_fileOff e + k) = content (fe_diskOff e + k))
     \<and> (\<forall>i < length F. if_covered f \<le> int i \<longrightarrow> F ! i = 0)"

definition on_medium :: "int \<Rightarrow> isoFile \<Rightarrow> bool" where
  "on_medium limit f \<longleftrightarrow>
     (\<forall>e \<in> set (if_extents f). 0 \<le> fe_diskOff e \<and> fe_diskOff e + fe_size e \<le> limit)"

lemma place_extents_ok:
  assumes "place_extents vol sz es covered = Inr (pl, c)" "0 \<le> covered" "covered \<le> sz"
    and "int (length pre) = covered"
  shows "placed covered pl c \<and> c = covered + int (extents_len es) \<and> c \<le> sz
    \<and> (\<forall>e \<in> set pl. \<forall>k. 0 \<le> k \<and> k < fe_size e \<longrightarrow>
         (pre @ extents_bytes content vol es) ! nat (fe_fileOff e + k) = content (fe_diskOff e + k))
    \<and> (\<forall>e \<in> set pl. \<exists>x \<in> set es. ext_size x \<noteq> 0 \<and> fe_diskOff e = ext_off vol x
         \<and> fe_size e = int (ext_len x))"
  using assms
proof (induction es arbitrary: covered pl pre)
  case (Cons x es)
  show ?case
  proof (cases "ext_size x = 0")
    case True
    then have "extents_bytes content vol (x # es) = extents_bytes content vol es"
        "extents_len (x # es) = extents_len es"
      by (simp_all add: extents_bytes_def extents_len_def ext_len_0)
    then show ?thesis using Cons.IH [of covered pl pre] Cons.prems True by auto
  next
    case False
    let ?cov = "covered + int (ext_len x)"
    let ?e = "\<lparr>fe_fileOff = covered, fe_diskOff = ext_off vol x, fe_size = int (ext_len x)\<rparr>"
    let ?pre = "pre @ bytes_at content (ext_off vol x) (ext_len x)"
    from False Cons.prems(1) obtain pl' where fit: "?cov \<le> sz"
        and rest: "place_extents vol sz es ?cov = Inr (pl', c)" and pl: "pl = ?e # pl'"
      by (auto simp: res_inv split: if_splits)
    have IH: "placed ?cov pl' c \<and> c = ?cov + int (extents_len es) \<and> c \<le> sz
      \<and> (\<forall>e \<in> set pl'. \<forall>k. 0 \<le> k \<and> k < fe_size e \<longrightarrow>
           (?pre @ extents_bytes content vol es) ! nat (fe_fileOff e + k) = content (fe_diskOff e + k))
      \<and> (\<forall>e \<in> set pl'. \<exists>y \<in> set es. ext_size y \<noteq> 0 \<and> fe_diskOff e = ext_off vol y
           \<and> fe_size e = int (ext_len y))"
      by (rule Cons.IH [OF rest]) (use Cons.prems fit in auto)
    have bytes: "pre @ extents_bytes content vol (x # es) = ?pre @ extents_bytes content vol es"
      by (simp add: extents_bytes_def)
    have first: "(?pre @ extents_bytes content vol es) ! nat (covered + k) = content (ext_off vol x + k)"
      if "0 \<le> k" "k < int (ext_len x)" for k
    proof -
      have "nat (covered + k) = length pre + nat k" "nat k < ext_len x"
        using that Cons.prems(4) by auto
      then show ?thesis using that by (simp add: nth_append)
    qed
    have "0 < int (ext_len x)" using ext_len_pos [OF False] by simp
    then show ?thesis
      unfolding bytes pl using IH first False by (auto simp: extents_len_def)
  qed
qed (simp add: extents_len_def)

text \<open>\<^verbatim>\<open>OpenFile\<close> opens exactly the bytes \<^verbatim>\<open>readFile\<close> returns.\<close>

lemma openRecord_serves:
  assumes "openRecord fs rec = Inr f"
  shows "serves content f (file_bytes content (fs_vol fs) rec)" "if_rs f = fs_rs fs"
    "\<not> if_closed f" "File_Size f = int (unat (dr_Size rec))"
proof -
  let ?es = "rec_extents rec" and ?n = "unat (dr_Size rec)"
  let ?F = "file_bytes content (fs_vol fs) rec"
  from assms obtain pl c where
      p: "place_extents (fs_vol fs) (int ?n) ?es 0 = Inr (pl, c)"
      and f: "f = \<lparr>if_rs = fs_rs fs, if_extents = pl, if_size = int ?n, if_covered = c,
                 if_closed = False\<rparr>"
    by (auto simp: openRecord_def Let_def res_inv split: if_splits)
  note P = place_extents_ok [OF p, where content = content and pre = "[]", simplified]
  have c: "c = int (extents_len ?es)" using P by auto
  have "int (extents_len ?es) \<le> int ?n"
    using place_extents_ok [OF p, of "[]" content] by (simp only: list.size) linarith
  then have le: "extents_len ?es \<le> ?n" by (simp only: of_nat_le_iff)
  have len: "length ?F = ?n" using le by (simp add: file_bytes_def)
  have bytes: "?F ! nat (fe_fileOff e + k) = content (fe_diskOff e + k)"
    if "e \<in> set pl" "0 \<le> k" "k < fe_size e" for e k
  proof -
    from that(1) obtain i where "i < length pl" "e = pl ! i" by (auto simp: in_set_conv_nth)
    then have "0 \<le> fe_fileOff e" "fe_end e \<le> c" using placed_nth [of 0 pl c i] P by auto
    then have "nat (fe_fileOff e + k) < extents_len ?es"
      using that c by (simp add: fe_end_def nat_less_iff)
    then show ?thesis using P that by (simp add: file_bytes_def nth_append)
  qed
  have zeros: "?F ! i = 0" if "i < ?n" "c \<le> int i" for i
    using that c by (simp add: file_bytes_def nth_append)
  show "serves content f ?F"
    unfolding serves_def f len isoFile.simps
  proof (intro conjI ballI allI impI)
    show "c \<le> int ?n" unfolding c using le by (simp only: of_nat_le_iff)
    show "placed 0 pl c" using P by blast
  qed (use bytes zeros in auto)
qed (use assms in \<open>auto simp: openRecord_def Let_def res_inv File_Size_def split: if_splits\<close>)

section \<open>One iteration\<close>

lemma splice_parts:
  "n + length s \<le> length p \<Longrightarrow> splice p n s = take n p @ s @ drop (n + length s) p"
  by (simp add: splice_def)

lemma read_round_end: "length p \<le> n \<Longrightarrow> iso_read_round f p off n = Return p (int n) None"
  by (simp add: iso_read_round_def)

lemma read_round_eof:
  "n < length p \<Longrightarrow> if_size f \<le> off + int n \<Longrightarrow>
   iso_read_round f p off n = Return p (int n) (Some (Sentinel EOF))"
  by (simp add: iso_read_round_def)

definition read_want :: "isoFile \<Rightarrow> byte list \<Rightarrow> int \<Rightarrow> nat \<Rightarrow> int" where
  "read_want f p off n = min (int (length p - n)) (if_size f - (off + int n))"

lemma read_round_zero:
  "n < length p \<Longrightarrow> off + int n < if_size f \<Longrightarrow> if_covered f \<le> off + int n \<Longrightarrow>
   iso_read_round f p off n =
   Continue (splice p n (replicate (nat (read_want f p off n)) 0)) (n + nat (read_want f p off n))"
  by (simp add: iso_read_round_def Let_def read_want_def)

lemma read_round_read:
  assumes "n < length p" "off + int n < if_size f" "off + int n < if_covered f"
    and "i = sort_Search (length (if_extents f))
           (\<lambda>i. fe_fileOff (if_extents f ! i) + fe_size (if_extents f ! i) > off + int n)"
    and "i < length (if_extents f)" "e = if_extents f ! i"
    and "c = min (fe_end e - (off + int n)) (read_want f p off n)"
    and "read_into (if_rs f) (take (nat c) (drop n p)) (fe_diskOff e + (off + int n - fe_fileOff e))
           = (seg, m, err)"
  shows "iso_read_round f p off n =
     (case err of
        Some x \<Rightarrow> Return (splice p n seg) (int n + m)
                    (Some (Wrap ''iso9660: read file extent @offset %d: %w'' [x]))
      | None \<Rightarrow>
          if int n + m < 0
          then Return (splice p n seg) (int n + m) (Some (Panic ''slice bounds out of range''))
          else Continue (splice p n seg) (nat (int n + m)))"
  using assms
  by (simp add: iso_read_round_def Let_def read_want_def fe_end_def)

section \<open>ReadAt against the contract of the reader\<close>

text \<open>What holds between two iterations: the first \<open>n\<close> bytes of the buffer are the file's.\<close>

definition read_inv :: "byte list \<Rightarrow> byte list \<Rightarrow> int \<Rightarrow> byte list \<Rightarrow> nat \<Rightarrow> bool" where
  "read_inv F p0 off p n \<longleftrightarrow>
     length p = length p0 \<and> n \<le> length p \<and> off + int n \<le> int (length F)
     \<and> p = take n (drop (nat off) F) @ drop n p0"

lemma read_inv_step:
  assumes "read_inv F p0 off p n" "0 \<le> off" "n + length s \<le> length p"
    and "off + int (n + length s) \<le> int (length F)"
    and "s = take (length s) (drop (nat off + n) F)"
  shows "read_inv F p0 off (take n p @ s @ drop (n + length s) p) (n + length s)"
proof -
  let ?A = "take n (drop (nat off) F)"
  have p: "p = ?A @ drop n p0" and len: "length p = length p0" "length ?A = n"
    using assms(1,2) by (auto simp: read_inv_def)
  have t: "take n p = ?A" using p len by (metis append_eq_conv_conj)
  have d: "drop (n + length s) p = drop (n + length s) p0"
    using len by (subst p) (simp add: add.commute)
  have "take (n + length s) (drop (nat off) F) = ?A @ s"
    using assms(5) by (simp add: take_add add.commute)
  then show ?thesis using assms len t d by (simp add: read_inv_def)
qed

text \<open>
  The error of a failed extent read: what the reader answered, for a request on the medium
  when the extents are.  \<open>failed_read\<close> adds the place: the request was inside an extent, and
  \<open>pos\<close> is the position in the file after the bytes it delivered.
\<close>

definition read_failure :: "int \<Rightarrow> isoFile \<Rightarrow> goerror \<Rightarrow> bool" where
  "read_failure limit f x \<longleftrightarrow>
     (\<exists>d q o1 seg m. x = Wrap ''iso9660: read file extent @offset %d: %w'' [d]
        \<and> read_into (if_rs f) q o1 = (seg, m, Some d) \<and> q \<noteq> []
        \<and> (on_medium limit f \<longrightarrow> 0 \<le> o1 \<and> o1 + int (length q) \<le> limit))"

definition failed_read :: "isoFile \<Rightarrow> int \<Rightarrow> goerror \<Rightarrow> bool" where
  "failed_read f pos x \<longleftrightarrow>
     (\<exists>e \<in> set (if_extents f). \<exists>d q j seg m.
        x = Wrap ''iso9660: read file extent @offset %d: %w'' [d]
        \<and> read_into (if_rs f) q (fe_diskOff e + j) = (seg, m, Some d)
        \<and> q \<noteq> [] \<and> 0 \<le> j \<and> j + int (length q) \<le> fe_size e \<and> pos = fe_fileOff e + j + m)"

lemma failed_readI:
  "e \<in> set (if_extents f) \<Longrightarrow> read_into (if_rs f) q (fe_diskOff e + j) = (seg, m, Some d) \<Longrightarrow>
   q \<noteq> [] \<Longrightarrow> 0 \<le> j \<Longrightarrow> j + int (length q) \<le> fe_size e \<Longrightarrow> pos = fe_fileOff e + j + m \<Longrightarrow>
   failed_read f pos (Wrap ''iso9660: read file extent @offset %d: %w'' [d])"
  unfolding failed_read_def by blast

lemma failed_read_failure: "failed_read f pos x \<Longrightarrow> read_failure limit f x"
  unfolding failed_read_def read_failure_def on_medium_def by fastforce

text \<open>How a call may end.\<close>

definition read_end :: "isoFile \<Rightarrow> byte list \<Rightarrow> byte list \<Rightarrow> int \<Rightarrow> nat \<Rightarrow> goerror option \<Rightarrow> bool" where
  "read_end f F p0 off n err \<longleftrightarrow>
     (err = None \<longrightarrow> n = length p0)
     \<and> (\<forall>x. err = Some x \<longrightarrow>
          (x = Sentinel EOF \<and> n < length p0 \<and> off + int n = int (length F))
          \<or> failed_read f (off + int n) x)"

text \<open>One round keeps the invariant; it ends the call properly or delivers at least a byte.\<close>

definition good_round :: "isoFile \<Rightarrow> byte list \<Rightarrow> byte list \<Rightarrow> int \<Rightarrow> nat \<Rightarrow> read_round \<Rightarrow> bool" where
  "good_round f F p0 off n r \<longleftrightarrow>
     (case r of
        Return p' m err \<Rightarrow> \<exists>n'. m = int n' \<and> read_inv F p0 off p' n' \<and> read_end f F p0 off n' err
      | Continue p' n' \<Rightarrow> read_inv F p0 off p' n' \<and> n < n')"

lemma good_round_zero:
  assumes "serves content f F" "0 \<le> off" "read_inv F p0 off p n"
    and "n < length p" "off + int n < int (length F)" "if_covered f \<le> off + int n"
  shows "good_round f F p0 off n (iso_read_round f p off n)"
proof -
  let ?w = "read_want f p off n"
  let ?s = "replicate (nat ?w) (0 :: byte)"
  have S: "if_size f = int (length F)" "\<And>i. i < length F \<Longrightarrow> if_covered f \<le> int i \<Longrightarrow> F ! i = 0"
    using assms(1) unfolding serves_def by blast+
  have w: "0 < ?w" "?w \<le> int (length p - n)" "off + int n + ?w \<le> int (length F)"
    using assms(4,5) by (simp_all add: read_want_def S(1))
  have s: "?s = take (length ?s) (drop (nat off + n) F)"
    by (rule nth_equalityI) (use w assms(2,5,6) S(2) in auto)
  have fit: "n + length ?s \<le> length p" "off + int (n + length ?s) \<le> int (length F)"
    using w by auto
  have "read_inv F p0 off (splice p n ?s) (n + length ?s)"
    unfolding splice_parts [OF fit(1)] by (rule read_inv_step [OF assms(3,2) fit s])
  then show ?thesis
    using read_round_zero [of n p off f] assms(4-6) S(1) w(1) by (simp add: good_round_def)
qed

context device
begin

text \<open>A read into a window of the buffer changes just the bytes it delivers.\<close>

lemma read_into_window:
  assumes "read_into rs (take c (drop n p)) off = (seg, m, err)" "n + c \<le> length p"
  obtains k where "m = int k" "k \<le> c" "err = None \<longrightarrow> k = c"
    "splice p n seg = take n p @ bytes_at content off k @ drop (n + k) p"
proof -
  let ?w = "take c (drop n p)"
  have len: "length ?w = c" using assms(2) by simp
  obtain k where k: "m = int k" "k \<le> c" "seg = bytes_at content off k @ drop k ?w" "err = None \<Longrightarrow> k = c"
    by (rule read_into_data [OF assms(1)]) (use len in auto)
  have "drop k ?w @ drop (n + c) p = drop (n + k) p"
  proof (rule nth_equalityI)
    show "length (drop k ?w @ drop (n + c) p) = length (drop (n + k) p)" using k(2) assms(2) by simp
  qed (use k(2) assms(2) in \<open>auto simp: nth_append algebra_simps\<close>)
  moreover have "length seg = c" using k(2,3) len by simp
  ultimately have "splice p n seg = take n p @ bytes_at content off k @ drop (n + k) p"
    using splice_parts [of n seg p] assms(2) k(3) by simp
  then show thesis using that k(1,2,4) by blast
qed

text \<open>The bytes a read inside an extent delivers are those of the file at that place.\<close>

lemma extent_read_bytes:
  assumes "serves content f F" "e \<in> set (if_extents f)"
    and "0 \<le> j" "j + int k \<le> fe_size e" "fe_fileOff e + j = int a" "a + k \<le> length F"
  shows "bytes_at content (fe_diskOff e + j) k = take k (drop a F)"
proof (rule nth_equalityI)
  fix i assume "i < length (bytes_at content (fe_diskOff e + j) k)"
  then have i: "i < k" by simp
  then have "0 \<le> j + int i" "j + int i < fe_size e" using assms(3,4) by auto
  then have "F ! nat (fe_fileOff e + (j + int i)) = content (fe_diskOff e + (j + int i))"
    using assms(1,2) unfolding serves_def by blast
  moreover have "nat (fe_fileOff e + (j + int i)) = a + i" using assms(5) by linarith
  ultimately show "bytes_at content (fe_diskOff e + j) k ! i = take k (drop a F) ! i"
    using i assms(6) by (simp add: add.assoc)
qed (use assms(6) in simp)

lemma good_round_read:
  assumes "serves content f F" "if_rs f = rs" "0 \<le> off" "read_inv F p0 off p n"
    and "n < length p" "off + int n < int (length F)" "off + int n < if_covered f"
  shows "good_round f F p0 off n (iso_read_round f p off n)"
proof -
  let ?cur = "off + int n" and ?w = "read_want f p off n"
  have S: "if_size f = int (length F)" "placed 0 (if_extents f) (if_covered f)"
    using assms(1) unfolding serves_def by blast+
  have "0 \<le> ?cur" using assms(3) by simp
  note fi = placed_search [OF S(2) this assms(7) refl]
  define i where "i = sort_Search (length (if_extents f))
      (\<lambda>i. fe_fileOff (if_extents f ! i) + fe_size (if_extents f ! i) > ?cur)"
  define e where "e = if_extents f ! i"
  define j where "j = ?cur - fe_fileOff e"
  define c where "c = min (fe_end e - ?cur) ?w"
  obtain seg m err where r: "read_into rs (take (nat c) (drop n p)) (fe_diskOff e + j) = (seg, m, err)"
    by (cases "read_into rs (take (nat c) (drop n p)) (fe_diskOff e + j)") auto
  have e: "e \<in> set (if_extents f)" "0 \<le> j" "?cur < fe_end e" "i < length (if_extents f)"
    using fi unfolding i_def [symmetric] e_def j_def by simp_all
  have w: "0 < ?w" "?w \<le> int (length p - n)" "?cur + ?w \<le> int (length F)"
    using assms(5,6) by (simp_all add: read_want_def S(1))
  have c: "0 < c" "c \<le> ?w" "j + c \<le> fe_size e" using e(3) w(1) by (auto simp: c_def j_def fe_end_def)
  have fitc: "n + nat c \<le> length p" using c w assms(5) by linarith
  obtain k where k: "m = int k" "k \<le> nat c" "err = None \<longrightarrow> k = nat c"
      "splice p n seg = take n p @ bytes_at content (fe_diskOff e + j) k @ drop (n + k) p"
    by (rule read_into_window [OF r fitc])
  have fit: "n + k \<le> length p" "off + int (n + k) \<le> int (length F)" using k(2) c w fitc by auto
  have "bytes_at content (fe_diskOff e + j) k = take k (drop (nat off + n) F)"
    by (rule extent_read_bytes [OF assms(1) e(1,2)]) (use k(2) c fit assms(3) in \<open>auto simp: j_def\<close>)
  then have inv: "read_inv F p0 off (splice p n seg) (n + k)"
    unfolding k(4)
    by (intro read_inv_step [OF assms(4,3), where s = "bytes_at content (fe_diskOff e + j) k",
          unfolded length_bytes_at] fit)
  have round: "iso_read_round f p off n =
     (case err of
        Some x \<Rightarrow> Return (splice p n seg) (int n + m)
                    (Some (Wrap ''iso9660: read file extent @offset %d: %w'' [x]))
      | None \<Rightarrow>
          if int n + m < 0
          then Return (splice p n seg) (int n + m) (Some (Panic ''slice bounds out of range''))
          else Continue (splice p n seg) (nat (int n + m)))"
    by (rule read_round_read [OF assms(5) _ assms(7) i_def e(4) e_def c_def])
      (use r assms(2,6) S(1) in \<open>auto simp: j_def\<close>)
  have "failed_read f (off + int (n + k)) (Wrap ''iso9660: read file extent @offset %d: %w'' [x])"
    if "err = Some x" for x
    by (rule failed_readI [OF e(1) r [folded assms(2), unfolded that]])
      (use e(2) c assms(5) k(1) in \<open>auto simp: j_def min_def\<close>)
  moreover have "int n + m = int (n + k)" "\<not> int n + m < 0" "nat (int n + m) = n + k" using k(1) by auto
  ultimately show ?thesis
    using inv k(3) c(1)
    by (cases err) (auto simp: round good_round_def read_end_def intro!: exI [of _ "n + k"])
qed

lemma good_round:
  assumes "serves content f F" "if_rs f = rs" "0 \<le> off" "read_inv F p0 off p n"
  shows "good_round f F p0 off n (iso_read_round f p off n)"
proof -
  have S: "if_size f = int (length F)" using assms(1) by (simp add: serves_def)
  have len: "length p = length p0" "n \<le> length p" "off + int n \<le> int (length F)"
    using assms(4) by (auto simp: read_inv_def)
  consider "length p \<le> n" | "n < length p" "int (length F) \<le> off + int n"
    | "n < length p" "off + int n < int (length F)" "if_covered f \<le> off + int n"
    | "n < length p" "off + int n < int (length F)" "off + int n < if_covered f" by linarith
  then show ?thesis
  proof cases
    case 1
    then show ?thesis
      using assms(4) len read_round_end [of p n f off] by (auto simp: good_round_def read_end_def)
  next
    case 2
    then show ?thesis
      using assms(4) len S read_round_eof [of n p f off] by (auto simp: good_round_def read_end_def)
  qed (use assms good_round_zero good_round_read in blast)+
qed

text \<open>
  Total correctness for every conforming reader: the loop returns, what it delivered is the
  file's, a short count comes with an error, and the only error of its own is the end of the
  file.
\<close>

lemma iso_read_loop_device:
  assumes "serves content f F" "if_rs f = rs" "0 \<le> off" "read_inv F p0 off p n"
  shows "\<exists>p' n' err. iso_read_loop f p off n = Some (p', int n', err) \<and> read_inv F p0 off p' n'
    \<and> read_end f F p0 off n' err"
  using assms(4)
proof (induction "length p0 - n" arbitrary: p n rule: less_induct)
  case less
  note round = good_round [OF assms(1-3) less.prems]
  show ?case
  proof (cases "iso_read_round f p off n")
    case (Return p' n' err)
    then show ?thesis using round by (auto simp: iso_read_loop.simps good_round_def)
  next
    case (Continue p' n')
    then have "read_inv F p0 off p' n'" "n < n'" using round by (simp_all add: good_round_def)
    moreover from this have "length p0 - n' < length p0 - n" by (auto simp: read_inv_def)
    ultimately show ?thesis using less.hyps Continue by (simp add: iso_read_loop.simps)
  qed
qed

text \<open>The same for a call.\<close>

lemma ReadAt_device:
  assumes "serves content f F" "if_rs f = rs" "\<not> if_closed f" "0 \<le> off"
  shows "\<exists>p' n err. ReadAt f p off = Some (p', int n, err) \<and> n \<le> length p
    \<and> n \<le> length F - nat off
    \<and> p' = take n (drop (nat off) F) @ drop n p
    \<and> (err = None \<longrightarrow> n = length p \<and> off < int (length F))
    \<and> (\<forall>x. err = Some x \<longrightarrow>
         (x = Sentinel EOF \<and> n = length F - nat off \<and> (n < length p \<or> int (length F) \<le> off))
         \<or> failed_read f (off + int n) x)"
proof (cases "if_size f \<le> off")
  case True
  then have "int (length F) \<le> off" using assms(1) by (simp add: serves_def)
  then have "ReadAt f p off = Some (p, int 0, Some (Sentinel EOF))" using True assms(3,4) by (simp add: ReadAt_def)
  then show ?thesis using \<open>int (length F) \<le> off\<close> by fastforce
next
  case False
  then have off: "off < int (length F)" using assms(1) by (simp add: serves_def)
  then have "read_inv F p off p 0" by (simp add: read_inv_def)
  from iso_read_loop_device [OF assms(1,2,4) this] obtain p' n err where
      r: "iso_read_loop f p off 0 = Some (p', int n, err)" "read_inv F p off p' n"
        "err = None \<longrightarrow> n = length p"
        "\<forall>x. err = Some x \<longrightarrow>
          (x = Sentinel EOF \<and> n < length p \<and> off + int n = int (length F)) \<or> failed_read f (off + int n) x"
    unfolding read_end_def by blast
  have "ReadAt f p off = Some (p', int n, err)"
    using False assms(3,4) r(1) by (simp add: ReadAt_def)
  moreover have "n \<le> length F - nat off" using r(2) assms(4) by (auto simp: read_inv_def)
  moreover have "n = length F - nat off" if "off + int n = int (length F)"
    using that assms(4) by linarith
  ultimately show ?thesis using r off by (auto simp: read_inv_def)
qed

end

text \<open>
  The answer of a read of the bytes \<open>d\<close>: as many of them as fit, with \<^verbatim>\<open>io.EOF\<close> if they do not fill
  the buffer or the offset is past the end.
\<close>

definition read_answer :: "byte list \<Rightarrow> bool \<Rightarrow> byte list \<Rightarrow> int \<Rightarrow> byte list \<times> int \<times> goerror option" where
  "read_answer d closed p off =
     (let got = take (length p) (drop (nat off) d) in
      if closed then (p, 0, Some (Sentinel OsErrClosed))
      else if off < 0 then (p, 0, Some (Wrap ''iso9660: ReadAt: negative offset %d'' []))
      else (got @ drop (length got) p, int (length got),
             if length got < length p \<or> int (length d) \<le> off then Some (Sentinel EOF) else None))"

text \<open>
  The exception: an extent ends, at the position \<open>pos\<close> of the file, where the medium ends, and the
  reader answers \<^verbatim>\<open>io.EOF\<close> together with the last bytes of the medium.
\<close>

definition early_eof :: "int \<Rightarrow> isoFile \<Rightarrow> int \<Rightarrow> bool" where
  "early_eof limit f pos \<longleftrightarrow>
     (\<exists>e \<in> set (if_extents f). fe_end e = pos \<and> fe_diskOff e + fe_size e = limit
        \<and> (\<exists>n > 0. int n \<le> fe_size e \<and> snd (snd (if_rs f n (limit - int n))) = Some (Sentinel EOF)))"

definition answered ::
  "int \<Rightarrow> isoFile \<Rightarrow> byte list \<Rightarrow> bool \<Rightarrow> byte list \<Rightarrow> int \<Rightarrow> byte list \<times> int \<times> goerror option \<Rightarrow> bool"
where
  "answered limit f d closed p off r \<longleftrightarrow>
     r = read_answer d closed p off
     \<or> (\<not> closed \<and> 0 \<le> off \<and> (\<exists>n \<le> length p. n \<le> length d - nat off \<and> early_eof limit f (off + int n)
          \<and> r = (take n (drop (nat off) d) @ drop n p, int n,
                 Some (Wrap ''iso9660: read file extent @offset %d: %w'' [Sentinel EOF]))))"

context reader_at
begin

lemma failed_read_early:
  assumes "failed_read f pos x" "if_rs f = rs" "on_medium limit f"
  shows "x = Wrap ''iso9660: read file extent @offset %d: %w'' [Sentinel EOF] \<and> early_eof limit f pos"
proof -
  obtain e d q j seg m where e: "e \<in> set (if_extents f)"
      and x: "x = Wrap ''iso9660: read file extent @offset %d: %w'' [d]"
      and r: "read_into rs q (fe_diskOff e + j) = (seg, m, Some d)"
      and q: "q \<noteq> []" "0 \<le> j" "j + int (length q) \<le> fe_size e" and pos: "pos = fe_fileOff e + j + m"
    using assms(1) unfolding failed_read_def assms(2) by blast
  let ?o = "fe_diskOff e + j"
  have m: "0 \<le> fe_diskOff e" "fe_diskOff e + fe_size e \<le> limit" using assms(3) e by (auto simp: on_medium_def)
  then have inside: "0 \<le> ?o" "?o + int (length q) \<le> limit" using q by linarith+
  have err: "snd (snd (rs (length q) ?o)) = Some d" using r by (auto simp: read_into_def Let_def split: prod.splits)
  have d: "d = Sentinel EOF" "m = int (length q)" using read_into_ok [OF r inside q(1)] by auto
  have "?o + int (length q) = limit"
    using read_eof [of ?o "length q"] inside err q(1) by fastforce
  then have "fe_end e = pos" "fe_diskOff e + fe_size e = limit" "limit - int (length q) = ?o"
    using m(2) q(3) pos d(2) by (auto simp: fe_end_def)
  then have "early_eof limit f pos"
    using e q err d(1) assms(2) unfolding early_eof_def
    by (intro bexI [OF _ e] conjI exI [of _ "length q"]) auto
  then show ?thesis using x d(1) by simp
qed

text \<open>
  A file on the medium: the call fills the buffer with the file's bytes as far as they go, and
  answers \<^verbatim>\<open>io.EOF\<close> exactly when they do not fill it, with the exception above.
\<close>

lemma ReadAt_answered:
  assumes "serves content f F" "if_rs f = rs" "\<not> if_closed f" "on_medium limit f"
  shows "\<exists>r. ReadAt f p off = Some r \<and> answered limit f F False p off r"
proof (cases "0 \<le> off")
  case False
  then have "ReadAt f p off = Some (read_answer F False p off)"
    using assms(3) by (simp add: ReadAt_def read_answer_def Let_def)
  then show ?thesis by (simp add: answered_def)
next
  case True
  from ReadAt_device [OF assms(1-3) True, of p] obtain p' n err where
      r: "ReadAt f p off = Some (p', int n, err)" "n \<le> length p" "n \<le> length F - nat off"
        "p' = take n (drop (nat off) F) @ drop n p" "err = None \<longrightarrow> n = length p \<and> off < int (length F)"
        "\<forall>x. err = Some x \<longrightarrow> (x = Sentinel EOF \<and> n = length F - nat off
             \<and> (n < length p \<or> int (length F) \<le> off)) \<or> failed_read f (off + int n) x" by blast
  let ?got = "take (length p) (drop (nat off) F)"
  show ?thesis
  proof (cases "\<exists>x. err = Some x \<and> failed_read f (off + int n) x")
    case True
    then show ?thesis
      using r(1-4) failed_read_early [OF _ assms(2,4)] \<open>0 \<le> off\<close> unfolding answered_def by blast
  next
    case False
    then have n: "n = length ?got" using r(2,3,5,6) by (cases err) auto
    then have "take n (drop (nat off) F) = ?got" using r(2) by (simp add: min_def)
    moreover have "err = (if n < length p \<or> int (length F) \<le> off then Some (Sentinel EOF) else None)"
      using r(5,6) False by (cases err) auto
    ultimately have "(p', int n, err) = read_answer F False p off"
      using r(4) n True by (simp add: read_answer_def Let_def)
    then show ?thesis using r(1) by (auto simp: answered_def)
  qed
qed

end

context strict_device
begin

lemma strict_answered:
  assumes "answered limit f d closed p off r" "if_rs f = rs" "on_medium limit f"
  shows "r = read_answer d closed p off"
proof -
  have "\<not> early_eof limit f pos" for pos
    using read_nil assms(2,3) unfolding early_eof_def on_medium_def by fastforce
  then show ?thesis using assms(1) by (simp add: answered_def)
qed

end

section \<open>No panics\<close>

text \<open>
  On a reader whose counts are in range, whatever else it does, a round of an open file does not
  panic and stays inside the buffer.
\<close>

lemma iso_read_round_safe:
  assumes "counted (if_rs f)" "placed 0 (if_extents f) (if_covered f)" "0 \<le> off" "n \<le> length p"
  shows "case iso_read_round f p off n of
           Return _ _ err \<Rightarrow> (\<forall>x. err = Some x \<longrightarrow> \<not> is_panic x)
         | Continue p' n' \<Rightarrow> n' \<le> length p'"
proof -
  let ?cur = "off + int n" and ?w = "read_want f p off n"
  consider "length p \<le> n" | "n < length p" "if_size f \<le> ?cur"
    | "n < length p" "?cur < if_size f" "if_covered f \<le> ?cur"
    | "n < length p" "?cur < if_size f" "?cur < if_covered f" by linarith
  then show ?thesis
  proof cases
    case 3
    moreover have "0 < ?w" "?w \<le> int (length p - n)" using 3 by (simp_all add: read_want_def)
    ultimately show ?thesis by (simp add: read_round_zero)
  next
    case 4
    define i where "i = sort_Search (length (if_extents f))
        (\<lambda>i. fe_fileOff (if_extents f ! i) + fe_size (if_extents f ! i) > ?cur)"
    define e where "e = if_extents f ! i"
    define c where "c = min (fe_end e - ?cur) ?w"
    have "0 \<le> ?cur" using assms(3) by simp
    from placed_search [OF assms(2) this 4(3) refl]
    have i: "i < length (if_extents f)" "?cur < fe_end e" unfolding i_def [symmetric] e_def by simp_all
    have w: "0 < ?w" "?w \<le> int (length p - n)" using 4 by (simp_all add: read_want_def)
    obtain seg m err where r: "read_into (if_rs f) (take (nat c) (drop n p))
        (fe_diskOff e + (?cur - fe_fileOff e)) = (seg, m, err)"
      by (cases "read_into (if_rs f) (take (nat c) (drop n p)) (fe_diskOff e + (?cur - fe_fileOff e))") auto
    have "0 \<le> m" "m \<le> int (length p) - int n"
      using counted_read [OF assms(1) r] w 4(1) i(2) by (auto simp: c_def)
    then show ?thesis
      using read_round_read [OF 4 i_def i(1) e_def c_def r] by (auto split: option.splits)
  qed (simp_all add: read_round_end read_round_eof)
qed

lemma iso_read_loop_safe:
  assumes "iso_read_loop f p off n = Some (p', m, err)"
    and "counted (if_rs f)" "placed 0 (if_extents f) (if_covered f)" "0 \<le> off" "n \<le> length p"
  shows "\<forall>x. err = Some x \<longrightarrow> \<not> is_panic x"
proof -
  let ?P = "\<lambda>f p off n r. counted (if_rs f) \<longrightarrow> placed 0 (if_extents f) (if_covered f) \<longrightarrow> 0 \<le> off \<longrightarrow>
      n \<le> length p \<longrightarrow> (\<forall>x. snd (snd r) = Some x \<longrightarrow> \<not> is_panic x)"
  have "?P f p off n (p', m, err)"
  proof (rule iso_read_loop.raw_induct [where P = ?P, OF _ assms(1)])
    fix loop f p off n r
    assume IH: "\<And>f p off n r. loop f p off n = Some r \<Longrightarrow> ?P f p off n r"
      and step: "(case iso_read_round f p off n of
          Return p' m err \<Rightarrow> Some (p', m, err) | Continue p' m \<Rightarrow> loop f p' off m) = Some r"
    show "?P f p off n r"
      using iso_read_round_safe [of f off n p] step IH
      by (cases "iso_read_round f p off n") auto
  qed
  then show ?thesis using assms(2-5) by simp
qed

lemma ReadAt_safe:
  assumes "openRecord fs rec = Inr f" "counted (fs_rs fs)" "ReadAt f p off = Some (p', m, Some x)"
  shows "\<not> is_panic x"
proof -
  have f: "if_rs f = fs_rs fs" "placed 0 (if_extents f) (if_covered f)"
    using openRecord_serves(1) [OF assms(1)] openRecord_serves(2) [OF assms(1)] by (simp_all add: serves_def)
  show ?thesis
    using assms(3) iso_read_loop_safe [of f p off 0 p' m "Some x"] f assms(2)
    by (auto simp: ReadAt_def split: if_splits)
qed

section \<open>Agreement with ReadFile\<close>

lemma place_extents_fe:
  "place_extents vol sz es covered = Inr (pl, c) \<Longrightarrow> fe \<in> set pl \<Longrightarrow>
   \<exists>e \<in> set es. ext_size e \<noteq> 0 \<and> fe_diskOff fe = ext_off vol e \<and> fe_size fe = int (ext_len e)"
proof (induction vol sz es covered arbitrary: pl c rule: place_extents.induct)
  case (2 vol sz e es covered)
  show ?case
  proof (cases "ext_size e = 0")
    case True
    then show ?thesis using "2.IH"(1) "2.prems" by auto
  next
    case False
    then obtain pl' c' where p: "\<not> covered + int (ext_len e) > sz"
        "place_extents vol sz es (covered + int (ext_len e)) = Inr (pl', c')"
        "pl = \<lparr>fe_fileOff = covered, fe_diskOff = ext_off vol e, fe_size = int (ext_len e)\<rparr> # pl'"
      using "2.prems"(1) by (auto simp: res_inv split: if_splits)
    show ?thesis using "2.IH"(2) [OF False p(1,2)] "2.prems"(2) False p(3) by auto
  qed
qed simp

lemma place_extents_fits:
  "covered + int (extents_len es) \<le> sz \<Longrightarrow> \<exists>r. place_extents vol sz es covered = Inr r"
proof (induction es arbitrary: covered)
  case (Cons e es)
  have "covered + int (ext_len e) \<le> sz" "covered + int (ext_len e) + int (extents_len es) \<le> sz"
    using Cons.prems by (simp_all add: extents_len_def)
  then show ?case
    using Cons.IH [of covered] Cons.IH [of "covered + int (ext_len e)"]
    by (auto simp: ext_len_0)
qed simp

text \<open>
  What \<^verbatim>\<open>readFile\<close> reads, \<^verbatim>\<open>openRecord\<close> opens, with all extents on the medium, for any size the
  image is said to have.
\<close>

lemma readFile_openRecord:
  assumes "readFile gc (fs_rs fs) (fs_vol fs) rec (allocCeiling (fs_size fs)) = Inr d"
    and dev: "image_reader (fs_rs fs) content limit"
  shows "\<exists>f. openRecord fs rec = Inr f \<and> on_medium limit f"
proof -
  let ?n = "unat (dr_Size rec)" and ?es = "rec_extents rec" and ?m = "fs_size fs"
  from assms(1) obtain covered where dir: "\<not> isDir rec" and cs: "checkSize (int ?n) (allocCeiling ?m) = None"
      and c: "check_extents (fs_vol fs) (allocCeiling ?m) ?n ?es 0 = Inr covered"
    by (auto simp: readFile_def Let_def res_inv split: if_splits option.splits)
  have len: "extents_len ?es \<le> ?n" using check_extents_covered [OF c] by simp
  obtain pl cv where p: "place_extents (fs_vol fs) (int ?n) ?es 0 = Inr (pl, cv)"
    using place_extents_fits [of 0 ?es "int ?n"] len by (metis add_0 of_nat_mono surj_pair)
  have sz: "\<not> (?m \<ge> 0 \<and> int ?n > ?m)" using cs by (auto simp: checkSize_def allocCeiling_def split: if_splits)
  let ?f = "\<lparr>if_rs = fs_rs fs, if_extents = pl, if_size = int ?n, if_covered = cv, if_closed = False\<rparr>"
  have o: "openRecord fs rec = Inr ?f"
    unfolding openRecord_def Let_def using dir sz p by (simp only: if_False if_True simp_thms res_bind_simps prod.case)
  have "0 \<le> fe_diskOff fe \<and> fe_diskOff fe + fe_size fe \<le> limit" if fe: "fe \<in> set pl" for fe
  proof -
    obtain e where e: "e \<in> set ?es" "ext_size e \<noteq> 0" "fe_diskOff fe = ext_off (fs_vol fs) e"
        "fe_size fe = int (ext_len e)"
      using place_extents_fe [OF p fe] by blast
    then show ?thesis using image_reader.readFile_on_medium [OF dev assms(1) e(1,2)] by simp
  qed
  then have "on_medium limit ?f" by (simp add: on_medium_def)
  with o show ?thesis by blast
qed

section \<open>Properties\<close>

text \<open>
  C3: \<^verbatim>\<open>ReadAt\<close> keeps the contract of \<^verbatim>\<open>io.ReaderAt\<close> on top of any reader that keeps it: the
  call returns, delivers a prefix of the file's bytes at the offset and leaves the rest of the
  buffer alone, a nil error means a full buffer, \<^verbatim>\<open>io.EOF\<close> means that the file ends there, and
  the only other error is an error of the reader, wrapped.
\<close>

theorem ReadAt_contract:
  assumes "device (fs_rs fs) content limit" "openRecord fs rec = Inr f" "0 \<le> off"
    and "F = file_bytes content (fs_vol fs) rec"
  shows "\<exists>p' n err. ReadAt f p off = Some (p', int n, err) \<and> n \<le> length p \<and> n \<le> length F - nat off
    \<and> p' = take n (drop (nat off) F) @ drop n p
    \<and> (err = None \<longrightarrow> n = length p \<and> off < int (length F))
    \<and> (\<forall>x. err = Some x \<longrightarrow>
         (x = Sentinel EOF \<and> n = length F - nat off \<and> (n < length p \<or> int (length F) \<le> off))
         \<or> read_failure limit f x)"
proof -
  note s = openRecord_serves [OF assms(2)]
  from device.ReadAt_device [OF assms(1) s(1-3) assms(3), of p, folded assms(4)] obtain p' n err where
      "ReadAt f p off = Some (p', int n, err)" "n \<le> length p" "n \<le> length F - nat off"
      "p' = take n (drop (nat off) F) @ drop n p" "err = None \<longrightarrow> n = length p \<and> off < int (length F)"
      "\<forall>x. err = Some x \<longrightarrow> (x = Sentinel EOF \<and> n = length F - nat off
           \<and> (n < length p \<or> int (length F) \<le> off)) \<or> failed_read f (off + int n) x" by blast
  then show ?thesis
    by (intro exI [of _ p'] exI [of _ n] exI [of _ err]) (auto dest: failed_read_failure)
qed

definition sample_file_fs :: FS where
  "sample_file_fs = sample_fs\<lparr>fs_rs := bytes_reader sample_img, fs_size := 7, fs_vol := sample_vol\<rparr>"

lemma sample_open: "\<exists>f. openRecord sample_file_fs sample_rec = Inr f"
  using place_extents_fits [of 0 "rec_extents sample_rec" 3 sample_vol] sample_facts(1,3)
  by (auto simp: openRecord_def sample_file_fs_def sample_fs_def sample_rec_def zero_dirRecord_def)

theorem ReadAt_contract_witness:
  "\<exists>f p' n err. openRecord sample_file_fs sample_rec = Inr f \<and> ReadAt f [0, 0] 1 = Some (p', n, err) \<and> n \<le> 2"
proof -
  obtain f where f: "openRecord sample_file_fs sample_rec = Inr f" using sample_open by blast
  have "device (fs_rs sample_file_fs) (image_content sample_img) (int (length sample_img))"
    using mem.device_axioms [of sample_img] by (simp add: sample_file_fs_def)
  from ReadAt_contract [OF this f, of 1 _ "[0, 0]"] f show ?thesis by auto
qed

text \<open>
  C2: reading a file piecewise and reading it whole agree, on every image and for every reader
  that keeps the contract of \<^verbatim>\<open>io.ReaderAt\<close> to the letter.  Every path \<^verbatim>\<open>ReadFile\<close> can read,
  \<^verbatim>\<open>OpenFile\<close> opens; its size is the number of bytes read; and every \<^verbatim>\<open>ReadAt\<close> puts exactly the
  bytes \<^verbatim>\<open>ReadFile\<close> returns at that place into the buffer, with \<^verbatim>\<open>io.EOF\<close> if and only if the file
  ends before the buffer is full (or the offset is not inside the file).  There is one
  exception: when the reader answers \<^verbatim>\<open>io.EOF\<close> together with the last bytes of the image, a call
  that comes to the end of an extent there delivers the bytes up to this point and returns that
  error, wrapped.  With a reader that does not do this there is none.
\<close>

theorem ReadAt_agrees_with_ReadFile:
  assumes "image_reader (fs_rs fs) content limit" "ReadFile env fs path = Inr d"
  shows "\<exists>f. OpenFile env fs path = Inr f \<and> File_Size f = int (length d)
    \<and> (\<forall>p off. \<exists>r. ReadAt f p off = Some r \<and> answered limit f d False p off r
         \<and> (strict_device (fs_rs fs) content limit \<longrightarrow> r = read_answer d False p off))"
proof -
  from assms(2) obtain rec where r: "resolve env fs path = Inr rec"
      "readFile (env_grow env) (fs_rs fs) (fs_vol fs) rec (allocCeiling (fs_size fs)) = Inr d"
    by (auto simp: ReadFile_def res_inv)
  obtain f where f: "openRecord fs rec = Inr f" "on_medium limit f"
    using readFile_openRecord [OF r(2) assms(1)] by blast
  have dev: "reader_at (fs_rs fs) content limit" "device (fs_rs fs) content limit"
    using assms(1) image_reader.axioms(1) reader_at.axioms(1) by blast+
  have d: "d = file_bytes content (fs_vol fs) rec" "length d = unat (dr_Size rec)"
    using device.readFile_data [OF dev(2) r(2)] by blast+
  note s = openRecord_serves [OF f(1)]
  have "OpenFile env fs path = Inr f" using r(1) f(1) by (simp add: OpenFile_def)
  moreover have "File_Size f = int (length d)" using s(4) d(2) by (simp only:)
  moreover have "\<exists>r. ReadAt f p off = Some r \<and> answered limit f d False p off r" for p off
    unfolding d(1) by (rule reader_at.ReadAt_answered [OF dev(1) s(1-3) f(2)])
  moreover have "r = read_answer d False p off"
    if "answered limit f d False p off r" "strict_device (fs_rs fs) content limit" for r p off
    by (rule strict_device.strict_answered [OF that(2,1) s(2) f(2)])
  ultimately show ?thesis by (intro exI [of _ f] conjI allI) metis+
qed

lemma sample_read_B: "ReadFile sample_env sample_fs [0x42] = Inr []"
  using mem.readFile_complete [of sample_B 76 sample_dir "fs_vol sample_fs"]
  by (simp add: ReadFile_def sample_resolve_B)
    (simp add: sample_B_def sample_fs_def zero_dirRecord_def isDir_def maxInt_def rec_extents_def
      extents_len_def ext_len_def sizeUnknown_def maxUnknownAlloc_def allocCeiling_def file_bytes_def
      extents_bytes_def sample_dir_def sample_entry_def)

theorem ReadAt_agrees_with_ReadFile_witness:
  "\<exists>f. OpenFile sample_env sample_fs [0x42] = Inr f \<and> ReadAt f [7] 0 = Some ([7], 0, Some (Sentinel EOF))"
proof -
  have rs: "fs_rs sample_fs = bytes_reader sample_dir" by (simp add: sample_fs_def)
  have dev: "image_reader (fs_rs sample_fs) (image_content sample_dir) (int (length sample_dir))"
    "strict_device (fs_rs sample_fs) (image_content sample_dir) (int (length sample_dir))"
    unfolding rs by (rule mem_image.image_reader_axioms, rule mem.strict_device_axioms)
  from ReadAt_agrees_with_ReadFile [OF dev(1) sample_read_B] dev(2)
  obtain f where "OpenFile sample_env sample_fs [0x42] = Inr f"
      "ReadAt f [7] 0 = Some (read_answer [] False [7] 0)" by metis
  then show ?thesis by (auto simp: read_answer_def Let_def)
qed

text \<open>
  C34: \<^verbatim>\<open>Stat\<close>, \<^verbatim>\<open>ReadFile\<close> and \<^verbatim>\<open>OpenFile\<close> agree on the size of a file, multi-extent files
  included.
\<close>

theorem sizes_agree:
  assumes "FS_Stat env fs path = Inr st" "ReadFile env fs path = Inr d" "OpenFile env fs path = Inr f"
  shows "unat (st_size st) = length d \<and> File_Size f = int (length d)"
proof -
  obtain rec where r: "resolve env fs path = Inr rec"
      "readFile (env_grow env) (fs_rs fs) (fs_vol fs) rec (allocCeiling (fs_size fs)) = Inr d"
    using assms(2) by (auto simp: ReadFile_def res_inv)
  have "openRecord fs rec = Inr f" using assms(3) r(1) by (simp add: OpenFile_def)
  moreover have "st_size st = ucast (dr_Size rec)"
    using assms(1) r(1) by (auto simp: FS_Stat_def Let_def split: if_splits)
  moreover have "unat (ucast (dr_Size rec) :: u64) = unat (dr_Size rec)"
    using u32_bound [of "dr_Size rec"] by (simp add: unsigned_ucast_eq take_bit_nat_eq_self)
  ultimately show ?thesis
    using readFile_length [OF r(2)] openRecord_serves(4) by simp
qed

theorem sizes_agree_witness:
  "\<exists>st d f. FS_Stat sample_env sample_fs [0x42] = Inr st \<and> ReadFile sample_env sample_fs [0x42] = Inr d
     \<and> OpenFile sample_env sample_fs [0x42] = Inr f \<and> unat (st_size st) = length d"
proof -
  obtain st where st: "FS_Stat sample_env sample_fs [0x42] = Inr st"
    by (cases "rr_hasMode (rr_of sample_fs sample_B)") (auto simp: FS_Stat_def sample_resolve_B Let_def)
  have "resolve sample_env sample_fs [0x42] = Inr sample_B" by (rule sample_resolve_B)
  then obtain f where f: "OpenFile sample_env sample_fs [0x42] = Inr f"
    by (auto simp: OpenFile_def openRecord_def sample_B_def zero_dirRecord_def isDir_def sample_fs_def
        rec_extents_def)
  from sizes_agree [OF st sample_read_B f] st f sample_read_B show ?thesis by blast
qed

section \<open>A reader that reports the end of the medium early\<close>

text \<open>
  \<^verbatim>\<open>ReadAt\<close> asks for a nil error of every read, while \<^verbatim>\<open>io.ReaderAt\<close> lets a reader answer
  \<^verbatim>\<open>io.EOF\<close> with the last bytes of its medium.  A file that ends where the medium ends is then
  read completely and reported as failed, although \<^verbatim>\<open>ReadFile\<close> reads it
  (\<open>readFile_total_witness\<close>).
\<close>

lemma ReadAt_early_eof:
  "\<exists>f. openRecord (sample_file_fs\<lparr>fs_rs := eof_reader sample_img\<rparr>) sample_rec = Inr f
    \<and> ReadAt f [0, 0, 0] 0 = Some ([1, 2, 3], 3,
        Some (Wrap ''iso9660: read file extent @offset %d: %w'' [Sentinel EOF]))"
proof -
  let ?e = "\<lparr>fe_fileOff = 0, fe_diskOff = 4, fe_size = 3\<rparr>"
  let ?f = "\<lparr>if_rs = eof_reader sample_img, if_extents = [?e], if_size = 3, if_covered = 3, if_closed = False\<rparr>"
  have o: "openRecord (sample_file_fs\<lparr>fs_rs := eof_reader sample_img\<rparr>) sample_rec = Inr ?f"
    by (simp add: openRecord_def sample_file_fs_def sample_fs_def sample_rec_def zero_dirRecord_def
        isDir_def rec_extents_def ext_len_def ext_off_def sample_vol_def)
  have i: "sort_Search (Suc 0) P = 0" if "P 0" for P
    using that by (simp add: sort_Search_def search_loop.simps)
  have r: "read_into (eof_reader sample_img) [0, 0, 0] 4 = ([1, 2, 3], 3, Some (Sentinel EOF))"
    by (simp add: read_into_def eof_reader_def bytes_reader_def sample_img_def)
  have "ReadAt ?f [0, 0, 0] 0 = Some ([1, 2, 3], 3,
        Some (Wrap ''iso9660: read file extent @offset %d: %w'' [Sentinel EOF]))"
    using r read_round_read [of 0 "[0, 0, 0]" 0 ?f 0 ?e 3 "[1, 2, 3]" 3 "Some (Sentinel EOF)"]
    by (simp add: ReadAt_def iso_read_loop.simps i read_want_def fe_end_def splice_def)
  with o show ?thesis by blast
qed

end
