(* ===== verification/ReadBack.thy ===== *)
theory ReadBack
  imports ImageWrite RandomAccess
begin

text \<open>
  The reader on an image the Builder wrote: the volume is found, the directories list what
  was laid out, a path of on-disk names leads to the record of its node, and its contents are
  the bytes that were added.
\<close>

section \<open>Names on the disk\<close>

definition disk_name :: "heap \<Rightarrow> addr \<Rightarrow> gostring" where
  "disk_name h c = cleanName (n_id (h ! c))"

fun disk_path :: "heap \<Rightarrow> addr \<Rightarrow> gostring list \<Rightarrow> gostring list" where
  "disk_path h a [] = []"
| "disk_path h a (k # p) =
     (case map_of (n_children (h ! a)) k of
        None \<Rightarrow> []
      | Some c \<Rightarrow> disk_name h c # disk_path h c p)"

lemma idchar_other: "idchar b \<Longrightarrow> b \<noteq> semicolon \<and> b \<noteq> dot \<and> b \<noteq> slash \<and> b \<noteq> 0 \<and> b \<noteq> 1"
  by (auto simp: idchar_def dchar_def tilde_def semicolon_def dot_def slash_def)

lemma level1_parts:
  assumes "level1 d s"
  obtains b v where "s = b @ v" "b \<noteq> []" "list_all idchar b" "v = [] \<or> (\<exists>w. v = semicolon # w)"
  | b e v where "s = b @ dot # e @ semicolon # v" "b \<noteq> []" "list_all idchar b" "e \<noteq> []" "list_all dchar e"
proof (cases d)
  case True
  then show ?thesis using assms that(1) [of s "[]"] by (simp add: level1_def level1_dir_def)
next
  case False
  then obtain b e where s: "s = b @ level1_ext e" "b \<noteq> []" "list_all idchar b" "list_all dchar e"
    using assms by (auto simp: level1_def level1_file_def level1_dir_def)
  show ?thesis
  proof (cases "e = []")
    case True
    then show ?thesis using s that(1) [of b "str '';1''"] by (simp add: level1_ext_def str_def semicolon_def)
  next
    case False
    then show ?thesis
      using s that(2) [of b e "[0x31]"] by (simp add: level1_ext_def str_def semicolon_def dot_def)
  qed
qed

text \<open>The characters of an identifier are ASCII and no lower-case letters.\<close>

definition upper_char :: "byte \<Rightarrow> bool" where
  "upper_char b \<longleftrightarrow> unat b < 0x80 \<and> upper_byte b = b"

lemma upper_chars: "list_all upper_char s \<Longrightarrow> ascii s \<and> upper_ascii s = s"
  by (auto simp: list_all_iff ascii_def upper_ascii_def upper_char_def intro: map_idI)

lemma idchar_upper: "idchar b \<Longrightarrow> upper_char b"
  by (auto simp: idchar_def dchar_def tilde_def upper_char_def upper_byte_def)

lemma set_cleanName: "set (cleanName s) \<subseteq> insert dot (set s)"
  using trim_suffix_set [of "takeWhile (\<lambda>b. b \<noteq> semicolon) s" "[dot]"]
  by (auto simp: cleanName_def cut_version_eq dest: set_takeWhileD)

lemma level1_upper:
  assumes "level1 d s"
  shows "ascii (cleanName s)" "upper_ascii (cleanName s) = cleanName s"
proof -
  have "upper_char dot" "upper_char semicolon" "upper_char 0x31"
    by (simp_all add: upper_char_def upper_byte_def dot_def semicolon_def)
  then have "upper_char b" if "b \<in> set s" for b
    using assms that idchar_upper dchar_idchar
    by (auto simp: level1_def level1_file_def level1_dir_def level1_ext_def str_def list_all_iff
        idchar_def dot_def semicolon_def split: if_splits)
  then have "list_all upper_char (cleanName s)"
    using set_cleanName [of s] \<open>upper_char dot\<close> by (auto simp: list_all_iff)
  then show "ascii (cleanName s)" "upper_ascii (cleanName s) = cleanName s"
    using upper_chars by blast+
qed

text \<open>A level 1 identifier reads back as a path component, and never as a special entry.\<close>

lemma level1_disk_name:
  assumes "level1 d s"
  shows "component (cleanName s)" "\<not> (length s = 1 \<and> (s ! 0 = 0 \<or> s ! 0 = 1))"
proof -
  have special: "\<not> (length (b @ v) = 1 \<and> ((b @ v) ! 0 = 0 \<or> (b @ v) ! 0 = 1))"
    if "b \<noteq> []" "list_all idchar b" for b v :: gostring
    using that idchar_other by (cases b) auto
  have clean: "cleanName (b @ v) = cut_version (b @ v)" if "b \<noteq> []" "list_all idchar b" for b v :: gostring
    using special [OF that, of v] by (auto simp: cleanName_def)
  have b: "component b" "semicolon \<notin> set b" "last b \<noteq> dot" if "b \<noteq> []" "list_all idchar b" for b
    using that idchar_other by (auto simp: component_def list_all_iff) (metis last_in_set)
  show "\<not> (length s = 1 \<and> (s ! 0 = 0 \<or> s ! 0 = 1))"
    by (rule level1_parts [OF assms]) (use special in metis)+
  show "component (cleanName s)"
  proof (rule level1_parts [OF assms])
    fix b v assume s: "s = b @ v" "b \<noteq> []" "list_all idchar b" "v = [] \<or> (\<exists>w. v = semicolon # w)"
    then have "cut_version s = b" using cut_version_version [OF b(2) disjI2 [OF b(3)]] by auto
    then show ?thesis using clean [OF s(2,3), of v] s(1) b(1) [OF s(2,3)] by simp
  next
    fix b e v assume s: "s = b @ dot # e @ semicolon # v" "b \<noteq> []" "list_all idchar b" "e \<noteq> []" "list_all dchar e"
    have e: "component e" "semicolon \<notin> set e" "last e \<noteq> dot" using b [OF s(4) dchar_idchar [OF s(5)]] by simp_all
    have "semicolon \<notin> set (b @ dot # e)" "last (b @ dot # e) \<noteq> dot"
      using b [OF s(2,3)] e s(4) by (simp_all add: semicolon_def dot_def)
    from cut_version_version(1) [OF this(1) disjI2 [OF this(2)]] have "cut_version s = b @ dot # e" using s(1) by simp
    moreover have "component (b @ dot # e)"
      using b [OF s(2,3)] e(1) s(2) by (auto simp: component_def dot_def slash_def append_eq_Cons_conv)
    ultimately show ?thesis using clean [OF s(2,3), of "dot # e @ semicolon # v"] s(1) by simp
  qed
qed

section \<open>The medium\<close>

text \<open>
  The situation of the theorems: a builder was laid out, the result fits the number ranges,
  the directories are within what the reader accepts, and a reader serves a medium that
  starts with the image.
\<close>

definition names_distinct :: "heap \<Rightarrow> bool" where
  "names_distinct h \<longleftrightarrow> (\<forall>d. reachable h d \<longrightarrow> distinct (map (disk_name h) (children h d)))"

definition small_dirs :: "heap \<Rightarrow> addr list \<Rightarrow> bool" where
  "small_dirs h dirs \<longleftrightarrow> (\<forall>d \<in> set dirs. item_bytes h d \<le> 2 ^ 24)"

definition written_medium :: "Builder \<Rightarrow> Builder \<Rightarrow> addr list \<Rightarrow> byte list \<Rightarrow> bool" where
  "written_medium b b' dirs img \<longleftrightarrow>
     laid_out b b' dirs \<and> b_root b = 0 \<and> fits (b_heap b') dirs \<and> small_dirs (b_heap b') dirs
     \<and> take (length (iso_image b' dirs)) img = iso_image b' dirs \<and> int (length img) \<le> maxInt"

lemma medium_part:
  assumes "written_medium b b' dirs img" "off + n \<le> length (iso_image b' dirs)"
  shows "bytes_at (image_content img) (int off) n = take n (drop off (iso_image b' dirs))"
    "int off + int n \<le> int (length img)"
proof -
  have pre: "take (length (iso_image b' dirs)) img = iso_image b' dirs" using assms(1) by (simp add: written_medium_def)
  then have len: "length (iso_image b' dirs) \<le> length img" by (metis length_take min.cobounded2 min_def nat_le_linear)
  then show lim: "int off + int n \<le> int (length img)" using assms(2) by linarith
  have "take n (drop off img) = take n (drop off (take (length (iso_image b' dirs)) img))"
    using assms(2) by (simp add: drop_take min_def)
  then show "bytes_at (image_content img) (int off) n = take n (drop off (iso_image b' dirs))"
    using lim pre by (simp add: bytes_at_image)
qed

lemma medium_item:
  assumes m: "written_medium b b' dirs img" and x: "reachable (b_heap b') x"
  shows "bytes_at (image_content img) (int (unat (n_extentLBA (b_heap b' ! x)) * sectorSize))
      (length (item_data b' x)) = item_data b' x"
    "item_data b' x \<noteq> [] \<Longrightarrow>
      int (unat (n_extentLBA (b_heap b' ! x)) * sectorSize) + int (length (item_data b' x)) \<le> int (length img)"
    "unat (n_extentLen (b_heap b' ! x)) = length (item_data b' x)"
proof -
  have lo: "laid_out b b' dirs" and fit: "fits (b_heap b') dirs" using m by (simp_all add: written_medium_def)
  have xs: "x \<in> set (items_of (b_heap b') dirs)" using laid_out_facts(11) [OF lo] x by simp
  note it = image_item [OF lo fit xs]
  show "bytes_at (image_content img) (int (unat (n_extentLBA (b_heap b' ! x)) * sectorSize))
      (length (item_data b' x)) = item_data b' x"
  proof (cases "item_data b' x = []")
    case False
    then have "unat (n_extentLBA (b_heap b' ! x)) * sectorSize + length (item_data b' x) \<le> length (iso_image b' dirs)"
      using it(1) by blast
    from trans [OF medium_part(1) [OF m this] it(2)] show ?thesis .
  qed (simp add: bytes_at_def)
  show "int (unat (n_extentLBA (b_heap b' ! x)) * sectorSize) + int (length (item_data b' x)) \<le> int (length img)"
    if "item_data b' x \<noteq> []" using that it(1) medium_part(2) [OF m] by blast
  obtain i where i: "i < length (items_of (b_heap b') dirs)" "items_of (b_heap b') dirs ! i = x"
    using xs by (metis in_set_conv_nth)
  show "unat (n_extentLen (b_heap b' ! x)) = length (item_data b' x)"
    using laid_out_numbers(1) [OF lo fit i(1)] i(2) item_data_length [OF lo fit xs] by simp
qed

section \<open>Opening the image\<close>

lemma readVolume_written:
  assumes m: "written_medium b b' dirs img"
    and dev: "reader_at rs (image_content img) (int (length img))"
  shows "readVolume rs
    = Inr (written_volume b' (of_nat (image_sectors (b_heap b') dirs)) zero_Volume)"
proof -
  have lo: "laid_out b b' dirs" and fit: "fits (b_heap b') dirs" using m by (simp_all add: written_medium_def)
  note D = image_descriptors [OF lo fit]
  have "16 * sectorSize + sectorSize \<le> length (iso_image b' dirs)" "17 * sectorSize + sectorSize \<le> length (iso_image b' dirs)"
    using D(3) by (simp_all add: sectorSize_def)
  from this [THEN medium_part(1) [OF m]] D(1,2)
  have d: "descriptor_at (image_content img) 16 = pvd_fields b' dirs (of_nat (image_sectors (b_heap b') dirs))"
    "descriptor_at (image_content img) 17 = volumeDescriptorTerminator"
    by (simp_all add: descriptor_at_def)
  have "scan (map (descriptor_at (image_content img)) [systemAreaSectors..<18]) zero_Volume False
      = Inr (Some (written_volume b' (of_nat (image_sectors (b_heap b') dirs)) zero_Volume))"
    by (simp add: systemAreaSectors_def upt_rec d descriptor_step_pvd descriptor_step_terminator)
  moreover have "int 18 * int sectorSize \<le> int (length img) - 1"
    using medium_part(2) [OF m, of "18 * sectorSize" 1] D(3) by (simp add: sectorSize_def)
  ultimately show ?thesis
    using strict_device.readVolume_scan [OF reader_at.strict_before_end [OF dev], of 18]
    by (simp add: systemAreaSectors_def maxDescriptorSector_def)
qed

text \<open>The file system \<^verbatim>\<open>Open\<close> returns.\<close>

definition mounted :: "Builder \<Rightarrow> addr list \<Rightarrow> reader \<Rightarrow> byte list \<Rightarrow> goerror option option \<Rightarrow> FS" where
  "mounted b' dirs rs img closer =
     (let vol = written_volume b' (of_nat (image_sectors (b_heap b') dirs)) zero_Volume in
      \<lparr>fs_rs = rs, fs_size = int (length img), fs_vol = vol, fs_root = special_record 0 (b_heap b' ! b_root b'),
       fs_joliet = False, fs_suspSkip = 0, fs_closer = closer\<rparr>)"

text \<open>A record that leads to the node \<open>a\<close>, under whatever name.\<close>

definition points_to :: "heap \<Rightarrow> addr \<Rightarrow> dirRecord \<Rightarrow> bool" where
  "points_to h a rec \<longleftrightarrow>
     dr_ExtentLBA rec = n_extentLBA (h ! a) \<and> dr_Size rec = n_extentLen (h ! a)
     \<and> dr_extents rec = None \<and> isDir rec = n_isDir (h ! a) \<and> dr_sysUse rec = []"

lemma written_points:
  "written ident (n_extentLBA (h ! a)) (n_extentLen (h ! a)) (n_isDir (h ! a)) = rec \<Longrightarrow> points_to h a rec"
  using written_flags(2) [of ident "n_extentLBA (h ! a)" "n_extentLen (h ! a)" "n_isDir (h ! a)"]
  by (auto simp: points_to_def) (simp_all add: written_def)

lemma node_record_points: "points_to h a (node_record h a)"
  by (rule written_points) (simp add: node_record_def)

lemma special_record_points: "n_isDir (h ! a) \<Longrightarrow> points_to h a (special_record x (h ! a))"
  by (rule written_points [where ident = "[x]"]) (simp add: special_record_def)

definition parent_of :: "heap \<Rightarrow> addr \<Rightarrow> addr" where
  "parent_of h d = (case n_parent (h ! d) of None \<Rightarrow> d | Some p \<Rightarrow> p)"

definition listing :: "heap \<Rightarrow> addr \<Rightarrow> dirRecord list" where
  "listing h d =
     special_record 0 (h ! d) # special_record 1 (h ! parent_of h d)
     # map (node_record h) (sortedChildren h d)"

text \<open>Reading a directory: what was laid out.\<close>

lemma read_dir_written:
  assumes m: "written_medium b b' dirs img"
    and dev: "reader_at rs (image_content img) (int (length img))"
    and r: "reachable (b_heap b') d" "n_isDir (b_heap b' ! d)" and p: "points_to (b_heap b') d rec"
    and fs: "fs_rs fs = rs" "fs_size fs = int (length img)" "v_BlockSize (fs_vol fs) = 2048"
  shows "read_dir env fs rec = Inr (listing (b_heap b') d)"
proof -
  let ?h = "b_heap b'"
  have lo: "laid_out b b' dirs" and fit: "fits ?h dirs" using m by (simp_all add: written_medium_def)
  have d: "d \<in> set dirs"
    using r laid_out_facts(1,3,11) [OF lo] orderedDirs_ok [OF laid_out_facts(1) [OF lo]] by auto
  have data: "item_data b' d = dir_bytes b' d" using r(2) by (simp add: item_data_def)
  have len: "unat (dr_Size rec) = length (dir_bytes b' d)"
    using medium_item(3) [OF m r(1)] p data by (simp add: points_to_def)
  have small: "unat (dr_Size rec) \<le> 2 ^ 24"
    using m d directory_written(2) [OF lo fit d] unfolding len by (simp add: written_medium_def small_dirs_def)
  have off: "ext_off (fs_vol fs) (rec_extent rec) = int (unat (n_extentLBA (?h ! d)) * sectorSize)"
    using p fs(3) by (simp add: ext_off_def rec_extent_def points_to_def sectorSize_def)
  have nonempty: "item_data b' d \<noteq> []"
  proof
    assume "item_data b' d = []"
    then have "parse_records sectorSize (dir_bytes b' d) 0 = Inr []" by (simp add: data parse_records_end)
    then show False using directory_written(3) [OF lo fit d] by simp
  qed
  have lim: "int (unat (n_extentLBA (?h ! d)) * sectorSize) + int (unat (dr_Size rec)) \<le> int (length img)"
    using medium_item(2) [OF m r(1) nonempty] by (simp only: len data)
  then have lim': "int (unat (dr_Size rec)) \<le> int (length img)" by linarith
  have bytes: "bytes_at (image_content img) (ext_off (fs_vol fs) (rec_extent rec)) (unat (dr_Size rec)) = dir_bytes b' d"
    using medium_item(1) [OF m r(1)] by (simp only: len data off)
  have "read_dir env fs rec = readDirRecords (env_grow env) rs (fs_vol fs) rec (int (length img))"
    by (simp add: read_dir_def fs allocCeiling_def)
  also have "\<dots> = res_bind (parse_records (unat (v_BlockSize (fs_vol fs))) (dir_bytes b' d) 0) mergeMultiExtent"
    unfolding bytes [symmetric]
    by (rule device.readDirRecords_complete [OF reader_at.axioms(1) [OF dev]])
      (use p r(2) small lim lim' in \<open>simp_all only: points_to_def off\<close>)
  also have "\<dots> = Inr (listing ?h d)"
    using directory_written(3) [OF lo fit d] by (simp add: fs(3) sectorSize_def listing_def parent_of_def)
  finally show ?thesis .
qed

lemma rr_of_plain: "dr_sysUse rec = [] \<Longrightarrow> rr_of fs rec = zero_rrInfo"
  using rrFor_eq [of fs rec] by (simp add: rrFor_def del: rrFor_eq)

lemma detectSUSPSkip_nil: "detectSUSPSkip [] = Inr None"
  by (subst detectSUSPSkip.simps) simp

lemma Open_written:
  assumes m: "written_medium b b' dirs img"
    and dev: "reader_at rs (image_content img) (int (length img))"
  shows "Open env rs (int (length img)) closer = Inr (mounted b' dirs rs img closer)"
proof -
  let ?vol = "written_volume b' (of_nat (image_sectors (b_heap b') dirs)) zero_Volume"
  let ?fs = "\<lparr>fs_rs = rs, fs_size = int (length img), fs_vol = ?vol, fs_root = zero_dirRecord,
          fs_joliet = False, fs_suspSkip = 0, fs_closer = closer\<rparr>"
  have lo: "laid_out b b' dirs" and root: "b_root b' = 0"
    using m laid_out_facts(4) by (auto simp: written_medium_def)
  have r0: "reachable (b_heap b') 0" "n_isDir (b_heap b' ! 0)"
    using laid_out_facts(1) [OF lo] by (simp_all add: reachable_def wf_heap_def)
  have "read_dir env ?fs (special_record 0 (b_heap b' ! 0)) = Inr (listing (b_heap b') 0)"
    by (rule read_dir_written [OF m dev r0 special_record_points [OF r0(2)]])
      (simp_all add: written_volume_def)
  moreover have "dr_rawName (special_record 0 nd) = [0]" "dr_sysUse (special_record 0 nd) = []" for nd
    by (simp_all add: special_record_def written_def)
  ultimately have "primarySUSP env ?fs = Inr (0, False)"
    by (simp add: primarySUSP_def written_volume_def root listing_def detectSUSPSkip_nil)
  moreover have "v_hasJoliet ?vol = False" "v_pvdRoot ?vol = special_record 0 (b_heap b' ! b_root b')"
    by (simp_all add: written_volume_def zero_Volume_def)
  ultimately have "chooseTree env ?fs = Inr (mounted b' dirs rs img closer)"
    unfolding chooseTree_def by (simp add: mounted_def)
  moreover have "Open env rs (int (length img)) closer = chooseTree env ?fs"
    unfolding Open_def readVolume_written [OF m dev] res_bind_simps ..
  ultimately show ?thesis by simp
qed

section \<open>Looking names up\<close>

lemma zero_rr [simp]: "rr_isSymlink zero_rrInfo = False" "rr_hasName zero_rrInfo = False" "rr_hasMode zero_rrInfo = False"
  by (simp_all add: zero_rrInfo_def)

lemma name_of_plain: "dr_sysUse rec = [] \<Longrightarrow> \<not> fs_joliet fs \<Longrightarrow> name_of fs rec = dr_Name rec"
  using effectiveName_eq [of fs rec] rr_of_plain [of rec fs]
  by (simp add: effectiveName_def del: effectiveName_eq)

lemma node_record_name: "\<not> fs_joliet fs \<Longrightarrow> name_of fs (node_record h c) = disk_name h c"
  by (subst name_of_plain) (simp_all add: node_record_def written_def disk_name_def)

lemma special_record_special: "x = 0 \<or> x = 1 \<Longrightarrow> isSpecial (special_record x nd)"
  by (auto simp: isSpecial_def special_record_def written_def)

lemma child_not_special:
  assumes "laid_out b b' dirs" "reachable (b_heap b') d" "c \<in> set (children (b_heap b') d)"
  shows "\<not> isSpecial (node_record (b_heap b') c)" "component (disk_name (b_heap b') c)"
    "ascii (disk_name (b_heap b') c)" "upper_ascii (disk_name (b_heap b') c) = disk_name (b_heap b') c"
proof -
  have l: "level1 (n_isDir (b_heap b' ! c)) (n_id (b_heap b' ! c))"
    using laid_out_facts(10) [OF assms(1,2)] assms(3) by (simp add: ids_ok_def)
  from level1_disk_name [OF l]
  show "\<not> isSpecial (node_record (b_heap b') c)" "component (disk_name (b_heap b') c)"
    by (simp_all add: isSpecial_def node_record_def written_def disk_name_def)
  show "ascii (disk_name (b_heap b') c)" "upper_ascii (disk_name (b_heap b') c) = disk_name (b_heap b') c"
    using level1_upper [OF l] by (simp_all add: disk_name_def)
qed

lemma lookup_written:
  assumes lo: "laid_out b b' dirs" and nd: "names_distinct (b_heap b')"
    and r: "reachable (b_heap b') d" and c: "c \<in> set (children (b_heap b') d)" and j: "\<not> fs_joliet fs"
  shows "lookup_entry env fs (listing (b_heap b') d) (disk_name (b_heap b') c) = Some (node_record (b_heap b') c)"
proof -
  let ?h = "b_heap b'"
  have wf: "wf_heap ?h" by (rule laid_out_facts(1) [OF lo])
  have dl: "d < length ?h" by (rule reachable_bound [OF wf r])
  have "c \<in> set (sortedChildren ?h d)" using c sortedChildren_set [OF wf dl] by simp
  then obtain xs ys where split: "sortedChildren ?h d = xs @ c # ys" by (meson split_list)
  have "distinct (sortedChildren ?h d)" by (rule sortedChildren_distinct [OF wf dl])
  then have other: "x \<noteq> c \<and> x \<in> set (children ?h d)" if "x \<in> set xs" for x
    using that sortedChildren_set [OF wf dl] unfolding split by auto
  have "distinct (map (disk_name ?h) (children ?h d))" using nd r unfolding names_distinct_def by blast
  then have inj: "inj_on (disk_name ?h) (set (children ?h d))" by (simp add: distinct_map)
  show ?thesis
  proof (rule lookup_entry_first)
    show "listing ?h d = (special_record 0 (?h ! d) # special_record 1 (?h ! parent_of ?h d) # map (node_record ?h) xs)
        @ node_record ?h c # map (node_record ?h) ys"
      by (simp add: listing_def split)
    show "\<not> isSpecial (node_record ?h c)" by (rule child_not_special(1) [OF lo r c])
    show "name_of fs (node_record ?h c) = disk_name ?h c" by (rule node_record_name [OF j])
    fix e assume "e \<in> set (special_record 0 (?h ! d) # special_record 1 (?h ! parent_of ?h d) # map (node_record ?h) xs)"
    then consider "isSpecial e" | x where "x \<in> set xs" "e = node_record ?h x"
      using special_record_special by auto
    then show "isSpecial e \<or> name_of fs e \<noteq> disk_name ?h c"
    proof cases
      case 2
      then show ?thesis using other [OF 2(1)] c inj node_record_name [OF j] by (auto dest: inj_onD)
    qed simp
  qed
qed

text \<open>The letters of the name asked for may be in either case.\<close>

lemma lookup_written_upper:
  assumes lo: "laid_out b b' dirs" and nd: "names_distinct (b_heap b')"
    and r: "reachable (b_heap b') d" and c: "c \<in> set (children (b_heap b') d)" and j: "\<not> fs_joliet fs"
    and k: "upper_ascii k = disk_name (b_heap b') c"
  shows "lookup_entry env fs (listing (b_heap b') d) k = Some (node_record (b_heap b') c)"
proof (rule lookup_entry_upper [OF _ lookup_written [OF lo nd r c j] node_record_name [OF j] k])
  fix e assume e: "e \<in> set (listing (b_heap b') d)" "\<not> isSpecial e"
  have wf: "wf_heap (b_heap b')" by (rule laid_out_facts(1) [OF lo])
  from e obtain x where "e = node_record (b_heap b') x" "x \<in> set (children (b_heap b') d)"
    using special_record_special sortedChildren_set [OF wf reachable_bound [OF wf r]]
    by (auto simp: listing_def)
  then show "ascii (name_of fs e) \<and> upper_ascii (name_of fs e) = name_of fs e"
    using child_not_special(3,4) [OF lo r] node_record_name [OF j] by simp
qed

lemma walk_written:
  assumes m: "written_medium b b' dirs img"
    and dev: "reader_at rs (image_content img) (int (length img))"
    and nd: "names_distinct (b_heap b')"
    and fs: "fs = mounted b' dirs rs img closer"
  shows "node_at (b_heap b') a p = Some x \<Longrightarrow> reachable (b_heap b') a \<Longrightarrow> points_to (b_heap b') a cur \<Longrightarrow>
    map upper_ascii q = disk_path (b_heap b') a p \<Longrightarrow>
    \<exists>rec. resolve_walk env fs cur q ff hops = Inr rec
      \<and> points_to (b_heap b') x rec \<and> (p \<noteq> [] \<longrightarrow> rec = node_record (b_heap b') x)"
proof (induction p arbitrary: a cur q)
  case Nil
  then show ?case by simp
next
  case (Cons k p)
  let ?h = "b_heap b'"
  have lo: "laid_out b b' dirs" using m by (simp add: written_medium_def)
  have wf: "wf_heap ?h" by (rule laid_out_facts(1) [OF lo])
  have al: "a < length ?h" by (rule reachable_bound [OF wf Cons.prems(2)])
  obtain c where c: "map_of (n_children (?h ! a)) k = Some c" "node_at ?h c p = Some x"
    using Cons.prems(1) by (auto split: option.splits)
  note cf = child_facts [OF wf al c(1)]
  have cin: "c \<in> set (children ?h a)" using cf(5) by (force simp: children_def)
  have vol: "fs_rs fs = rs" "fs_size fs = int (length img)" "v_BlockSize (fs_vol fs) = 2048" "\<not> fs_joliet fs"
    by (simp_all add: fs mounted_def Let_def written_volume_def)
  have dir: "isDir cur" using Cons.prems(3) cf(6) by (simp add: points_to_def)
  have rd: "read_dir env fs cur = Inr (listing ?h a)"
    by (rule read_dir_written [OF m dev Cons.prems(2) cf(6) Cons.prems(3) vol(1-3)])
  have "dr_sysUse (node_record ?h c) = []" by (simp add: node_record_def written_def)
  then have sym: "\<not> rr_isSymlink (rr_of fs (node_record ?h c))" by (simp add: rr_of_plain)
  obtain k' q' where q: "q = k' # q'" "upper_ascii k' = disk_name ?h c" "map upper_ascii q' = disk_path ?h c p"
    using Cons.prems(4) c(1) by auto
  have step: "resolve_walk env fs cur q ff hops = resolve_walk env fs (node_record ?h c) q' ff hops"
    by (simp add: q(1) resolve_walk_step dir rd lookup_written_upper [OF lo nd Cons.prems(2) cin vol(4) q(2)] sym)
  obtain rec where rec: "resolve_walk env fs (node_record ?h c) q' ff hops = Inr rec"
      "points_to ?h x rec" "p \<noteq> [] \<longrightarrow> rec = node_record ?h x"
    using Cons.IH [OF c(2) reachable_child [OF wf Cons.prems(2) al cin] node_record_points q(3)] by blast
  have "rec = node_record ?h x" using rec(1,3) c(2) q(3) by (cases "p = []") auto
  then show ?case using rec(1,2) step by simp
qed

lemma resolve_written:
  assumes m: "written_medium b b' dirs img"
    and dev: "reader_at rs (image_content img) (int (length img))"
    and nd: "names_distinct (b_heap b')"
    and fs: "fs = mounted b' dirs rs img closer"
    and x: "node_at (b_heap b') 0 p = Some x" and path: "map upper_ascii (splitPath path) = disk_path (b_heap b') 0 p"
  shows "\<exists>rec. resolve env fs path = Inr rec \<and> points_to (b_heap b') x rec"
proof -
  have lo: "laid_out b b' dirs" and root: "b_root b' = 0"
    using m laid_out_facts(4) by (auto simp: written_medium_def)
  have r0: "reachable (b_heap b') 0" "n_isDir (b_heap b' ! 0)"
    using laid_out_facts(1) [OF lo] by (simp_all add: reachable_def wf_heap_def)
  have "points_to (b_heap b') 0 (fs_root fs)"
    using special_record_points [OF r0(2)] by (simp add: fs mounted_def Let_def root)
  from walk_written [OF m dev nd fs x r0(1) this path, of env True 0]
  show ?thesis
    unfolding resolve_def by (auto simp: resolveFrom.simps maxSymlinkHops_def)
qed

section \<open>Reading\<close>

lemma ReadFile_written:
  assumes m: "written_medium b b' dirs img"
    and dev: "reader_at rs (image_content img) (int (length img))"
    and nd: "names_distinct (b_heap b')"
    and fs: "fs = mounted b' dirs rs img closer"
    and x: "node_at (b_heap b') 0 p = Some x" "\<not> n_isDir (b_heap b' ! x)"
    and path: "map upper_ascii (splitPath path) = disk_path (b_heap b') 0 p"
  shows "ReadFile env fs path = Inr (n_data (b_heap b' ! x))"
proof -
  let ?h = "b_heap b'" and ?vol = "fs_vol fs"
  obtain rec where rec: "resolve env fs path = Inr rec" "points_to ?h x rec"
    using resolve_written [OF m dev nd fs x(1) path] by blast
  have r: "reachable ?h x" using x(1) by (auto simp: reachable_def desc_def)
  have data: "item_data b' x = n_data (?h ! x)" using x(2) by (simp add: item_data_def)
  let ?e = "\<lparr>ext_lba = n_extentLBA (?h ! x), ext_size = n_extentLen (?h ! x)\<rparr>"
  have bs: "v_BlockSize ?vol = 2048" by (simp add: fs mounted_def Let_def written_volume_def)
  have ex: "rec_extents rec = [?e]" "\<not> isDir rec" "unat (dr_Size rec) = length (n_data (?h ! x))"
    using rec(2) x(2) medium_item(3) [OF m r] by (simp_all add: rec_extents_def points_to_def data)
  have el: "ext_len ?e = length (n_data (?h ! x))" using medium_item(3) [OF m r] by (simp add: ext_len_def data)
  have off: "ext_off ?vol ?e = int (unat (n_extentLBA (?h ! x)) * sectorSize)"
    using bs by (simp add: ext_off_def sectorSize_def)
  have lim: "ext_off ?vol ?e + int (length (n_data (?h ! x))) \<le> int (length img)" if "n_data (?h ! x) \<noteq> []"
    unfolding off by (rule medium_item(2) [OF m r, unfolded data, OF that])
  have lim': "int (length (n_data (?h ! x))) \<le> int (length img)"
    using lim ext_off_nonneg(1) [of ?vol ?e] by (cases "n_data (?h ! x) = []") (simp, linarith)
  have img: "int (length img) \<le> maxInt" using m by (simp add: written_medium_def)
  have pos: "n_data (?h ! x) \<noteq> []" if "ext_size ?e \<noteq> 0"
    using that el ext_len_pos by fastforce
  have "readFile (env_grow env) rs ?vol rec (int (length img)) = Inr (file_bytes (image_content img) ?vol rec)"
    by (rule device.readFile_complete [OF reader_at.axioms(1) [OF dev]])
      (use ex el lim lim' img pos in \<open>auto simp: extents_len_def\<close>)
  moreover have "file_bytes (image_content img) ?vol rec = n_data (?h ! x)"
    using medium_item(1) [OF m r]
    by (simp only: file_bytes_def extents_bytes_def ex extents_len_def list.map concat.simps sum_list.Cons
        sum_list.Nil el off data) simp
  ultimately show ?thesis
    using rec(1) by (simp add: ReadFile_def fs mounted_def Let_def allocCeiling_def)
qed

definition listed :: "heap \<Rightarrow> addr \<Rightarrow> DirEntry" where
  "listed h c =
     \<lparr>de_ino = ucast (n_extentLBA (h ! c)), de_name = disk_name h c, de_type = (if n_isDir (h ! c) then 2 else 0)\<rparr>"

lemma ListDir_written:
  assumes m: "written_medium b b' dirs img"
    and dev: "reader_at rs (image_content img) (int (length img))"
    and nd: "names_distinct (b_heap b')"
    and fs: "fs = mounted b' dirs rs img closer"
    and x: "node_at (b_heap b') 0 p = Some x" "n_isDir (b_heap b' ! x)"
    and path: "map upper_ascii (splitPath path) = disk_path (b_heap b') 0 p"
  shows "ListDir env fs path = Inr (map (listed (b_heap b')) (sortedChildren (b_heap b') x))"
proof -
  let ?h = "b_heap b'"
  obtain rec where rec: "resolve env fs path = Inr rec" "points_to ?h x rec"
    using resolve_written [OF m dev nd fs x(1) path] by blast
  have r: "reachable ?h x" using x(1) by (auto simp: reachable_def desc_def)
  have lo: "laid_out b b' dirs" using m by (simp add: written_medium_def)
  note wf = laid_out_facts(1) [OF lo]
  have vol: "fs_rs fs = rs" "fs_size fs = int (length img)" "v_BlockSize (fs_vol fs) = 2048" "\<not> fs_joliet fs"
    by (simp_all add: fs mounted_def Let_def written_volume_def)
  have rd: "read_dir env fs rec = Inr (listing ?h x)"
    by (rule read_dir_written [OF m dev r x(2) rec(2) vol(1-3)])
  have "\<not> isSpecial (node_record ?h c)" if "c \<in> set (sortedChildren ?h x)" for c
    using child_not_special(1) [OF lo r, of c] that sortedChildren_set [OF wf reachable_bound [OF wf r]] by simp
  then have "filter (\<lambda>e. \<not> isSpecial e) (map (node_record ?h) (sortedChildren ?h x))
      = map (node_record ?h) (sortedChildren ?h x)"
    by (simp add: filter_map comp_def)
  then have keep: "filter (\<lambda>e. \<not> isSpecial e) (listing ?h x) = map (node_record ?h) (sortedChildren ?h x)"
    by (simp add: listing_def special_record_special)
  have one: "dir_entry fs (node_record ?h c) = Inr (listed ?h c)" for c
    using node_record_name [OF vol(4), of ?h c] node_record_points [of ?h c]
    by (simp add: dir_entry_def listed_def points_to_def)
  have "map_res (dir_entry fs) (map (node_record ?h) cs) = Inr (map (listed ?h) cs)" for cs
    by (induction cs) (simp_all add: one)
  then show ?thesis by (simp add: ListDir_def rec(1) rd keep)
qed

section \<open>Paths of nodes\<close>

lemma reachable_at: "reachable h d \<Longrightarrow> \<exists>p. node_at h 0 p = Some d"
  by (simp add: reachable_def desc_def)

lemma child_at:
  assumes wf: "wf_heap h" and p: "node_at h 0 p = Some d" and d: "d < length h" and c: "c \<in> set (children h d)"
  shows "heap_tree h (p @ [n_name (h ! c)]) = Some (entry_of (h ! c))"
  using p children_facts(5) [OF wf d c] by (simp add: heap_tree_def node_at_snoc)

end
