(* ===== verification/SizeBounds.thy ===== *)
theory SizeBounds
  imports ReadBack
begin

text \<open>
  A bound on the tree of a builder, checked before anything is laid out, under which the
  32-bit arithmetic of the layout does not wrap and every directory is one the reader
  accepts.  It stays far away from what fits: 131072 entries per directory, 4 GiB per file,
  and a weight of one tebibyte for the whole image.
\<close>

section \<open>Modest trees\<close>

definition weight :: "node \<Rightarrow> nat" where
  "weight nd = length (n_data nd) + 96 * length (n_children nd) + 8192"

definition modest :: "heap \<Rightarrow> bool" where
  "modest h \<longleftrightarrow>
     (\<forall>nd \<in> set h. length (n_children nd) \<le> 2 ^ 17 \<and> length (n_data nd) + 2048 \<le> 2 ^ 32)
     \<and> sum_list (map weight h) \<le> 2 ^ 40"

lemma modest_few: "modest h \<Longrightarrow> few_children h"
proof -
  assume m: "modest h"
  have "length (n_children (h ! a)) \<le> 2 ^ 17" if "a < length h" for a
    using m nth_mem [OF that] unfolding modest_def by blast
  then show ?thesis by (fastforce simp: few_children_def)
qed

lemma modest_same:
  assumes "same_tree h g"
  shows "modest g = modest h"
proof -
  have len: "length g = length h" using assms by (simp add: same_tree_def)
  have fields: "n_children (g ! a) = n_children (h ! a)" "n_data (g ! a) = n_data (h ! a)" if "a < length h" for a
    using same_tree_fields [OF assms that] by simp_all
  have weights: "map weight g = map weight h"
    by (rule nth_equalityI) (simp_all add: len weight_def fields)
  have "(\<forall>nd \<in> set g. P (n_children nd) (n_data nd)) \<longleftrightarrow> (\<forall>nd \<in> set h. P (n_children nd) (n_data nd))" for P
    by (simp add: all_set_conv_all_nth len fields)
  from this [of "\<lambda>cs d. length cs \<le> 2 ^ 17 \<and> length d + 2048 \<le> 2 ^ 32"] weights
  show ?thesis unfolding modest_def by simp
qed

section \<open>Directories\<close>

lemma place_record_le: "0 < l \<Longrightarrow> place_record pos l \<le> pos + l"
proof (cases "place_record pos l = pos")
  case False
  then have ne: "pos div 2048 \<noteq> (pos + l - 1) div 2048" and p: "place_record pos l = (pos div 2048 + 1) * 2048"
    by (auto simp: place_record_def sectorSize_def split: if_splits)
  assume "0 < l"
  then have "pos div 2048 \<le> (pos + l - 1) div 2048" by (intro div_le_mono) simp
  then have "pos div 2048 + 1 \<le> (pos + l - 1) div 2048" using ne by simp
  then have "(pos div 2048 + 1) * 2048 \<le> (pos + l - 1) div 2048 * 2048" by (rule mult_le_mono1)
  also have "\<dots> \<le> pos + l - 1" by (rule div_times_less_eq_dividend)
  finally show ?thesis using p by simp
qed simp

lemma end_pos_le: "\<forall>l \<in> set ls. 0 < l \<and> l \<le> 48 \<Longrightarrow> end_pos pos ls \<le> pos + 96 * length ls"
proof (induction ls arbitrary: pos)
  case (Cons l ls)
  have "end_pos (place_record pos l + l) ls \<le> place_record pos l + l + 96 * length ls"
    using Cons by simp
  moreover have "place_record pos l \<le> pos + l" using place_record_le [of l pos] Cons.prems by simp
  moreover have "l \<le> 48" using Cons.prems by simp
  ultimately show ?case by simp
qed simp

lemma nsec_le: "nsec n * sectorSize \<le> n + 2047"
  using div_times_less_eq_dividend [of "n + 2047" 2048] by (simp add: nsec_def sectorSize_def)

lemma reachable_cases:
  assumes wf: "wf_heap h" and "reachable h x"
  shows "x = 0 \<or> (\<exists>d. reachable h d \<and> x \<in> set (children h d))"
proof -
  obtain p where p: "node_at h 0 p = Some x" using reachable_at [OF assms(2)] by blast
  show ?thesis
  proof (cases p rule: rev_cases)
    case Nil
    then show ?thesis using p by simp
  next
    case (snoc q k)
    then obtain d where d: "node_at h 0 q = Some d" "map_of (n_children (h ! d)) k = Some x"
      using p node_at_snoc by metis
    have "reachable h d" using d(1) by (auto simp: reachable_def desc_def)
    moreover have "x \<in> set (children h d)"
      using map_of_SomeD [OF d(2)] by (force simp: children_def)
    ultimately show ?thesis by blast
  qed
qed

lemma id_length:
  assumes lo: "laid_out b b' dirs" and "reachable (b_heap b') x"
  shows "length (n_id (b_heap b' ! x)) \<le> 14"
proof -
  note f = laid_out_facts [OF lo]
  consider "x = 0" | d where "reachable (b_heap b') d" "x \<in> set (children (b_heap b') d)"
    using reachable_cases [OF f(1) assms(2)] by blast
  then show ?thesis
  proof cases
    case 2
    then show ?thesis using f(10) [OF 2(1)] level1_length by (auto simp: ids_ok_def)
  qed (simp add: f(9))
qed

lemma directory_bytes_le:
  assumes lo: "laid_out b b' dirs" and r: "reachable (b_heap b') d" and dir: "n_isDir (b_heap b' ! d)"
  shows "item_bytes (b_heap b') d \<le> 96 * length (n_children (b_heap b' ! d)) + 2239"
proof -
  let ?h = "b_heap b'"
  note wf = laid_out_facts(1) [OF lo]
  have dl: "d < length ?h" by (rule reachable_bound [OF wf r])
  have "dirRecordLen (length (n_id (?h ! c))) \<le> 48" if "c \<in> set (sortedChildren ?h d)" for c
  proof -
    have "reachable ?h c" using reachable_child [OF wf r dl] that sortedChildren_set [OF wf dl] by simp
    then show ?thesis using id_length [OF lo] dirRecordLen_bounds(2) [of "length (n_id (?h ! c))"] by fastforce
  qed
  moreover have "0 < dirRecordLen n" for n by (simp add: dirRecordLen_def dirRecordHeaderLen_def)
  ultimately have "extent_bytes_needed ?h d \<le> 0 + 96 * (2 + length (sortedChildren ?h d))"
    unfolding extent_bytes_needed_def
    by (intro order_trans [OF end_pos_le]) (auto simp: dirRecordLen_def dirRecordHeaderLen_def)
  also have "\<dots> \<le> 96 * length (n_children (?h ! d)) + 192"
    using sortedChildren_length [of ?h d] by (simp add: children_def)
  finally show ?thesis
    using nsec_le [of "extent_bytes_needed ?h d"] dir by (simp add: item_bytes_def)
qed

section \<open>The whole image\<close>

lemma item_weight:
  assumes lo: "laid_out b b' dirs" and r: "reachable (b_heap b') x"
  shows "nsec (item_bytes (b_heap b') x) * sectorSize \<le> weight (b_heap b' ! x)"
proof (cases "n_isDir (b_heap b' ! x)")
  case True
  then show ?thesis
    using directory_bytes_le [OF lo r True] nsec_le [of "item_bytes (b_heap b') x"] by (simp add: weight_def)
next
  case False
  then show ?thesis
    using nsec_le [of "item_bytes (b_heap b') x"] by (simp add: weight_def item_bytes_def)
qed

lemma items_weight:
  assumes lo: "laid_out b b' dirs"
  shows "bytes_sectors (b_heap b') (items_of (b_heap b') dirs) * sectorSize \<le> sum_list (map weight (b_heap b'))"
proof -
  let ?h = "b_heap b'" and ?items = "items_of (b_heap b') dirs"
  note f = laid_out_facts [OF lo]
  have "bytes_sectors ?h ?items * sectorSize = (\<Sum>x \<in> set ?items. nsec (item_bytes ?h x) * sectorSize)"
    unfolding bytes_sectors_def sum_list_distinct_conv_sum_set [OF f(12)] by (simp add: sum_distrib_right)
  also have "\<dots> \<le> (\<Sum>x \<in> set ?items. weight (?h ! x))"
    using item_weight [OF lo] f(11) by (intro sum_mono) simp
  also have "\<dots> \<le> (\<Sum>x \<in> {..<length ?h}. weight (?h ! x))"
    using f(11) reachable_bound [OF f(1)] by (intro sum_mono2) auto
  also have "\<dots> = sum_list (map weight ?h)"
    by (simp add: sum_list_sum_nth atLeast0LessThan)
  finally show ?thesis .
qed

lemma table_bytes_le:
  assumes lo: "laid_out b b' dirs"
  shows "pathTableSize (b_heap b') dirs \<le> 23 * length (b_heap b')"
proof -
  let ?h = "b_heap b'"
  note f = laid_out_facts [OF lo]
  have one: "pathTableEntryLen (length (pathTableIdent ?h d)) \<le> 23" if "d \<in> set dirs" for d
  proof -
    have "reachable ?h d" using that f(11) by (auto simp: items_of_def)
    then have "length (pathTableIdent ?h d) \<le> 14" using id_length [OF lo] by (simp add: pathTableIdent_def)
    then show ?thesis by (simp add: pathTableEntryLen_def)
  qed
  have dist: "distinct dirs" using f(12) by (simp add: items_of_def)
  have "pathTableSize ?h dirs = sum_list (map (\<lambda>d. pathTableEntryLen (length (pathTableIdent ?h d))) dirs)"
    by (simp add: pathTableSize_def fold_plus)
  also have "\<dots> \<le> sum_list (map (\<lambda>_. 23) dirs)" by (rule sum_list_mono) (rule one)
  also have "\<dots> = 23 * card (set dirs)" using dist by (simp add: sum_list_triv distinct_card)
  also have "\<dots> \<le> 23 * length ?h"
    using card_mono [of "{..<length ?h}" "set dirs"] f(13) by fastforce
  finally show ?thesis .
qed

lemma modest_fits:
  assumes lo: "laid_out b b' dirs" and m: "modest (b_heap b)"
  shows "fits (b_heap b') dirs" "small_dirs (b_heap b') dirs"
proof -
  let ?h = "b_heap b'"
  note f = laid_out_facts [OF lo]
  have mh: "modest ?h" using modest_same [OF f(2)] m by simp
  have total: "sum_list (map weight ?h) \<le> 2 ^ 40" using mh by (simp add: modest_def)
  have "sum_list (map (\<lambda>_. 8192) ?h) \<le> sum_list (map weight ?h)"
    by (rule sum_list_mono) (simp add: weight_def)
  then have len: "length ?h \<le> 2 ^ 27" using total by (simp add: sum_list_triv)
  have table: "pathTableSize ?h dirs \<le> 23 * 2 ^ 27" using table_bytes_le [OF lo] len by simp
  have "nsec (pathTableSize ?h dirs) * sectorSize \<le> 23 * 2 ^ 27 + 2047"
    using nsec_le [of "pathTableSize ?h dirs"] table by simp
  moreover have "bytes_sectors ?h (items_of ?h dirs) * sectorSize \<le> 2 ^ 40"
    using items_weight [OF lo] total by simp
  ultimately have "image_sectors ?h dirs < 2 ^ 32"
    by (simp add: image_sectors_def first_extent_def sectorSize_def)
  moreover have "pathTableSize ?h dirs + sectorSize \<le> 2 ^ 32" using table by (simp add: sectorSize_def)
  moreover have "item_bytes ?h x + sectorSize \<le> 2 ^ 32 \<and> (n_isDir (?h ! x) \<longrightarrow> item_bytes ?h x \<le> 2 ^ 24)"
    if r: "reachable ?h x" for x
  proof -
    have "?h ! x \<in> set ?h" using reachable_bound [OF f(1) r] by simp
    then have nd: "length (n_children (?h ! x)) \<le> 2 ^ 17" "length (n_data (?h ! x)) + 2048 \<le> 2 ^ 32"
      using mh unfolding modest_def by blast+
    show ?thesis
      using directory_bytes_le [OF lo r] nd by (cases "n_isDir (?h ! x)") (simp_all add: item_bytes_def sectorSize_def)
  qed
  ultimately show "fits ?h dirs" "small_dirs ?h dirs"
    using f(11,13) by (auto simp: fits_def small_dirs_def items_of_def)
qed

end
