(* ===== verification/PathTable.thy ===== *)
theory PathTable
  imports SizeBounds
begin

text \<open>
  The path tables of an image: the order of their entries (ECMA-119 6.9.1) and their bytes in
  both byte orders, read back by the format's own rules.
\<close>

section \<open>Order\<close>

text \<open>The index of the parent directory, as an entry records it; the root is its own parent.\<close>

definition parent_index :: "heap \<Rightarrow> addr \<Rightarrow> nat" where
  "parent_index h d =
     (case n_parent (h ! d) of None \<Rightarrow> n_dirIndex (h ! d) | Some p \<Rightarrow> n_dirIndex (h ! p))"

definition table_less :: "heap \<Rightarrow> addr \<Rightarrow> addr \<Rightarrow> bool" where
  "table_less h a b \<longleftrightarrow>
     parent_index h a < parent_index h b
     \<or> parent_index h a = parent_index h b \<and> str_less (n_id (h ! a)) (n_id (h ! b))"

lemma sorted_concat:
  assumes "\<And>x. x \<in> set xs \<Longrightarrow> sorted_wrt R (f x)"
    and "\<And>i j a b. i < j \<Longrightarrow> j < length xs \<Longrightarrow> a \<in> set (f (xs ! i)) \<Longrightarrow> b \<in> set (f (xs ! j)) \<Longrightarrow> R a b"
  shows "sorted_wrt R (concat (map f xs))"
  using assms
proof (induction xs)
  case (Cons x xs)
  have "sorted_wrt R (concat (map f xs))"
  proof (rule Cons.IH)
    show "sorted_wrt R (f y)" if "y \<in> set xs" for y using Cons.prems(1) that by simp
    show "R a b" if "i < j" "j < length xs" "a \<in> set (f (xs ! i))" "b \<in> set (f (xs ! j))" for i j a b
      using Cons.prems(2) [of "Suc i" "Suc j" a b] that by simp
  qed
  moreover have "R a b" if a: "a \<in> set (f x)" and b: "b \<in> set (concat (map f xs))" for a b
  proof -
    obtain x' where "x' \<in> set xs" "b \<in> set (f x')" using b by auto
    then obtain j where "j < length xs" "b \<in> set (f (xs ! j))" by (metis in_set_conv_nth)
    then show ?thesis using Cons.prems(2) [of 0 "Suc j" a b] a by simp
  qed
  ultimately show ?case using Cons.prems(1) [of x] by (auto simp: sorted_wrt_append)
qed simp

lemma siblings_sorted:
  assumes lo: "laid_out b b' dirs" and r: "reachable (b_heap b') d"
  shows "sorted_wrt (\<lambda>x y. str_less (n_id (b_heap b' ! x)) (n_id (b_heap b' ! y))) (sortedChildren (b_heap b') d)"
proof (cases "n_isDir (b_heap b' ! d)")
  case True
  let ?h = "b_heap b'"
  note f = laid_out_facts [OF lo]
  have dl: "d < length ?h" by (rule reachable_bound [OF f(1) r])
  have ok: "ids_ok ?h d" by (rule f(10) [OF r])
  have ne: "n_id (?h ! c) \<noteq> []" if "c \<in> set (children ?h d)" for c
    using ok that by (auto simp: ids_ok_def level1_def level1_dir_def level1_file_def split: if_splits)
  have "inj_on (\<lambda>c. n_id (?h ! c)) (set (children ?h d))"
    using ok by (simp add: ids_ok_def distinct_map)
  then have "key_order ?h (set (children ?h d))" using ne by (simp add: key_order_def)
  then have "sorted_wrt (node_less ?h) (sortedChildren ?h d)"
    using sorted_sort_by [OF key_order_strict distinct_children [OF f(1) dl]] True
    by (simp add: sortedChildren_def children_def)
  then show ?thesis
  proof (rule sorted_wrt_mono_rel [rotated])
    fix x y assume "x \<in> set (sortedChildren ?h d)" "y \<in> set (sortedChildren ?h d)" "node_less ?h x y"
    then show "str_less (n_id (?h ! x)) (n_id (?h ! y))"
      using ne sortedChildren_set [OF f(1) dl] by (simp add: node_less_def Let_def)
  qed
qed (simp add: sortedChildren_def)

lemma dirs_reachable: "laid_out b b' dirs \<Longrightarrow> d \<in> set dirs \<Longrightarrow> reachable (b_heap b') d"
  using laid_out_facts(11) [of b b' dirs] by (auto simp: items_of_def)

lemma subdir_parent_index:
  assumes lo: "laid_out b b' dirs" and i: "i < length dirs" and c: "c \<in> set (subdirs (b_heap b') (dirs ! i))"
  shows "parent_index (b_heap b') c = i + 1"
proof -
  note f = laid_out_facts [OF lo]
  have r: "reachable (b_heap b') (dirs ! i)" by (rule dirs_reachable [OF lo nth_mem [OF i]])
  have "c \<in> set (children (b_heap b') (dirs ! i))" by (rule subdirs_facts(1) [OF f(1) r c])
  then have "n_parent (b_heap b' ! c) = Some (dirs ! i)" using f(10) [OF r] by (simp add: ids_ok_def)
  moreover have "n_dirIndex (b_heap b' ! (dirs ! i)) = i + 1" using lo i by (simp add: laid_out_def Let_def)
  ultimately show ?thesis by (simp add: parent_index_def)
qed

lemma path_table_sorted:
  assumes lo: "laid_out b b' dirs"
  shows "sorted_wrt (table_less (b_heap b')) (tl dirs)"
    "\<forall>i < length dirs. 0 < i \<longrightarrow> parent_index (b_heap b') (dirs ! i) \<le> i"
    "dirs \<noteq> []" "hd dirs = 0" "parent_index (b_heap b') 0 = 1"
proof -
  let ?h = "b_heap b'"
  note f = laid_out_facts [OF lo]
  note O = orderedDirs_ok [OF f(1)]
  have eq: "dirs = 0 # concat (map (subdirs ?h) dirs)"
    and par: "\<forall>j. 0 < j \<longrightarrow> j < length dirs \<longrightarrow> (\<exists>k < j. dirs ! j \<in> set (subdirs ?h (dirs ! k)))"
    using O f(3) by (metis sum.inject(2))+
  have "sorted_wrt (table_less ?h) (concat (map (subdirs ?h) dirs))"
  proof (rule sorted_concat)
    fix d assume d: "d \<in> set dirs"
    then have r: "reachable ?h d" by (rule dirs_reachable [OF lo])
    have "sorted_wrt (\<lambda>x y. str_less (n_id (?h ! x)) (n_id (?h ! y))) (subdirs ?h d)"
      using siblings_sorted [OF lo r] by (simp add: subdirs_def sorted_wrt_filter)
    then show "sorted_wrt (table_less ?h) (subdirs ?h d)"
    proof (rule sorted_wrt_mono_rel [rotated])
      fix x y assume "x \<in> set (subdirs ?h d)" "y \<in> set (subdirs ?h d)" "str_less (n_id (?h ! x)) (n_id (?h ! y))"
      moreover obtain i where "i < length dirs" "d = dirs ! i" using d by (metis in_set_conv_nth)
      ultimately show "table_less ?h x y" using subdir_parent_index [OF lo] by (simp add: table_less_def)
    qed
  next
    fix i j a b
    assume "i < j" "j < length dirs" "a \<in> set (subdirs ?h (dirs ! i))" "b \<in> set (subdirs ?h (dirs ! j))"
    then show "table_less ?h a b"
      using subdir_parent_index [OF lo, of i a] subdir_parent_index [OF lo, of j b] by (simp add: table_less_def)
  qed
  moreover have "tl dirs = concat (map (subdirs ?h) dirs)" using arg_cong [OF eq, of tl] by simp
  ultimately show "sorted_wrt (table_less ?h) (tl dirs)" by simp
  show "\<forall>i < length dirs. 0 < i \<longrightarrow> parent_index ?h (dirs ! i) \<le> i"
  proof (intro allI impI)
    fix i assume i: "i < length dirs" "0 < i"
    then obtain k where "k < i" "dirs ! i \<in> set (subdirs ?h (dirs ! k))" using par by blast
    then show "parent_index ?h (dirs ! i) \<le> i" using subdir_parent_index [OF lo, of k "dirs ! i"] i(1) by simp
  qed
  show ne: "dirs \<noteq> []" using eq by (metis list.distinct(1))
  show hd: "hd dirs = 0" using arg_cong [OF eq, of hd] by simp
  have "n_dirIndex (?h ! (dirs ! 0)) = 1" using lo ne by (simp add: laid_out_def Let_def)
  then show "parent_index ?h 0 = 1" using f(8) hd ne by (simp add: parent_index_def hd_conv_nth)
qed

section \<open>Bytes\<close>

text \<open>
  A reader of path tables, from the format: the length of the identifier, the extent and the
  parent's index in the table's byte order, the identifier, a padding byte after an odd one.
\<close>

definition be32 :: "byte list \<Rightarrow> u32" where
  "be32 b = projr (le32 (rev (take 4 b)))"

definition table_entry :: "bool \<Rightarrow> byte list \<Rightarrow> byte list \<times> u32 \<times> u16" where
  "table_entry msb b =
     (take (unat (b ! 0)) (drop 8 b),
      if msb then be32 (drop 2 b) else projr (le32 (drop 2 b)),
      if msb then projr (be16 (drop 6 b)) else projr (le16 (drop 6 b)))"

fun read_table :: "bool \<Rightarrow> nat \<Rightarrow> byte list \<Rightarrow> (byte list \<times> u32 \<times> u16) list" where
  "read_table msb 0 b = []"
| "read_table msb (Suc n) b =
     table_entry msb b # read_table msb n (drop (pathTableEntryLen (unat (b ! 0))) b)"

definition entry_fields :: "heap \<Rightarrow> bool \<Rightarrow> addr \<Rightarrow> byte list" where
  "entry_fields h msb d =
     [byte_of_nat (length (pathTableIdent h d))] @ [0]
     @ (if msb then putBE32 (n_extentLBA (h ! d)) else putLE32 (n_extentLBA (h ! d)))
     @ (if msb then putBE16 (of_nat (parent_index h d)) else putLE16 (of_nat (parent_index h d)))
     @ pathTableIdent h d @ zeros (pathTableEntryLen (length (pathTableIdent h d)) - 8 - length (pathTableIdent h d))"

lemma path_entry_fields: "path_entry h msb d = entry_fields h msb d"
proof -
  let ?n = "length (pathTableIdent h d)" and ?r = "pathTableEntryLen (length (pathTableIdent h d))"
  have n: "?r = 1 + (1 + (4 + (2 + (?n + (?r - 8 - ?n)))))" by (simp add: pathTableEntryLen_def)
  have r: "replicate ?r 0 = zeros 1 @ zeros 1 @ zeros 4 @ zeros 2 @ zeros ?n @ zeros (?r - 8 - ?n)"
    unfolding zeros_def [symmetric] by (subst n) (simp only: zeros_add)
  show ?thesis
    unfolding path_entry_def Let_def r entry_fields_def parent_index_def
    by (simp add: update_splice splice_fields)
qed

lemma be32_putBE32 [simp]: "be32 (putBE32 v @ rest) = v"
proof -
  have "rev (take 4 (putBE32 v @ rest)) = putLE32 v @ []" by (simp add: putBE32_rev)
  then show ?thesis unfolding be32_def by (simp only: le32_putLE32 sum.sel)
qed

lemma table_entry_path_entry:
  assumes "length (pathTableIdent h d) < 256"
  shows "table_entry msb (path_entry h msb d @ rest)
      = (pathTableIdent h d, n_extentLBA (h ! d), of_nat (parent_index h d))"
    "unat ((path_entry h msb d @ rest) ! 0) = length (pathTableIdent h d)"
proof -
  have z: "unat ((path_entry h msb d @ rest) ! 0) = length (pathTableIdent h d)"
    using assms by (simp add: path_entry_fields entry_fields_def)
  then show "unat ((path_entry h msb d @ rest) ! 0) = length (pathTableIdent h d)" .
  have "take (length (pathTableIdent h d)) (drop 8 (path_entry h msb d @ rest)) = pathTableIdent h d"
    by (simp add: path_entry_fields entry_fields_def)
  then show "table_entry msb (path_entry h msb d @ rest)
      = (pathTableIdent h d, n_extentLBA (h ! d), of_nat (parent_index h d))"
    unfolding table_entry_def z
    by (simp add: path_entry_fields entry_fields_def)
qed

lemma read_table_entries:
  assumes "\<forall>d \<in> set dirs. length (pathTableIdent h d) < 256"
  shows "read_table msb (length dirs) (concat (map (path_entry h msb) dirs) @ rest)
    = map (\<lambda>d. (pathTableIdent h d, n_extentLBA (h ! d), of_nat (parent_index h d))) dirs"
  using assms
proof (induction dirs)
  case (Cons d dirs)
  have len: "length (pathTableIdent h d) < 256" using Cons.prems by simp
  note e = table_entry_path_entry [OF len, of msb "concat (map (path_entry h msb) dirs) @ rest"]
  show ?case using e Cons by (simp add: length_path_entry)
qed simp

lemma pathTable_bytes: "\<exists>rest. pathTable b dirs msb = concat (map (path_entry (b_heap b) msb) dirs) @ rest"
  by (simp add: pathTable_def pad_sector_def Let_def)

end
