(* ===== verification/DiskNames.thy ===== *)
theory DiskNames
  imports ReadBack
begin

text \<open>
  The names under which the entries of a tree are found on its image, as a function of the
  directory and the name, and what the reader shows of the tree under them.
\<close>

section \<open>Identifiers and names\<close>

text \<open>The name on the disk is the identifier without the version of a file.\<close>

lemma level1_clean:
  assumes "level1 d s"
  shows "s = cleanName s @ (if d then [] else str '';1'')"
proof -
  have plain: "semicolon \<notin> set b \<and> last b \<noteq> dot" if "b \<noteq> []" "list_all idchar b" for b :: gostring
    using that idchar_other by (auto simp: list_all_iff)
  have id: "cleanName s = cut_version s" using level1_disk_name(2) [OF assms] by (auto simp: cleanName_def)
  show ?thesis
  proof (cases d)
    case True
    then have "s \<noteq> []" "list_all idchar s" using assms by (simp_all add: level1_def level1_dir_def)
    then show ?thesis using plain cut_version_version(2) [of s] True id by simp
  next
    case False
    then obtain b e where s: "s = b @ level1_ext e" "b \<noteq> []" "list_all idchar b" "list_all dchar e"
      using assms by (auto simp: level1_def level1_file_def level1_dir_def)
    let ?c = "b @ (if e = [] then [] else dot # e)"
    have "semicolon \<notin> set ?c \<and> last ?c \<noteq> dot"
      using plain [OF s(2,3)] plain [OF _ dchar_idchar [OF s(4)]] by (auto simp: dot_def semicolon_def)
    moreover have v: "s = ?c @ semicolon # [0x31]"
      by (simp add: s(1) level1_ext_def str_def semicolon_def dot_def)
    ultimately have "cleanName s = ?c" using cut_version_version(1) [of ?c "[0x31]"] id by metis
    then show ?thesis using v False by (simp add: str_def semicolon_def)
  qed
qed


lemma level1_clean_dot:
  assumes "level1 d s"
  shows "dot_byte \<in> set (cleanName s) \<longleftrightarrow> dot_byte \<in> set s"
proof -
  have "set s = set (cleanName s) \<union> set (if d then [] else str '';1'')"
    by (subst level1_clean [OF assms]) simp
  then show ?thesis by (simp add: str_def dot_byte_def)
qed

lemma level1_dir_dot: "level1 True s \<Longrightarrow> dot_byte \<notin> set s"
  using idchar_not by (simp add: level1_def level1_dir_def)

section \<open>Trees whose names stay apart\<close>

text \<open>The entries of a directory: their names, and whether they are directories.\<close>

definition siblings :: "tree \<Rightarrow> gostring list \<Rightarrow> (gostring \<times> bool) set" where
  "siblings t p = {(k, e = Dir) | k e. t (p @ [k]) = Some e}"

text \<open>
  In every directory either the names are different once they are cut to eight and three
  characters, or no file without an extension is next to a directory.  Then no two
  identifiers of a directory differ by the version number only.
\<close>

definition clear_names :: "tree \<Rightarrow> bool" where
  "clear_names t \<longleftrightarrow>
     (\<forall>p. inj_on (\<lambda>x. cleanName (plain_id x)) (siblings t p)
        \<or> (\<forall>x \<in> siblings t p. \<forall>y \<in> siblings t p. snd x \<longrightarrow> \<not> snd y \<longrightarrow> dot_byte \<in> set (plain_id y)))"

lemma children_siblings:
  assumes wf: "wf_heap h" and p: "node_at h 0 p = Some d" and d: "d < length h"
  shows "id_key h ` set (children h d) = siblings (heap_tree h) p"
    "inj_on (id_key h) (set (children h d))"
proof -
  have key: "id_key h c = (n_name (h ! c), entry_of (h ! c) = Dir)" for c
    by (simp add: id_key_def entry_of_def)
  have "(k, e) \<in> siblings (heap_tree h) p \<longleftrightarrow> (k, e) \<in> id_key h ` set (children h d)" for k e
  proof
    assume "(k, e) \<in> siblings (heap_tree h) p"
    then obtain c where c: "map_of (n_children (h ! d)) k = Some c" "e = (entry_of (h ! c) = Dir)"
      using tree_at_child [OF p] by (auto simp: siblings_def)
    then have "c \<in> set (children h d)" "n_name (h ! c) = k"
      using child_facts [OF wf d c(1)] by (force simp: children_def, simp)
    then show "(k, e) \<in> id_key h ` set (children h d)" using c(2) key by (intro image_eqI [of _ _ c]) simp_all
  next
    assume "(k, e) \<in> id_key h ` set (children h d)"
    then obtain c where c: "c \<in> set (children h d)" "(k, e) = id_key h c" by blast
    then show "(k, e) \<in> siblings (heap_tree h) p"
      using child_at [OF wf p d c(1)] key [of c] by (auto simp: siblings_def)
  qed
  then show "id_key h ` set (children h d) = siblings (heap_tree h) p" by (auto simp: set_eq_iff)
  show "inj_on (id_key h) (set (children h d))"
    using children_facts(5) [OF wf d] by (intro inj_onI) (metis id_key_def option.inject prod.inject)
qed

text \<open>
  Two identifiers of a directory give different names when a file with a directory beside it
  has an extension: the cleaned file name keeps its dot.
\<close>

lemma disk_names_apart:
  assumes ok: "ids_ok h d"
    and mixed: "\<And>x y. x \<in> set (children h d) \<Longrightarrow> y \<in> set (children h d) \<Longrightarrow> n_isDir (h ! x)
      \<Longrightarrow> \<not> n_isDir (h ! y) \<Longrightarrow> dot_byte \<in> set (base_id h y)"
  shows "inj_on (disk_name h) (set (children h d))"
proof (rule inj_onI)
  fix x y assume xy: "x \<in> set (children h d)" "y \<in> set (children h d)" "disk_name h x = disk_name h y"
  have l1: "level1 (n_isDir (h ! c)) (n_id (h ! c))" if "c \<in> set (children h d)" for c
    using ok that by (simp add: ids_ok_def)
  have apart: "disk_name h x \<noteq> disk_name h y"
    if a: "x \<in> set (children h d)" "y \<in> set (children h d)" "n_isDir (h ! x)" "\<not> n_isDir (h ! y)" for x y
  proof -
    have "dot_byte \<in> set (n_id (h ! y))" using mixed [OF a] ok a(2) by (simp add: ids_ok_def)
    moreover have "dot_byte \<notin> set (n_id (h ! x))" using level1_dir_dot l1 [OF a(1)] a(3) by simp
    ultimately show ?thesis
      using level1_clean_dot [OF l1] a(1,2) by (metis disk_name_def)
  qed
  have "n_isDir (h ! x) = n_isDir (h ! y)" using apart xy by metis
  then have "n_id (h ! x) = n_id (h ! y)"
    using level1_clean [OF l1 [OF xy(1)]] level1_clean [OF l1 [OF xy(2)]] xy(3)
    by (simp add: disk_name_def)
  then show "x = y" using ok xy(1,2) by (auto simp: ids_ok_def distinct_map dest: inj_onD)
qed

lemma clear_names_distinct:
  assumes lo: "laid_out b b' dirs" and cn: "clear_names (heap_tree (b_heap b'))"
  shows "names_distinct (b_heap b')"
  unfolding names_distinct_def
proof (intro allI impI)
  let ?h = "b_heap b'"
  fix d assume r: "reachable ?h d"
  have wf: "wf_heap ?h" by (rule laid_out_facts(1) [OF lo])
  have dl: "d < length ?h" by (rule reachable_bound [OF wf r])
  obtain p where p: "node_at ?h 0 p = Some d" using reachable_at [OF r] by blast
  note S = children_siblings [OF wf p dl]
  have dc: "distinct (children ?h d)" by (rule distinct_children [OF wf dl])
  have ok: "ids_ok ?h d" by (rule laid_out_facts(10) [OF lo r])
  have "inj_on (disk_name ?h) (set (children ?h d))"
  proof (cases "inj_on (\<lambda>x. cleanName (plain_id x)) (siblings (heap_tree ?h) p)")
    case True
    then have inj: "inj_on (\<lambda>c. cleanName (base_id ?h c)) (set (children ?h d))"
      using comp_inj_on [OF S(2)] S(1) by (simp add: comp_def base_id_key)
    then have "inj_on (base_id ?h) (set (children ?h d))" by (auto simp: inj_on_def)
    then have "\<forall>c \<in> set (children ?h d). disk_name ?h c = cleanName (base_id ?h c)"
      using ok dc by (simp add: ids_ok_def distinct_map disk_name_def)
    then show ?thesis using inj by (simp add: inj_on_def)
  next
    case False
    show ?thesis
    proof (rule disk_names_apart [OF ok])
      fix x y assume "x \<in> set (children ?h d)" "y \<in> set (children ?h d)" "n_isDir (?h ! x)" "\<not> n_isDir (?h ! y)"
      then show "dot_byte \<in> set (base_id ?h y)"
        using cn [unfolded clear_names_def, rule_format, of p] False S(1) [symmetric]
        by (auto simp: base_id_key id_key_def)
    qed
  qed
  then show "distinct (map (disk_name ?h) (children ?h d))" using dc by (simp add: distinct_map)
qed

section \<open>The tree on the disk\<close>

text \<open>
  \<open>name p k\<close> is the name on the disk of entry \<open>k\<close> of directory \<open>p\<close>; \<open>renamed name [] p\<close> is the
  path on the disk of \<open>p\<close>.
\<close>

fun renamed :: "(gostring list \<Rightarrow> gostring \<Rightarrow> gostring) \<Rightarrow> gostring list \<Rightarrow> gostring list \<Rightarrow> gostring list" where
  "renamed name pre [] = []"
| "renamed name pre (k # p) = name pre k # renamed name (pre @ [k]) p"

definition name_at :: "heap \<Rightarrow> gostring list \<Rightarrow> gostring \<Rightarrow> gostring" where
  "name_at h p k = (case node_at h 0 (p @ [k]) of Some c \<Rightarrow> disk_name h c | None \<Rightarrow> k)"

lemma disk_path_renamed:
  "node_at h 0 pre = Some a \<Longrightarrow> node_at h a p = Some x \<Longrightarrow> disk_path h a p = renamed (name_at h) pre p"
proof (induction p arbitrary: a pre)
  case (Cons k p)
  then obtain c where c: "map_of (n_children (h ! a)) k = Some c" "node_at h c p = Some x"
    by (auto split: option.splits)
  have "node_at h 0 (pre @ [k]) = Some c" using Cons.prems(1) c(1) node_at_snoc by metis
  then show ?case using Cons.IH [OF _ c(2)] c(1) by (simp add: name_at_def)
qed simp

lemma renamed_cong:
  "(\<And>q k r. p = q @ k # r \<Longrightarrow> f (pre @ q) k = g (pre @ q) k) \<Longrightarrow> renamed f pre p = renamed g pre p"
proof (induction p arbitrary: pre)
  case (Cons k p)
  have "f (pre @ []) k = g (pre @ []) k" by (rule Cons.prems [of "[]" k p]) simp
  moreover have "renamed f (pre @ [k]) p = renamed g (pre @ [k]) p"
    by (rule Cons.IH) (use Cons.prems [of "k # q" for q] in simp)
  ultimately show ?case by simp
qed simp

lemma renamed_map: "renamed (\<lambda>_. f) pre p = map f p"
  by (induction p arbitrary: pre) simp_all

text \<open>
  The file system shows a tree under these names: under the path on the disk, in either case,
  a file reads back its bytes, and a directory lists its entries, each once and with its kind.
\<close>

definition shows_tree :: "go_env \<Rightarrow> FS \<Rightarrow> (gostring list \<Rightarrow> gostring \<Rightarrow> gostring) \<Rightarrow> tree \<Rightarrow> bool" where
  "shows_tree env fs name t \<longleftrightarrow>
     (\<forall>p path. map upper_ascii (splitPath path) = renamed name [] p \<longrightarrow>
        (\<forall>data. t p = Some (File data) \<longrightarrow> ReadFile env fs path = Inr data)
        \<and> (t p = Some Dir \<longrightarrow>
             (\<exists>es. ListDir env fs path = Inr es \<and> distinct (map de_name es)
                \<and> (\<lambda>e. (de_name e, de_type e)) ` set es
                  = {(name p k, if e = Dir then 2 else 0) | k e. t (p @ [k]) = Some e})))"

lemma listed_entries:
  assumes wf: "wf_heap h" and x: "node_at h 0 p = Some x" and xl: "x < length h"
  shows "(\<lambda>c. (de_name (listed h c), de_type (listed h c))) ` set (children h x)
    = {(name_at h p k, if e = Dir then 2 else 0) | k e. heap_tree h (p @ [k]) = Some e}"
proof -
  have at: "node_at h 0 (p @ [k]) = map_of (n_children (h ! x)) k" for k
    using x by (simp add: node_at_append split: option.splits)
  let ?f = "\<lambda>c. (disk_name h c, if entry_of (h ! c) = Dir then 2 else 0 :: byte)"
  have "(\<exists>e. z = (name_at h p k, if e = Dir then 2 else 0) \<and> heap_tree h (p @ [k]) = Some e)
      \<longleftrightarrow> (\<exists>c. z = ?f c \<and> map_of (n_children (h ! x)) k = Some c)" for z k
    by (cases "map_of (n_children (h ! x)) k") (simp_all add: heap_tree_def name_at_def at split del: if_split)
  then have "{(name_at h p k, if e = Dir then 2 else 0 :: byte) | k e. heap_tree h (p @ [k]) = Some e}
      = {?f c | k c. map_of (n_children (h ! x)) k = Some c}"
    by (intro Collect_cong ex_cong1)
  also have "\<dots> = ?f ` set (children h x)"
  proof -
    have "(\<exists>k. map_of (n_children (h ! x)) k = Some c) \<longleftrightarrow> c \<in> set (children h x)" for c
      using children_facts(5) [OF wf xl] by (force simp: children_def dest: map_of_SomeD)
    then show ?thesis unfolding image_def by blast
  qed
  also have "\<dots> = (\<lambda>c. (de_name (listed h c), de_type (listed h c))) ` set (children h x)"
    by (intro image_cong refl) (simp add: listed_def entry_of_def)
  finally show ?thesis ..
qed

lemma written_shows_tree:
  assumes m: "written_medium b b' dirs img" and dev: "reader_at rs (image_content img) (int (length img))"
    and lo: "laid_out b b' dirs" and nd: "names_distinct (b_heap b')"
  shows "shows_tree env (mounted b' dirs rs img closer) (name_at (b_heap b')) (heap_tree (b_heap b'))"
  unfolding shows_tree_def
proof (intro allI impI conjI)
  let ?h = "b_heap b'" and ?fs = "mounted b' dirs rs img closer"
  fix p path assume path: "map upper_ascii (splitPath path) = renamed (name_at ?h) [] p"
  have disk: "map upper_ascii (splitPath path) = disk_path ?h 0 p" if "node_at ?h 0 p = Some x" for x
    using disk_path_renamed [of ?h "[]" 0 p x] that path by simp
  show "ReadFile env ?fs path = Inr data" if t: "heap_tree ?h p = Some (File data)" for data
  proof -
    obtain x where x: "node_at ?h 0 p = Some x" "entry_of (?h ! x) = File data"
      using t by (auto simp: heap_tree_def)
    then show ?thesis
      using ReadFile_written [OF m dev nd refl x(1) _ disk [OF x(1)]] by (auto simp: entry_of_def split: if_splits)
  qed
  show "\<exists>es. ListDir env ?fs path = Inr es \<and> distinct (map de_name es)
      \<and> (\<lambda>e. (de_name e, de_type e)) ` set es
        = {(name_at ?h p k, if e = Dir then 2 else 0) | k e. heap_tree ?h (p @ [k]) = Some e}"
    if t: "heap_tree ?h p = Some Dir"
  proof -
    obtain x where x: "node_at ?h 0 p = Some x" "n_isDir (?h ! x)"
      using t by (auto simp: heap_tree_def entry_of_def split: if_splits)
    have r: "reachable ?h x" using x(1) by (auto simp: reachable_def desc_def)
    note wf = laid_out_facts(1) [OF lo]
    note xl = reachable_bound [OF wf r]
    have cs: "set (sortedChildren ?h x) = set (children ?h x)" "distinct (sortedChildren ?h x)"
      using sortedChildren_set [OF wf xl] sortedChildren_distinct [OF wf xl] by simp_all
    have names: "map de_name (map (listed ?h) cs) = map (disk_name ?h) cs" for cs by (simp add: listed_def)
    have "distinct (map (disk_name ?h) (sortedChildren ?h x))"
      using nd r cs by (simp add: names_distinct_def distinct_map)
    moreover have "(\<lambda>e. (de_name e, de_type e)) ` set (map (listed ?h) (sortedChildren ?h x))
        = {(name_at ?h p k, if e = Dir then 2 else 0) | k e. heap_tree ?h (p @ [k]) = Some e}"
      using listed_entries [OF wf x(1) xl] cs(1) by (simp add: image_image)
    ultimately show ?thesis
      using ListDir_written [OF m dev nd refl x disk [OF x(1)]] names by metis
  qed
qed

section \<open>Which names\<close>

text \<open>A node and its directory.\<close>

lemma node_in_directory:
  assumes lo: "laid_out b b' dirs" and c: "node_at (b_heap b') 0 (p @ [k]) = Some c"
  obtains d where "node_at (b_heap b') 0 p = Some d" "reachable (b_heap b') d" "d < length (b_heap b')"
    "n_isDir (b_heap b' ! d)" "c \<in> set (children (b_heap b') d)" "n_name (b_heap b' ! c) = k"
    "ids_ok (b_heap b') d"
proof -
  have wf: "wf_heap (b_heap b')" by (rule laid_out_facts(1) [OF lo])
  obtain d where d: "node_at (b_heap b') 0 p = Some d" "map_of (n_children (b_heap b' ! d)) k = Some c"
    using c node_at_snoc by metis
  have r: "reachable (b_heap b') d" using d(1) by (auto simp: reachable_def desc_def)
  note dl = reachable_bound [OF wf r]
  note cf = child_facts [OF wf dl d(2)]
  have "c \<in> set (children (b_heap b') d)" using cf(5) by (force simp: children_def)
  then show ?thesis using that d(1) r dl cf(3,6) laid_out_facts(10) [OF lo r] by blast
qed

text \<open>Where the identifiers of the names stay different, they are the identifiers.\<close>

lemma plain_node_id:
  assumes lo: "laid_out b b' dirs" and c: "node_at (b_heap b') 0 (p @ [k]) = Some c"
    and inj: "inj_on plain_id (siblings (heap_tree (b_heap b')) p)"
  shows "n_id (b_heap b' ! c) = isoIdentifier k (n_isDir (b_heap b' ! c))"
proof -
  let ?h = "b_heap b'"
  have wf: "wf_heap ?h" by (rule laid_out_facts(1) [OF lo])
  obtain d where d: "node_at ?h 0 p = Some d" "d < length ?h" "c \<in> set (children ?h d)"
      "n_name (?h ! c) = k" "ids_ok ?h d"
    by (rule node_in_directory [OF lo c])
  note S = children_siblings [OF wf d(1,2)]
  have "base_id ?h = plain_id \<circ> id_key ?h" by (rule ext) (simp add: base_id_key)
  then have "inj_on (base_id ?h) (set (children ?h d))"
    using comp_inj_on [OF S(2)] inj S(1) by simp
  then have "n_id (?h ! c) = base_id ?h c"
    using d(3,5) distinct_children [OF wf d(2)] by (simp add: ids_ok_def distinct_map)
  then show ?thesis using d(4) by (simp add: base_id_def)
qed

text \<open>
  Every entry is on the disk under a level 1 identifier without its version; the identifier
  is the one of its name in a directory where the names stay different.
\<close>

lemma name_at_level1:
  assumes lo: "laid_out b b' dirs" and t: "heap_tree (b_heap b') (p @ [k]) = Some e"
  shows "\<exists>i. level1 (e = Dir) i \<and> name_at (b_heap b') p k = cleanName i
    \<and> (inj_on (\<lambda>x. cleanName (plain_id x)) (siblings (heap_tree (b_heap b')) p) \<longrightarrow> i = isoIdentifier k (e = Dir))"
proof -
  let ?h = "b_heap b'" and ?S = "siblings (heap_tree (b_heap b')) p"
  obtain c where c: "node_at ?h 0 (p @ [k]) = Some c" "entry_of (?h ! c) = e"
    using t by (auto simp: heap_tree_def)
  have dir: "n_isDir (?h ! c) = (e = Dir)" using c(2) by (auto simp: entry_of_def split: if_splits)
  obtain d where "c \<in> set (children ?h d)" "ids_ok ?h d" by (rule node_in_directory [OF lo c(1)])
  then have "level1 (n_isDir (?h ! c)) (n_id (?h ! c))" by (simp add: ids_ok_def)
  then have "level1 (e = Dir) (n_id (?h ! c))" by (simp only: dir)
  moreover have "inj_on plain_id ?S" if "inj_on (\<lambda>x. cleanName (plain_id x)) ?S"
    using that by (auto simp: inj_on_def)
  then have "inj_on (\<lambda>x. cleanName (plain_id x)) ?S \<longrightarrow> n_id (?h ! c) = isoIdentifier k (e = Dir)"
    using plain_node_id [OF lo c(1)] dir by simp
  moreover have "name_at ?h p k = cleanName (n_id (?h ! c))" using c(1) by (simp add: name_at_def disk_name_def)
  ultimately show ?thesis by blast
qed

text \<open>Siblings keep different names.\<close>

lemma name_at_inj:
  assumes lo: "laid_out b b' dirs" and nd: "names_distinct (b_heap b')"
    and t: "heap_tree (b_heap b') (p @ [k]) \<noteq> None" "heap_tree (b_heap b') (p @ [k']) \<noteq> None"
    and eq: "name_at (b_heap b') p k = name_at (b_heap b') p k'"
  shows "k = k'"
proof -
  let ?h = "b_heap b'"
  obtain c c' where c: "node_at ?h 0 (p @ [k]) = Some c" "node_at ?h 0 (p @ [k']) = Some c'"
    using t by (auto simp: heap_tree_def)
  obtain d where d: "node_at ?h 0 p = Some d" "reachable ?h d" "c \<in> set (children ?h d)" "n_name (?h ! c) = k"
    by (rule node_in_directory [OF lo c(1)])
  obtain d' where d': "node_at ?h 0 p = Some d'" "c' \<in> set (children ?h d')" "n_name (?h ! c') = k'"
    by (rule node_in_directory [OF lo c(2)])
  have "inj_on (disk_name ?h) (set (children ?h d))"
    using nd d(2) by (simp add: names_distinct_def distinct_map)
  moreover have "d' = d" using d(1) d'(1) by simp
  ultimately have "c = c'" using eq c d(3) d'(2) by (simp add: name_at_def inj_on_eq_iff)
  then show ?thesis using d(4) d'(3) by simp
qed

section \<open>Portable names\<close>

text \<open>
  A tree whose names are their own identifiers up to the case of their letters (eight and three
  characters, no two siblings that differ in case only): the image has the same paths, in upper
  case.
\<close>

definition portable_tree :: "tree \<Rightarrow> bool" where
  "portable_tree t \<longleftrightarrow>
     (\<forall>p k e. t (p @ [k]) = Some e \<longrightarrow> cleanName (isoIdentifier k (e = Dir)) = upper_ascii k)
     \<and> (\<forall>p k k'. t (p @ [k]) \<noteq> None \<longrightarrow> t (p @ [k']) \<noteq> None \<longrightarrow> upper_ascii k = upper_ascii k' \<longrightarrow> k = k')"

lemma portable_inj:
  assumes "portable_tree t"
  shows "inj_on (\<lambda>x. cleanName (plain_id x)) (siblings t p)"
proof (rule inj_onI)
  fix x y assume xy: "x \<in> siblings t p" "y \<in> siblings t p" "cleanName (plain_id x) = cleanName (plain_id y)"
  then obtain e e' where e: "t (p @ [fst x]) = Some e" "snd x = (e = Dir)" "t (p @ [fst y]) = Some e'"
      "snd y = (e' = Dir)" by (auto simp: siblings_def)
  have up: "cleanName (plain_id z) = upper_ascii (fst z)" if "t (p @ [fst z]) = Some f" "snd z = (f = Dir)" for z f
    using assms that unfolding portable_tree_def plain_id_def by simp
  have "upper_ascii (fst x) = upper_ascii (fst y)" using up [OF e(1,2)] up [OF e(3,4)] xy(3) by simp
  then have "fst x = fst y" using assms e(1,3) unfolding portable_tree_def by blast
  then show "x = y" using e by (simp add: prod_eq_iff)
qed

lemma portable_clear: "portable_tree t \<Longrightarrow> clear_names t"
  using portable_inj by (simp add: clear_names_def)

lemma portable_names:
  assumes lo: "laid_out b b' dirs" and pt: "portable_tree (heap_tree (b_heap b'))"
    and t: "heap_tree (b_heap b') (p @ [k]) = Some e"
  shows "name_at (b_heap b') p k = upper_ascii k"
proof -
  have "name_at (b_heap b') p k = cleanName (isoIdentifier k (e = Dir))"
    using name_at_level1 [OF lo t] portable_inj [OF pt] by blast
  then show ?thesis using pt t unfolding portable_tree_def by simp
qed

text \<open>The names that matter are those of the entries of the tree.\<close>

lemma shows_tree_names:
  assumes names: "\<And>p k e. heap_tree h (p @ [k]) = Some e \<Longrightarrow> name p k = name_at h p k"
    and tree: "shows_tree env fs (name_at h) (heap_tree h)"
  shows "shows_tree env fs name (heap_tree h)"
proof -
  have path: "renamed name [] p = renamed (name_at h) [] p" if t: "heap_tree h p = Some e" for p e
  proof (rule renamed_cong)
    fix q k r assume "p = q @ k # r"
    then have "heap_tree h (q @ [k]) \<noteq> None"
      using t by (auto simp: heap_tree_def node_at_append split: option.splits)
    then show "name ([] @ q) k = name_at h ([] @ q) k" using names by auto
  qed
  have set: "{(name p k, if e = Dir then 2 else 0 :: byte) | k e. heap_tree h (p @ [k]) = Some e}
      = {(name_at h p k, if e = Dir then 2 else 0) | k e. heap_tree h (p @ [k]) = Some e}" for p
  proof (intro Collect_cong ex_cong1)
    fix z k e
    show "z = (name p k, if e = Dir then 2 else 0) \<and> heap_tree h (p @ [k]) = Some e
        \<longleftrightarrow> z = (name_at h p k, if e = Dir then 2 else 0) \<and> heap_tree h (p @ [k]) = Some e"
    proof (cases "heap_tree h (p @ [k]) = Some e")
      case True
      then show ?thesis by (simp only: names [OF True])
    qed simp
  qed
  show ?thesis
    unfolding shows_tree_def
  proof (intro allI impI)
    fix p path assume p: "map upper_ascii (splitPath path) = renamed name [] p"
    show "(\<forall>data. heap_tree h p = Some (File data) \<longrightarrow> ReadFile env fs path = Inr data)
      \<and> (heap_tree h p = Some Dir \<longrightarrow> (\<exists>es. ListDir env fs path = Inr es \<and> distinct (map de_name es)
           \<and> (\<lambda>e. (de_name e, de_type e)) ` set es
             = {(name p k, if e = Dir then 2 else 0) | k e. heap_tree h (p @ [k]) = Some e}))"
    proof (cases "heap_tree h p")
      case (Some e)
      then have "map upper_ascii (splitPath path) = renamed (name_at h) [] p" using p path by simp
      then show ?thesis using tree unfolding shows_tree_def set by blast
    qed simp
  qed
qed

text \<open>What a listing says of an entry: its name in upper case, and whether it is a directory.\<close>

definition listed_as :: "gostring \<Rightarrow> entry \<Rightarrow> gostring \<times> byte" where
  "listed_as k e = (upper_ascii k, if e = Dir then 2 else 0)"

end
