(* ===== verification/Mastering.thy ===== *)
theory Mastering
  imports PathTable DiskNames
begin

text \<open>
  What writing an image guarantees, from the builder to the reader: the layout, the sequence
  of writes, the contents of the medium, and the tree the reader finds on it.
\<close>

section \<open>From the builder to the image\<close>

lemma layout_laid_out:
  assumes "wf_builder b" "modest (b_heap b)" "layout b = Inr (b', dirs)"
  shows "laid_out b b' dirs" "fits (b_heap b') dirs" "small_dirs (b_heap b') dirs" "b_root b = 0"
proof -
  show lo: "laid_out b b' dirs"
    using layout_ok [OF assms(1) modest_few [OF assms(2)]] assms(3) by auto
  show "fits (b_heap b') dirs" "small_dirs (b_heap b') dirs"
    using modest_fits [OF lo assms(2)] by simp_all
  show "b_root b = 0" using assms(1) by (simp add: wf_builder_def)
qed

lemma layout_exists:
  assumes "wf_builder b" "modest (b_heap b)"
  obtains b' dirs where "layout b = Inr (b', dirs)"
  using layout_ok [OF assms(1) modest_few [OF assms(2)]] by blast

lemma laid_out_tree: "laid_out b b' dirs \<Longrightarrow> wf_builder b \<Longrightarrow> tree b' = tree b \<and> wf_builder b'"
  using same_tree_heap_tree [OF laid_out_facts(2)] laid_out_facts(1,4)
  by (fastforce simp: tree_def wf_builder_def)

lemma WriteTo_trace:
  assumes "wf_builder b" "modest (b_heap b)" "layout b = Inr (b', dirs)"
  shows "WriteTo wa b w = (b', write_each (write_piece wa) (chunks b' dirs) w)"
  using write_image_trace [OF layout_laid_out(1,2,4) [OF assms]] assms(3) by (simp add: WriteTo_def)

lemma write_each_error:
  "write_each f xs w = Inl e \<Longrightarrow>
   \<exists>pre x post w1. xs = pre @ x # post \<and> write_each f pre w = Inr w1 \<and> f x w1 = Inl e"
proof (induction xs arbitrary: w)
  case (Cons x xs)
  show ?case
  proof (cases "f x w")
    case (Inl e')
    then show ?thesis using Cons.prems by (intro exI [of _ "[]"] exI [of _ x] exI [of _ xs] exI [of _ w]) simp
  next
    case (Inr w')
    then obtain pre y post w1 where "xs = pre @ y # post" "write_each f pre w' = Inr w1" "f y w1 = Inl e"
      using Cons.IH [of w'] Cons.prems by auto
    then show ?thesis using Inr by (intro exI [of _ "x # pre"] exI [of _ y] exI [of _ post] exI [of _ w1]) simp
  qed
qed simp

lemma write_piece_error:
  "write_piece wa c w = Inl e \<Longrightarrow>
   \<exists>err. snd (snd (wa w (pad_sector (snd c)) (fst c))) = Some err
     \<and> e = Wrap ''iso9660: write @offset %d: %w'' [err]"
  by (auto simp: write_piece_def writeAt_def split: prod.splits option.splits)

lemma image_small:
  assumes "laid_out b b' dirs" "fits (b_heap b') dirs"
  shows "length (iso_image b' dirs) < 2 ^ 43"
  using chunks_layout(2) [OF assms] assms(2) by (simp add: fits_def sectorSize_def)

lemma image_parts:
  "iso_image b' dirs
   = zeros (16 * sectorSize) @ pvd_fields b' dirs (of_nat (image_sectors (b_heap b') dirs))
     @ volumeDescriptorTerminator @ pathTable b' dirs False @ pathTable b' dirs True
     @ concat (map (\<lambda>x. pad_sector (item_data b' x)) (items_of (b_heap b') dirs))"
proof -
  have sys: "pieces (map (\<lambda>s. (int s * int sectorSize, zeros sectorSize)) xs) = zeros (length xs * sectorSize)" for xs
    by (induction xs) (simp_all add: pieces_def pad_sector_whole zeros_add, simp add: zeros_def)
  have whole: "pad_sector (pvd_fields b' dirs t) = pvd_fields b' dirs t"
    "pad_sector volumeDescriptorTerminator = volumeDescriptorTerminator" for t
    by (simp_all add: pad_sector_whole length_pvd_fields length_terminator sectorSize_def)
  have table: "pad_sector (pathTable b' dirs msb) = pathTable b' dirs msb" for msb
    by (simp add: pathTable_def)
  have items: "pieces (item_chunks b' xs) = concat (map (\<lambda>x. pad_sector (item_data b' x)) xs)" for xs
    by (induction xs) (simp_all add: pieces_def item_chunks_def)
  have header: "pieces [(o1, d1), (o2, d2), (o3, d3), (o4, d4)]
      = pad_sector d1 @ pad_sector d2 @ pad_sector d3 @ pad_sector d4" for o1 o2 o3 o4 d1 d2 d3 d4
    by (simp add: pieces_def)
  show ?thesis
    unfolding iso_image_def chunks_def header_chunks_def pieces_append pieces_nonempty sys items header
      whole table items_of_def map_append concat_append
    by (simp add: systemAreaSectors_def)
qed

section \<open>A small disc\<close>

definition sample_disc :: Builder where
  "sample_disc = fst (AddFile (NewBuilder (str ''V'') sample_time) (str ''D/F.TXT'') [1, 2, 3])"

lemma sample_disc_heap:
  "b_heap sample_disc =
     [(new_dir [slash])\<lparr>n_children := [(str ''D'', 1)]\<rparr>,
      (new_dir (str ''D''))\<lparr>n_children := [(str ''F.TXT'', 2)]\<rparr>, new_file (str ''F.TXT'') [1, 2, 3]]"
  "b_root sample_disc = 0"
  by code_simp+

lemma sample_disc_steps:
  "b_heap sample_disc =
     put_child (put_child [new_dir [slash]] 0 (str ''D'') (new_dir (str ''D''))) 1 (str ''F.TXT'')
       (new_file (str ''F.TXT'') [1, 2, 3])"
  by code_simp

lemma sample_disc_wf: "wf_builder sample_disc"
proof -
  have root: "wf_heap [new_dir [slash]]"
    using NewBuilder_wf [of "[]" sample_time] by (simp add: wf_builder_def NewBuilder_def)
  have comp: "component (str ''D'')" "component (str ''F.TXT'')"
    by (simp_all add: component_def str_def slash_def dot_def)
  have "can_put [new_dir [slash]] 0 (str ''D'') (new_dir (str ''D''))"
    using comp by (simp add: can_put_def new_dir_def)
  then have one: "wf_heap (put_child [new_dir [slash]] 0 (str ''D'') (new_dir (str ''D'')))"
    by (rule put_child_wf [OF root])
  have "can_put (put_child [new_dir [slash]] 0 (str ''D'') (new_dir (str ''D''))) 1 (str ''F.TXT'')
      (new_file (str ''F.TXT'') [1, 2, 3])"
    using comp by (simp add: can_put_def put_child_def new_dir_def new_file_def)
  from put_child_wf [OF one this] show ?thesis
    by (simp add: wf_builder_def sample_disc_steps sample_disc_heap(2))
qed

lemma sample_disc_modest: "modest (b_heap sample_disc)"
  by (simp add: modest_def weight_def sample_disc_heap new_dir_def new_file_def)

lemma sample_disc_tree:
  "tree sample_disc = [[] \<mapsto> Dir, [str ''D''] \<mapsto> Dir, [str ''D'', str ''F.TXT''] \<mapsto> File [1, 2, 3]]"
proof
  fix p
  show "tree sample_disc p
      = [[] \<mapsto> Dir, [str ''D''] \<mapsto> Dir, [str ''D'', str ''F.TXT''] \<mapsto> File [1, 2, 3]] p"
    by (cases p; cases "tl p"; cases "tl (tl p)")
      (auto simp: tree_def heap_tree_def sample_disc_heap entry_of_def new_dir_def new_file_def
        split: if_splits option.splits)
qed

lemma sample_disc_portable: "portable_tree (tree sample_disc)"
proof -
  have n: "cleanName (isoIdentifier (str ''D'') True) = upper_ascii (str ''D'')"
    "cleanName (isoIdentifier (str ''F.TXT'') False) = upper_ascii (str ''F.TXT'')"
    using sanitize_id [of "str ''D''"] sanitize_id [of "str ''F''"] sanitize_id [of "str ''TXT''"]
    by (simp_all add: isoIdentifier_def str_def dchar_def clampField_take dot_byte_def upper_ascii_def
        upper_byte_def cleanName_def cut_version_eq trim_suffix_def semicolon_def dot_def Let_def)
  show ?thesis
    unfolding portable_tree_def sample_disc_tree using n by (auto split: if_splits)
qed

section \<open>The reader on what WriteTo left\<close>

lemma WriteTo_medium:
  assumes "writer_at wa contents" "wf_builder b" "modest (b_heap b)" "int (length (contents w)) \<le> maxInt"
  obtains b' dirs w' where "WriteTo wa b w = (b', Inr w')" "laid_out b b' dirs"
    "written_medium b b' dirs (contents w')" "heap_tree (b_heap b') = tree b"
proof -
  obtain b' dirs where run: "layout b = Inr (b', dirs)" by (rule layout_exists [OF assms(2,3)])
  note L = layout_laid_out [OF assms(2,3) run]
  obtain w' where w': "write_image wa b' dirs w = Inr w'"
      "contents w' = iso_image b' dirs @ drop (length (iso_image b' dirs)) (contents w)"
    using writer_at.write_image_contents [OF assms(1) L(1,2,4)] by blast
  have "length (contents w') \<le> max (length (iso_image b' dirs)) (length (contents w))" using w'(2) by simp
  then have "int (length (contents w')) \<le> maxInt"
    using image_small [OF L(1,2)] assms(4) by (auto simp: maxInt_def max_def split: if_splits)
  then have "written_medium b b' dirs (contents w')" using L w'(2) by (simp add: written_medium_def)
  moreover have "WriteTo wa b w = (b', Inr w')" using w'(1) run by (simp add: WriteTo_def)
  ultimately show ?thesis using that L(1) laid_out_tree [OF L(1) assms(2)] by (simp add: tree_def)
qed

lemma mounted_shows_tree:
  assumes "written_medium b b' dirs img" "laid_out b b' dirs" "names_distinct (b_heap b')"
    and "reader_at rs (image_content img) (int (length img))"
  shows "\<exists>fs. Open env rs (int (length img)) closer = Inr fs
    \<and> shows_tree env fs (name_at (b_heap b')) (heap_tree (b_heap b'))"
  using Open_written [OF assms(1,4)] written_shows_tree [OF assms(1,4,2,3)] by blast

section \<open>Properties\<close>

text \<open>
  C12: \<^verbatim>\<open>layout\<close> returns for every tree: the recursion over the tree and the breadth-first
  loop end.  The tree of the builder is unchanged and can be laid out again; the root has no
  identifier and no parent; the entries of a directory have level 1 identifiers, pairwise
  different, and point back to it, and where the names do not collide the identifier is the
  one of the name.
\<close>

theorem layout_total:
  assumes "wf_builder b" "few_children (b_heap b)"
  shows "\<exists>b' dirs. layout b = Inr (b', dirs) \<and> wf_builder b' \<and> tree b' = tree b
    \<and> n_id (b_heap b' ! 0) = [] \<and> n_parent (b_heap b' ! 0) = None
    \<and> (\<forall>d. reachable (b_heap b') d \<longrightarrow>
         distinct (map (\<lambda>c. n_id (b_heap b' ! c)) (children (b_heap b') d))
         \<and> (\<forall>c \<in> set (children (b_heap b') d).
               level1 (n_isDir (b_heap b' ! c)) (n_id (b_heap b' ! c)) \<and> n_parent (b_heap b' ! c) = Some d)
         \<and> (distinct (map (base_id (b_heap b')) (children (b_heap b') d)) \<longrightarrow>
              (\<forall>c \<in> set (children (b_heap b') d). n_id (b_heap b' ! c) = base_id (b_heap b') c)))"
proof -
  obtain b' dirs where run: "layout b = Inr (b', dirs)" and lo: "laid_out b b' dirs"
    using layout_ok [OF assms] by blast
  have "\<forall>d. reachable (b_heap b') d \<longrightarrow> ids_ok (b_heap b') d" using laid_out_facts(10) [OF lo] by blast
  then show ?thesis
    using run laid_out_tree [OF lo assms(1)] laid_out_facts(8,9) [OF lo] unfolding ids_ok_def by blast
qed

theorem layout_total_witness:
  "\<exists>b' dirs. layout sample_disc = Inr (b', dirs) \<and> tree b' [str ''D'', str ''F.TXT''] = Some (File [1, 2, 3])"
  using layout_total [OF sample_disc_wf modest_few [OF sample_disc_modest]] by (auto simp: sample_disc_tree)

text \<open>
  C6: the extents the layout assigns do not overlap: different nodes have different blocks,
  all of them after the descriptors and the path tables, and the last one ends where the
  volume space size of the primary descriptor says.
\<close>

theorem extents_disjoint:
  assumes "wf_builder b" "modest (b_heap b)" "layout b = Inr (b', dirs)"
  shows "(\<forall>x y. reachable (b_heap b') x \<longrightarrow> reachable (b_heap b') y \<longrightarrow> x \<noteq> y \<longrightarrow>
        extent_last (b_heap b' ! x) \<le> extent_first (b_heap b' ! y)
        \<or> extent_last (b_heap b' ! y) \<le> extent_first (b_heap b' ! x))
    \<and> (\<forall>x. reachable (b_heap b') x \<longrightarrow>
        first_extent (b_heap b') dirs \<le> extent_first (b_heap b' ! x)
        \<and> extent_last (b_heap b' ! x) \<le> image_sectors (b_heap b') dirs
        \<and> unat (n_extentLen (b_heap b' ! x)) = item_bytes (b_heap b') x)
    \<and> totalSectors b' dirs = Inr (of_nat (image_sectors (b_heap b') dirs))"
proof -
  note L = layout_laid_out [OF assms]
  let ?h = "b_heap b'" and ?items = "items_of (b_heap b') dirs"
  have at: "\<exists>i < length ?items. x = ?items ! i" if "reachable ?h x" for x
    using that laid_out_facts(11) [OF L(1)] by (metis in_set_conv_nth mem_Collect_eq)
  have "extent_last (?h ! x) \<le> extent_first (?h ! y) \<or> extent_last (?h ! y) \<le> extent_first (?h ! x)"
    if r: "reachable ?h x" "reachable ?h y" "x \<noteq> y" for x y
  proof -
    obtain i j where ij: "i < length ?items" "x = ?items ! i" "j < length ?items" "y = ?items ! j"
      using at r by blast
    consider "i < j" | "j < i" using ij r(3) by fastforce
    then show ?thesis using extent_order [OF L(1,2)] ij by cases auto
  qed
  moreover have "first_extent ?h dirs \<le> extent_first (?h ! x) \<and> extent_last (?h ! x) \<le> image_sectors ?h dirs
      \<and> unat (n_extentLen (?h ! x)) = item_bytes ?h x" if r: "reachable ?h x" for x
  proof -
    obtain i where i: "i < length ?items" "x = ?items ! i" using at r by blast
    show ?thesis
      using extent_positions [OF L(1,2) i(1)] laid_out_numbers(1) [OF L(1,2) i(1)] i(2)
        bytes_sectors_take_le [of ?h "Suc i" ?items] by (simp add: image_sectors_def)
  qed
  ultimately show ?thesis using totalSectors_image [OF L(1,2,4)] by blast
qed

theorem extents_disjoint_witness:
  "\<exists>b' dirs. layout sample_disc = Inr (b', dirs)
     \<and> totalSectors b' dirs = Inr (of_nat (image_sectors (b_heap b') dirs))"
proof -
  obtain b' dirs where run: "layout sample_disc = Inr (b', dirs)"
    by (rule layout_exists [OF sample_disc_wf sample_disc_modest])
  from extents_disjoint [OF sample_disc_wf sample_disc_modest run] run show ?thesis by blast
qed

text \<open>
  C27: the directories are in path-table order (ECMA-119 6.9.1): every directory once, the
  root first, a directory after its parent, and the others in increasing order of their
  parent's index, ties broken by identifier.
\<close>

theorem path_table_order:
  assumes "wf_builder b" "few_children (b_heap b)" "layout b = Inr (b', dirs)"
  shows "distinct dirs \<and> set dirs = {d. reachable (b_heap b') d \<and> n_isDir (b_heap b' ! d)}
    \<and> dirs \<noteq> [] \<and> hd dirs = 0 \<and> parent_index (b_heap b') 0 = 1
    \<and> (\<forall>i < length dirs. n_dirIndex (b_heap b' ! (dirs ! i)) = i + 1)
    \<and> (\<forall>i < length dirs. 0 < i \<longrightarrow> parent_index (b_heap b') (dirs ! i) < n_dirIndex (b_heap b' ! (dirs ! i)))
    \<and> sorted_wrt (table_less (b_heap b')) (tl dirs)"
proof -
  have lo: "laid_out b b' dirs" using layout_ok [OF assms(1,2)] assms(3) by auto
  note f = laid_out_facts [OF lo] and P = path_table_sorted [OF lo]
  have "distinct dirs" "set dirs = {d. reachable (b_heap b') d \<and> n_isDir (b_heap b' ! d)}"
    using orderedDirs_ok [OF f(1)] f(3) by auto
  moreover have "\<forall>i < length dirs. n_dirIndex (b_heap b' ! (dirs ! i)) = i + 1"
    using lo by (simp add: laid_out_def Let_def)
  ultimately show ?thesis using P by fastforce
qed

theorem path_table_order_witness:
  "\<exists>b' dirs. layout sample_disc = Inr (b', dirs) \<and> hd dirs = 0 \<and> sorted_wrt (table_less (b_heap b')) (tl dirs)"
proof -
  obtain b' dirs where run: "layout sample_disc = Inr (b', dirs)"
    by (rule layout_exists [OF sample_disc_wf sample_disc_modest])
  from path_table_order [OF sample_disc_wf modest_few [OF sample_disc_modest] run] run show ?thesis by blast
qed

text \<open>
  C28: both path tables read back, by the rules of the format: entry by entry the
  identifier, the extent and the index of the parent, little-endian in the Type-L table and
  big-endian in the Type-M table.  The index is a 16-bit field: it is the parent's as long as
  there are fewer than 65536 directories.
\<close>

theorem path_tables_roundtrip:
  assumes "wf_builder b" "few_children (b_heap b)" "layout b = Inr (b', dirs)"
  shows "read_table msb (length dirs) (pathTable b' dirs msb)
    = map (\<lambda>d. (pathTableIdent (b_heap b') d, n_extentLBA (b_heap b' ! d), of_nat (parent_index (b_heap b') d))) dirs
    \<and> (\<forall>d \<in> set dirs. length dirs < 65536 \<longrightarrow>
         unat (of_nat (parent_index (b_heap b') d) :: u16) = parent_index (b_heap b') d)"
proof -
  have lo: "laid_out b b' dirs" using layout_ok [OF assms(1,2)] assms(3) by auto
  note P = path_table_sorted [OF lo]
  have "length (pathTableIdent (b_heap b') d) < 256" if "d \<in> set dirs" for d
    using id_length [OF lo dirs_reachable [OF lo that]] by (simp add: pathTableIdent_def)
  then have short: "\<forall>d \<in> set dirs. length (pathTableIdent (b_heap b') d) < 256" by blast
  obtain rest where "pathTable b' dirs msb = concat (map (path_entry (b_heap b') msb) dirs) @ rest"
    using pathTable_bytes by blast
  from read_table_entries [OF short, of msb rest, folded this]
  have "read_table msb (length dirs) (pathTable b' dirs msb)
    = map (\<lambda>d. (pathTableIdent (b_heap b') d, n_extentLBA (b_heap b' ! d), of_nat (parent_index (b_heap b') d))) dirs" .
  moreover have "unat (of_nat (parent_index (b_heap b') d) :: u16) = parent_index (b_heap b') d"
    if "d \<in> set dirs" "length dirs < 65536" for d
  proof -
    obtain i where i: "i < length dirs" "d = dirs ! i" using \<open>d \<in> set dirs\<close> by (metis in_set_conv_nth)
    have "parent_index (b_heap b') d < 65536"
    proof (cases "i = 0")
      case True
      then have "d = 0" using P(3,4) i(2) by (simp add: hd_conv_nth)
      then show ?thesis using P(5) by simp
    next
      case False
      then have "parent_index (b_heap b') d \<le> i" using P(2) i by blast
      then show ?thesis using i(1) \<open>length dirs < 65536\<close> by simp
    qed
    then show ?thesis by (simp add: unat_of_nat)
  qed
  ultimately show ?thesis by blast
qed

theorem path_tables_roundtrip_witness:
  "\<exists>b' dirs. layout sample_disc = Inr (b', dirs)
     \<and> length (read_table True (length dirs) (pathTable b' dirs True)) = length dirs"
proof -
  obtain b' dirs where run: "layout sample_disc = Inr (b', dirs)"
    by (rule layout_exists [OF sample_disc_wf sample_disc_modest])
  from path_tables_roundtrip [OF sample_disc_wf modest_few [OF sample_disc_modest] run, of True] run
  show ?thesis by auto
qed

text \<open>
  C20: whatever the writer does, \<^verbatim>\<open>WriteTo\<close> performs one fixed sequence of writes, each
  starting where the one before ended, and stops at the first that fails: its error is that
  error, wrapped, and everything before it has been written.  The layout stays in the
  builder in any case.
\<close>

theorem WriteTo_writes:
  assumes "wf_builder b" "modest (b_heap b)"
  shows "\<exists>b' dirs. layout b = Inr (b', dirs) \<and> contiguous 0 (chunks b' dirs)
    \<and> (\<forall>wa w. fst (WriteTo wa b w) = b'
         \<and> (case snd (WriteTo wa b w) of
              Inr w' \<Rightarrow> write_each (write_piece wa) (chunks b' dirs) w = Inr w'
            | Inl e \<Rightarrow> (\<exists>pre c post w1 err. chunks b' dirs = pre @ c # post
                 \<and> write_each (write_piece wa) pre w = Inr w1
                 \<and> snd (snd (wa w1 (pad_sector (snd c)) (fst c))) = Some err
                 \<and> e = Wrap ''iso9660: write @offset %d: %w'' [err])))"
proof -
  obtain b' dirs where run: "layout b = Inr (b', dirs)" by (rule layout_exists [OF assms])
  note L = layout_laid_out [OF assms run] and T = WriteTo_trace [OF assms run]
  have "case snd (WriteTo wa b w) of
      Inr w' \<Rightarrow> write_each (write_piece wa) (chunks b' dirs) w = Inr w'
    | Inl e \<Rightarrow> (\<exists>pre c post w1 err. chunks b' dirs = pre @ c # post
         \<and> write_each (write_piece wa) pre w = Inr w1
         \<and> snd (snd (wa w1 (pad_sector (snd c)) (fst c))) = Some err
         \<and> e = Wrap ''iso9660: write @offset %d: %w'' [err])" for wa :: "'a writer_fun" and w
  proof (cases "write_each (write_piece wa) (chunks b' dirs) w")
    case (Inl e)
    from write_each_error [OF Inl] obtain pre c post w1 where
      "chunks b' dirs = pre @ c # post" "write_each (write_piece wa) pre w = Inr w1" "write_piece wa c w1 = Inl e"
      by blast
    moreover obtain err where "snd (snd (wa w1 (pad_sector (snd c)) (fst c))) = Some err"
        "e = Wrap ''iso9660: write @offset %d: %w'' [err]"
      using write_piece_error [OF calculation(3)] by blast
    ultimately show ?thesis unfolding T snd_conv Inl sum.case by blast
  qed (simp add: T)
  then show ?thesis using run chunks_layout(1) [OF L(1,2)] by (intro exI conjI allI) (simp_all add: T)
qed

theorem WriteTo_writes_witness:
  "\<exists>e. snd (WriteTo (\<lambda>w data off. (w, 0, Some (Device 7))) sample_disc ()) = Inl e"
proof -
  let ?bad = "\<lambda>(w :: unit) (data :: byte list) (off :: int). (w, 0 :: nat, Some (Device 7))"
  show ?thesis
    using WriteTo_writes [OF sample_disc_wf sample_disc_modest]
  proof (elim exE conjE)
    fix b' dirs
    assume P: "\<forall>wa (w :: unit). fst (WriteTo wa sample_disc w) = b'
         \<and> (case snd (WriteTo wa sample_disc w) of
              Inr w' \<Rightarrow> write_each (write_piece wa) (chunks b' dirs) w = Inr w'
            | Inl e \<Rightarrow> (\<exists>pre c post w1 err. chunks b' dirs = pre @ c # post
                 \<and> write_each (write_piece wa) pre w = Inr w1
                 \<and> snd (snd (wa w1 (pad_sector (snd c)) (fst c))) = Some err
                 \<and> e = Wrap ''iso9660: write @offset %d: %w'' [err]))"
    have ch: "chunks b' dirs = (0, zeros sectorSize) # tl (chunks b' dirs)"
      by (simp add: chunks_def header_chunks_def systemAreaSectors_def upt_rec)
    have "write_each (write_piece ?bad) (chunks b' dirs) () \<noteq> Inr w'" for w'
      by (subst ch) (simp add: write_piece_def writeAt_def)
    then show ?thesis using P [rule_format, of ?bad "()"]
      by (cases "snd (WriteTo ?bad sample_disc ())") auto
  qed
qed

text \<open>
  C8: on a medium that keeps the contract of \<^verbatim>\<open>io.WriterAt\<close> the write succeeds and the medium
  starts with the image: the system area, the descriptors, both path tables, the directories
  and the files, every piece padded to a sector, and nothing else; its length is the number
  of sectors recorded in the primary descriptor, and what the medium held past it stays.
\<close>

theorem WriteTo_image:
  assumes "writer_at wa contents" "wf_builder b" "modest (b_heap b)"
  shows "\<exists>b' dirs w' tot. layout b = Inr (b', dirs) \<and> WriteTo wa b w = (b', Inr w')
    \<and> contents w' = iso_image b' dirs @ drop (length (iso_image b' dirs)) (contents w)
    \<and> totalSectors b' dirs = Inr tot \<and> length (iso_image b' dirs) = unat tot * sectorSize
    \<and> iso_image b' dirs
        = zeros (16 * sectorSize) @ pvd_fields b' dirs tot @ volumeDescriptorTerminator
          @ pathTable b' dirs False @ pathTable b' dirs True
          @ concat (map (\<lambda>x. pad_sector (item_data b' x)) (items_of (b_heap b') dirs))"
proof -
  obtain b' dirs where run: "layout b = Inr (b', dirs)" by (rule layout_exists [OF assms(2,3)])
  note L = layout_laid_out [OF assms(2,3) run]
  let ?n = "image_sectors (b_heap b') dirs"
  obtain w' where w': "write_image wa b' dirs w = Inr w'"
      "contents w' = iso_image b' dirs @ drop (length (iso_image b' dirs)) (contents w)"
    using writer_at.write_image_contents [OF assms(1) L(1,2,4)] by blast
  have "?n < 2 ^ 32" using L(2) by (simp add: fits_def)
  then have n: "unat (of_nat ?n :: u32) = ?n" by (rule unat_u32_of_nat)
  have "iso_image b' dirs = zeros (16 * sectorSize) @ pvd_fields b' dirs (of_nat ?n) @ volumeDescriptorTerminator
      @ pathTable b' dirs False @ pathTable b' dirs True
      @ concat (map (\<lambda>x. pad_sector (item_data b' x)) (items_of (b_heap b') dirs))"
    by (rule image_parts)
  then show ?thesis
    using run w' totalSectors_image [OF L(1,2,4)] chunks_layout(2) [OF L(1,2)] n
    by (intro exI [of _ b'] exI [of _ dirs] exI [of _ w'] exI [of _ "of_nat ?n"]) (simp add: WriteTo_def)
qed

theorem WriteTo_image_witness:
  "\<exists>b' img. WriteTo memImage_WriteAt sample_disc [] = (b', Inr img) \<and> length img mod sectorSize = 0"
proof -
  from WriteTo_image [OF mem_image.writer_at_axioms sample_disc_wf sample_disc_modest, of "[]"]
  obtain b' dirs w' tot where
    "WriteTo memImage_WriteAt sample_disc [] = (b', Inr w')"
    "w' = iso_image b' dirs @ drop (length (iso_image b' dirs)) []"
    "length (iso_image b' dirs) = unat (tot :: u32) * sectorSize" by blast
  then show ?thesis by auto
qed

text \<open>
  C1: what is written reads back.  For a tree of portable names (eight and three characters,
  in either case, no two siblings equal up to case), any medium that keeps the contract and any
  reader of it: the image opens, every file is found under the path it was added at, in
  whatever case that path is written, and has exactly the bytes that were added; and every
  directory lists exactly the entries it has in the tree, each once, as a directory or a file.
\<close>

theorem written_tree_reads_back:
  assumes "writer_at wa contents" "wf_builder b" "modest (b_heap b)" "portable_tree (tree b)"
    and "int (length (contents w)) \<le> maxInt"
  shows "\<exists>b' w'. WriteTo wa b w = (b', Inr w') \<and>
    (\<forall>rs env closer. reader_at rs (image_content (contents w')) (int (length (contents w'))) \<longrightarrow>
      (\<exists>fs. Open env rs (int (length (contents w'))) closer = Inr fs
        \<and> (\<forall>p path. map upper_ascii (splitPath path) = map upper_ascii p \<longrightarrow>
             (\<forall>data. tree b p = Some (File data) \<longrightarrow> ReadFile env fs path = Inr data)
             \<and> (tree b p = Some Dir \<longrightarrow>
                  (\<exists>es. ListDir env fs path = Inr es \<and> distinct (map de_name es)
                     \<and> (\<lambda>e. (de_name e, de_type e)) ` set es = {listed_as k e | k e. tree b (p @ [k]) = Some e})))))"
proof -
  obtain b' dirs w' where W: "WriteTo wa b w = (b', Inr w')" and lo: "laid_out b b' dirs"
    and m: "written_medium b b' dirs (contents w')" and tr: "heap_tree (b_heap b') = tree b"
    by (rule WriteTo_medium [OF assms(1-3,5)])
  have pt: "portable_tree (heap_tree (b_heap b'))" using assms(4) tr by simp
  note nd = clear_names_distinct [OF lo portable_clear [OF pt]]
  have upper: "shows_tree env fs (\<lambda>_. upper_ascii) (tree b)"
    if "shows_tree env fs (name_at (b_heap b')) (heap_tree (b_heap b'))" for env fs
    using shows_tree_names [OF portable_names [OF lo pt, symmetric] that] tr by simp
  show ?thesis
  proof (intro exI [of _ b'] exI [of _ w'] conjI allI impI, rule W)
    fix rs env closer
    assume "reader_at rs (image_content (contents w')) (int (length (contents w')))"
    then obtain fs where "Open env rs (int (length (contents w'))) closer = Inr fs"
        "shows_tree env fs (\<lambda>_. upper_ascii) (tree b)"
      using mounted_shows_tree [OF m lo nd] upper by blast
    then show "\<exists>fs. Open env rs (int (length (contents w'))) closer = Inr fs
        \<and> (\<forall>p path. map upper_ascii (splitPath path) = map upper_ascii p \<longrightarrow>
             (\<forall>data. tree b p = Some (File data) \<longrightarrow> ReadFile env fs path = Inr data)
             \<and> (tree b p = Some Dir \<longrightarrow>
                  (\<exists>es. ListDir env fs path = Inr es \<and> distinct (map de_name es)
                     \<and> (\<lambda>e. (de_name e, de_type e)) ` set es = {listed_as k e | k e. tree b (p @ [k]) = Some e})))"
      unfolding shows_tree_def renamed_map listed_as_def by blast
  qed
qed

theorem written_tree_reads_back_witness:
  "\<exists>b' img fs. WriteTo memImage_WriteAt sample_disc [] = (b', Inr img)
     \<and> Open \<lparr>env_grow = \<lambda>_ n. n, env_fold = \<lambda>_ _. False\<rparr> (bytes_reader img) (int (length img)) None = Inr fs
     \<and> ReadFile \<lparr>env_grow = \<lambda>_ n. n, env_fold = \<lambda>_ _. False\<rparr> fs (str ''d/f.txt'') = Inr [1, 2, 3]"
proof -
  have path: "map upper_ascii (splitPath (str ''d/f.txt'')) = map upper_ascii [str ''D'', str ''F.TXT'']"
    by (simp add: splitPath_def str_def slash_def dot_def upper_ascii_def upper_byte_def)
  have data: "tree sample_disc [str ''D'', str ''F.TXT''] = Some (File [1, 2, 3])"
    by (simp add: sample_disc_tree)
  have "int (length ([] :: byte list)) \<le> maxInt" by (simp add: maxInt_def)
  from written_tree_reads_back [OF mem_image.writer_at_axioms sample_disc_wf sample_disc_modest
      sample_disc_portable this] path data mem.reader_at_axioms
  show ?thesis by blast
qed

text \<open>
  C5: names of any length and in any characters.  In a tree where no directory has names that
  fall together when they are cut to eight and three characters, or where at least no file
  without an extension is next to a directory, every entry is on the image under a name of
  its own: a level 1 identifier (without its version), which is the one made of its name when
  no two names of the directory fall together.  The image opens, and under these names, in
  either case, every file reads back its bytes and every directory lists exactly its entries.
\<close>

theorem written_names:
  assumes "writer_at wa contents" "wf_builder b" "modest (b_heap b)" "clear_names (tree b)"
    and "int (length (contents w)) \<le> maxInt"
  shows "\<exists>b' w' name. WriteTo wa b w = (b', Inr w')
    \<and> (\<forall>p k k'. tree b (p @ [k]) \<noteq> None \<longrightarrow> tree b (p @ [k']) \<noteq> None \<longrightarrow> name p k = name p k' \<longrightarrow> k = k')
    \<and> (\<forall>p k e. tree b (p @ [k]) = Some e \<longrightarrow>
         (\<exists>i. level1 (e = Dir) i \<and> name p k = cleanName i
            \<and> (inj_on (\<lambda>x. cleanName (plain_id x)) (siblings (tree b) p) \<longrightarrow> i = isoIdentifier k (e = Dir))))
    \<and> (\<forall>rs env closer. reader_at rs (image_content (contents w')) (int (length (contents w'))) \<longrightarrow>
         (\<exists>fs. Open env rs (int (length (contents w'))) closer = Inr fs \<and> shows_tree env fs name (tree b)))"
proof -
  obtain b' dirs w' where W: "WriteTo wa b w = (b', Inr w')" and lo: "laid_out b b' dirs"
    and m: "written_medium b b' dirs (contents w')" and tr: "heap_tree (b_heap b') = tree b"
    by (rule WriteTo_medium [OF assms(1-3,5)])
  have "clear_names (heap_tree (b_heap b'))" using assms(4) tr by simp
  note nd = clear_names_distinct [OF lo this]
  show ?thesis
    using W name_at_inj [OF lo nd] name_at_level1 [OF lo] mounted_shows_tree [OF m lo nd]
    by (intro exI [of _ b'] exI [of _ w'] exI [of _ "name_at (b_heap b')"]) (simp add: tr)
qed

text \<open>A builder with two files in the root directory.\<close>

definition two_files :: "gostring \<Rightarrow> byte list \<Rightarrow> gostring \<Rightarrow> byte list \<Rightarrow> heap" where
  "two_files k1 d1 k2 d2 =
     [(new_dir [slash])\<lparr>n_children := [(k1, 1), (k2, 2)]\<rparr>, new_file k1 d1, new_file k2 d2]"

lemma two_files_wf:
  assumes "component k1" "component k2" "k1 \<noteq> k2"
  shows "wf_heap (two_files k1 d1 k2 d2)"
proof -
  have root: "wf_heap [new_dir [slash]]"
    using NewBuilder_wf [of "[]" sample_time] by (simp add: wf_builder_def NewBuilder_def)
  have "can_put [new_dir [slash]] 0 k1 (new_file k1 d1)"
    using assms(1) by (simp add: can_put_def new_dir_def new_file_def)
  from put_child_wf [OF root this]
  have one: "wf_heap (put_child [new_dir [slash]] 0 k1 (new_file k1 d1))" .
  have "can_put (put_child [new_dir [slash]] 0 k1 (new_file k1 d1)) 0 k2 (new_file k2 d2)"
    using assms by (simp add: can_put_def put_child_def new_dir_def new_file_def)
  from put_child_wf [OF one this] show ?thesis
    using assms(3) by (simp add: two_files_def put_child_def new_dir_def numeral_2_eq_2)
qed

lemma two_files_modest:
  "length d1 \<le> 2 ^ 31 \<Longrightarrow> length d2 \<le> 2 ^ 31 \<Longrightarrow> modest (two_files k1 d1 k2 d2)"
  by (simp add: modest_def weight_def two_files_def new_dir_def new_file_def)

lemma two_files_tree:
  "k1 \<noteq> k2 \<Longrightarrow> heap_tree (two_files k1 d1 k2 d2) = [[] \<mapsto> Dir, [k1] \<mapsto> File d1, [k2] \<mapsto> File d2]"
proof
  fix p assume "k1 \<noteq> k2"
  then show "heap_tree (two_files k1 d1 k2 d2) p = [[] \<mapsto> Dir, [k1] \<mapsto> File d1, [k2] \<mapsto> File d2] p"
    by (cases p; cases "tl p")
      (auto simp: heap_tree_def two_files_def entry_of_def new_dir_def new_file_def
        split: if_splits option.splits)
qed

lemma two_files_siblings:
  assumes "k1 \<noteq> k2"
  shows "siblings (heap_tree (two_files k1 d1 k2 d2)) p = (if p = [] then {(k1, False), (k2, False)} else {})"
  unfolding two_files_tree [OF assms] siblings_def using assms by (auto split: if_splits)

text \<open>Two files whose names fall together when they are cut.\<close>

definition long1 :: gostring where "long1 = str ''longname-1.data''"
definition long2 :: gostring where "long2 = str ''longname-2.data''"

definition long_disc :: Builder where
  "long_disc = fst (AddFile (fst (AddFile (NewBuilder [] sample_time) long1 [1])) long2 [2])"

lemma long_disc_heap: "b_heap long_disc = two_files long1 [1] long2 [2]" "b_root long_disc = 0"
  by code_simp+

lemma long_names: "component long1" "component long2" "long1 \<noteq> long2"
  by (simp_all add: component_def long1_def long2_def str_def slash_def dot_def)

lemma long_disc_wf: "wf_builder long_disc"
  using two_files_wf [OF long_names] by (simp add: wf_builder_def long_disc_heap)

lemma long_disc_modest: "modest (b_heap long_disc)"
  by (simp add: long_disc_heap two_files_modest)

lemma long_disc_tree: "tree long_disc = [[] \<mapsto> Dir, [long1] \<mapsto> File [1], [long2] \<mapsto> File [2]]"
  using two_files_tree [OF long_names(3)] by (simp add: tree_def long_disc_heap)

lemma long_disc_clear: "clear_names (tree long_disc)"
  using two_files_siblings [OF long_names(3)] by (simp add: clear_names_def tree_def long_disc_heap)

theorem written_names_witness:
  "\<exists>b' img n1 n2 fs. WriteTo memImage_WriteAt long_disc [] = (b', Inr img) \<and> n1 \<noteq> n2
     \<and> Open sample_env (bytes_reader img) (int (length img)) None = Inr fs
     \<and> ReadFile sample_env fs n1 = Inr [1] \<and> ReadFile sample_env fs n2 = Inr [2]"
proof -
  let ?t = "tree long_disc"
  note ne = long_names(3)
  then have t: "?t ([] @ [long1]) = Some (File [1])" "?t ([] @ [long2]) = Some (File [2])"
    by (simp_all add: long_disc_tree)
  have "int (length ([] :: byte list)) \<le> maxInt" by (simp add: maxInt_def)
  from written_names [OF mem_image.writer_at_axioms long_disc_wf long_disc_modest long_disc_clear this]
  obtain b' img name where W: "WriteTo memImage_WriteAt long_disc [] = (b', Inr img)"
    and inj: "\<forall>p k k'. ?t (p @ [k]) \<noteq> None \<longrightarrow> ?t (p @ [k']) \<noteq> None \<longrightarrow> name p k = name p k' \<longrightarrow> k = k'"
    and l1: "\<forall>p k e. ?t (p @ [k]) = Some e \<longrightarrow> (\<exists>i. level1 (e = Dir) i \<and> name p k = cleanName i
      \<and> (inj_on (\<lambda>x. cleanName (plain_id x)) (siblings ?t p) \<longrightarrow> i = isoIdentifier k (e = Dir)))"
    and fs: "\<forall>rs env closer. reader_at rs (image_content img) (int (length img)) \<longrightarrow>
      (\<exists>fs. Open env rs (int (length img)) closer = Inr fs \<and> shows_tree env fs name ?t)"
    by (elim exE conjE)
  obtain fs where O: "Open sample_env (bytes_reader img) (int (length img)) None = Inr fs"
      and S: "shows_tree sample_env fs name ?t"
    using fs mem.reader_at_axioms by blast
  have path: "map upper_ascii (splitPath (name [] k)) = renamed name [] [k]" if tk: "?t ([] @ [k]) = Some e" for k e
  proof -
    obtain i where i: "level1 (e = Dir) i" "name [] k = cleanName i" using l1 tk by blast
    then have "splitPath (name [] k) = [name [] k]"
      using splitPath_join(1) [of "[name [] k]"] level1_disk_name(1) by simp
    then show ?thesis using level1_upper(2) [OF i(1)] i(2) by simp
  qed
  have "ReadFile sample_env fs (name [] k) = Inr d" if tk: "?t ([] @ [k]) = Some (File d)" for k d
    using S path [OF tk] tk unfolding shows_tree_def append_Nil by blast
  then have "ReadFile sample_env fs (name [] long1) = Inr [1]" "ReadFile sample_env fs (name [] long2) = Inr [2]"
    using t by blast+
  moreover have "name [] long1 \<noteq> name [] long2" using inj [rule_format, of "[]" long1 long2] t ne by auto
  ultimately show ?thesis using W O by blast
qed

section \<open>Limits\<close>

text \<open>
  The rounding of \<^verbatim>\<open>sectorsFor\<close> wraps: a file within 2047 bytes of 4 GiB is given no sector,
  so what is placed after it overlaps it.
\<close>

lemma sectorsFor_wraps: "sectorsFor 0xFFFFFFFF = 0" "sectorsFor 0xFFFFF801 = 0"
  by (simp_all add: sectorsFor_def sectorSize_def)

text \<open>
  A directory and a file whose names differ in case only get different identifiers, which the
  reader maps to the same name; it finds the directory, whose identifier sorts first.
\<close>

lemma version_collision:
  "isoIdentifier (str ''D'') True \<noteq> isoIdentifier (str ''d'') False"
  "cleanName (isoIdentifier (str ''D'') True) = cleanName (str ''D;1'')"
  "unique_id [str ''D''] (str ''D;1'') False = str ''D;1''"
proof -
  have d: "isoIdentifier (str ''D'') True = str ''D''"
    using sanitize_id [of "str ''D''"] by (simp add: isoIdentifier_def str_def dchar_def clampField_take)
  have "level1 False (isoIdentifier (str ''d'') False)" by (rule isoIdentifier_level1) simp
  then have "2 < length (isoIdentifier (str ''d'') False)"
    by (auto simp: level1_def level1_file_def level1_dir_def level1_ext_def Suc_lessI)
  moreover have "length (str ''D'') = 1" by (simp add: str_def)
  ultimately show "isoIdentifier (str ''D'') True \<noteq> isoIdentifier (str ''d'') False"
    unfolding d by (metis less_numeral_extra(4) one_less_numeral_iff not_less_iff_gr_or_eq semiring_norm(76))
  show "cleanName (isoIdentifier (str ''D'') True) = cleanName (str ''D;1'')"
    unfolding d by (simp add: str_def cleanName_def cut_version_eq trim_suffix_def semicolon_def dot_def)
  show "unique_id [str ''D''] (str ''D;1'') False = str ''D;1''"
    by (rule unique_id_new) (simp add: str_def)
qed

text \<open>
  When a file is added to a builder that has been written, the new node has no identifier and
  the others have: the comparison of \<^verbatim>\<open>sortedChildren\<close> then is not transitive, and the
  order \<^verbatim>\<open>sort.Slice\<close> leaves depends on the order the map is iterated in.
\<close>

lemma mixed_identifiers_cycle:
  "\<exists>h. node_less h 0 1 \<and> node_less h 1 2 \<and> node_less h 2 0
     \<and> n_id (h ! 0) = str ''A;1'' \<and> n_id (h ! 1) = str ''Z;1'' \<and> n_id (h ! 2) = []"
proof -
  let ?h = "[(new_file (str ''a'') [])\<lparr>n_id := str ''A;1''\<rparr>, (new_file (str ''Z'') [])\<lparr>n_id := str ''Z;1''\<rparr>,
     new_file (str ''_'') []]"
  show ?thesis
    by (rule exI [of _ ?h]) (simp add: node_less_def new_file_def str_def)
qed

text \<open>
  The order of the identifiers is not the order of the counters: with ten colliding names of a
  short base the second layout of a builder handles the variant with counter 10 before the
  one with counter 2, and gives them each other's identifiers.
\<close>

lemma counter_order:
  "str_less (disambiguate (str ''A'') True 10) (disambiguate (str ''A'') True 2)"
  by code_simp

end
