(* ===== verification/Reproducible.thy ===== *)
theory Reproducible
  imports Mastering
begin

text \<open>
  The image is a function of the tree: two builders with the same tree, volume identifier and
  time write the same bytes, in whatever order their entries were added and wherever the nodes
  are in memory, and whether or not they were laid out before.
\<close>

section \<open>Renaming the nodes\<close>

text \<open>\<open>m\<close> takes the nodes of a laid-out heap to those of another one that says the same.\<close>

definition renames :: "(addr \<Rightarrow> addr) \<Rightarrow> heap \<Rightarrow> heap \<Rightarrow> bool" where
  "renames m h g \<longleftrightarrow>
     m 0 = 0 \<and>
     (\<forall>x. reachable h x \<longrightarrow>
        reachable g (m x) \<and> n_isDir (g ! m x) = n_isDir (h ! x) \<and> n_id (g ! m x) = n_id (h ! x)
        \<and> (n_isDir (h ! x) \<or> n_data (g ! m x) = n_data (h ! x))
        \<and> n_parent (g ! m x) = map_option m (n_parent (h ! x))
        \<and> (\<forall>p. n_parent (h ! x) = Some p \<longrightarrow> reachable h p \<and> n_isDir (h ! p))
        \<and> sortedChildren g (m x) = map m (sortedChildren h x))"

lemma renames_node:
  assumes "renames m h g" "reachable h x"
  shows "reachable g (m x)" "n_isDir (g ! m x) = n_isDir (h ! x)" "n_id (g ! m x) = n_id (h ! x)"
    "\<not> n_isDir (h ! x) \<Longrightarrow> n_data (g ! m x) = n_data (h ! x)"
    "n_parent (g ! m x) = map_option m (n_parent (h ! x))"
    "n_parent (h ! x) = Some p \<Longrightarrow> reachable h p \<and> n_isDir (h ! p)"
    "sortedChildren g (m x) = map m (sortedChildren h x)"
  using assms by (auto simp: renames_def)

lemma sortedChildren_reachable:
  "wf_heap h \<Longrightarrow> reachable h d \<Longrightarrow> c \<in> set (sortedChildren h d) \<Longrightarrow> reachable h c \<and> d < c"
  using reachable_child sortedChildren_set reachable_bound children_facts(1) by metis

lemma renames_bfs:
  assumes wf: "wf_heap h" and m: "renames m h g"
  shows "bfs_loop k h dirs i = Inr r \<Longrightarrow> bfs_loop k' g (map m dirs) i = Inr r' \<Longrightarrow>
    \<forall>d \<in> set dirs. reachable h d \<Longrightarrow> r' = map m r"
proof (induction k arbitrary: k' dirs i)
  case 0
  then show ?case by (simp add: bfs_loop.simps [of 0] bfs_loop.simps [of k'] split: if_splits)
next
  case (Suc k)
  show ?case
  proof (cases "i < length dirs")
    case False
    then show ?thesis using Suc.prems by (simp add: bfs_loop.simps [of "Suc k"] bfs_loop.simps [of k'])
  next
    case True
    let ?d = "dirs ! i"
    obtain k1 where k1: "k' = Suc k1"
      using Suc.prems(2) True by (cases k') (simp_all add: bfs_loop.simps [of 0])
    have d: "reachable h ?d" using Suc.prems(3) True by simp
    have sub: "reachable h c" if "c \<in> set (sortedChildren h ?d)" for c
      using sortedChildren_reachable [OF wf d that] by simp
    have "filter (\<lambda>c. n_isDir (g ! m c)) (sortedChildren h ?d) = filter (\<lambda>c. n_isDir (h ! c)) (sortedChildren h ?d)"
      using renames_node(2) [OF m] sub by (intro filter_cong) auto
    then have "filter (\<lambda>c. n_isDir (g ! c)) (sortedChildren g (m ?d))
        = map m (filter (\<lambda>c. n_isDir (h ! c)) (sortedChildren h ?d))"
      by (simp add: renames_node(7) [OF m d] filter_map comp_def)
    then have "bfs_loop k1 g (map m (dirs @ filter (\<lambda>c. n_isDir (h ! c)) (sortedChildren h ?d))) (i + 1) = Inr r'"
      using Suc.prems(2) True by (simp add: k1 bfs_loop.simps [of "Suc k1"])
    moreover have "bfs_loop k h (dirs @ filter (\<lambda>c. n_isDir (h ! c)) (sortedChildren h ?d)) (i + 1) = Inr r"
      using Suc.prems(1) True by (simp add: bfs_loop.simps [of "Suc k"])
    moreover have "\<forall>d \<in> set (dirs @ filter (\<lambda>c. n_isDir (h ! c)) (sortedChildren h ?d)). reachable h d"
      using Suc.prems(3) sub by auto
    ultimately show ?thesis by (intro Suc.IH)
  qed
qed

lemma renames_orderedDirs:
  assumes "wf_heap h" "renames m h g" "orderedDirs h 0 = Inr dirs" "orderedDirs g 0 = Inr dirs'"
  shows "dirs' = map m dirs"
  using renames_bfs [OF assms(1,2), of "length h" "[0]" 0 dirs "length g" dirs'] assms(2-4)
  by (simp add: orderedDirs_def renames_def reachable_def)

lemma renames_files:
  assumes wf: "wf_heap h" "wf_heap g" and m: "renames m h g"
  shows "reachable h d \<Longrightarrow> length h \<le> k + d \<Longrightarrow> length g \<le> k' + m d \<Longrightarrow>
    dfs_files k' g (m d) = map m (dfs_files k h d)"
proof (induction k arbitrary: k' d)
  case 0
  then show ?case using reachable_bound [OF wf(1) 0(1)] by simp
next
  case (Suc k)
  have gd: "reachable g (m d)" by (rule renames_node(1) [OF m Suc.prems(1)])
  then obtain k1 where k1: "k' = Suc k1"
    using reachable_bound [OF wf(2) gd] Suc.prems(3) by (cases k') auto
  have "(if n_isDir (g ! m c) then dfs_files k1 g (m c) else [m c])
      = map m (if n_isDir (h ! c) then dfs_files k h c else [c])" if c: "c \<in> set (sortedChildren h d)" for c
  proof -
    have r: "reachable h c" "d < c" using sortedChildren_reachable [OF wf(1) Suc.prems(1) c] by simp_all
    have "m c \<in> set (sortedChildren g (m d))" using renames_node(7) [OF m Suc.prems(1)] c by simp
    then have "m d < m c" using sortedChildren_reachable [OF wf(2) gd] by simp
    then show ?thesis using Suc.IH [OF r(1), of k1] Suc.prems(2,3) r k1 renames_node(2) [OF m r(1)] by simp
  qed
  then have maps: "map (\<lambda>c. if n_isDir (g ! m c) then dfs_files k1 g (m c) else [m c]) (sortedChildren h d)
      = map (\<lambda>c. map m (if n_isDir (h ! c) then dfs_files k h c else [c])) (sortedChildren h d)"
    by (intro map_cong refl)
  show ?case
    unfolding k1 dfs_files.simps renames_node(7) [OF m Suc.prems(1)] map_map comp_def map_concat
    by (rule arg_cong [OF maps])
qed

lemma renames_items:
  assumes "wf_heap h" "wf_heap g" "renames m h g" "orderedDirs h 0 = Inr dirs" "orderedDirs g 0 = Inr dirs'"
  shows "files_of g = map m (files_of h)" "items_of g dirs' = map m (items_of h dirs)"
proof -
  have "m 0 = 0" using assms(3) by (simp add: renames_def)
  then show f: "files_of g = map m (files_of h)"
    using renames_files [OF assms(1-3), of 0 "length h" "length g"] by (simp add: files_of_def reachable_def)
  show "items_of g dirs' = map m (items_of h dirs)"
    using f renames_orderedDirs [OF assms(1,3-5)] by (simp add: items_of_def)
qed

section \<open>The same numbers\<close>

lemma renames_ident:
  assumes "renames m h g" "reachable h d"
  shows "pathTableIdent g (m d) = pathTableIdent h d"
  using renames_node(3,5) [OF assms] by (simp add: pathTableIdent_def)

lemma renames_tableSize:
  assumes "renames m h g" "\<forall>d \<in> set dirs. reachable h d"
  shows "pathTableSize g (map m dirs) = pathTableSize h dirs"
  using assms(2) renames_ident [OF assms(1)] unfolding pathTableSize_def fold_map
  by (intro fold_cong) simp_all

lemma renames_planned:
  assumes wf: "wf_heap h" and m: "renames m h g" and x: "reachable h x"
  shows "planned_len g (m x) = planned_len h x"
proof (cases "n_isDir (h ! x)")
  case True
  have "fold (\<lambda>c. add_record (length (n_id (g ! c)))) (sortedChildren g (m x)) s
      = fold (\<lambda>c. add_record (length (n_id (h ! c)))) (sortedChildren h x) s" for s
    unfolding renames_node(7) [OF m x] fold_map comp_def
    by (intro fold_cong) (use sortedChildren_reachable [OF wf x] renames_node(3) [OF m] in simp_all)
  then show ?thesis
    using True renames_node(2) [OF m x] by (simp add: planned_len_def directoryExtentSize_def)
next
  case False
  then show ?thesis using renames_node(2,4) [OF m x] by (simp add: planned_len_def)
qed

lemma renames_item_bytes:
  assumes wf: "wf_heap h" and m: "renames m h g" and x: "reachable h x"
  shows "item_bytes g (m x) = item_bytes h x"
proof -
  have "map (\<lambda>c. dirRecordLen (length (n_id (g ! c)))) (sortedChildren g (m x))
      = map (\<lambda>c. dirRecordLen (length (n_id (h ! c)))) (sortedChildren h x)"
    using sortedChildren_reachable [OF wf x] renames_node(3) [OF m] by (simp add: renames_node(7) [OF m x])
  then show ?thesis
    using renames_node(2,4) [OF m x] by (simp add: item_bytes_def extent_bytes_needed_def)
qed

lemma laid_out_extent:
  assumes "laid_out b b' dirs" "i < length (items_of (b_heap b') dirs)"
  shows "n_extentLen (b_heap b' ! (items_of (b_heap b') dirs ! i)) = planned_len (b_heap b') (items_of (b_heap b') dirs ! i)"
    "n_extentLBA (b_heap b' ! (items_of (b_heap b') dirs ! i))
      = pathTableLLBA + table_sectors (b_heap b') dirs + table_sectors (b_heap b') dirs
        + sectors_of (planned_len (b_heap b')) (take i (items_of (b_heap b') dirs))"
  using assms by (simp_all add: laid_out_def Let_def)

text \<open>Two layouts and a renaming of the one into the other.\<close>

definition same_layout :: "(addr \<Rightarrow> addr) \<Rightarrow> Builder \<Rightarrow> addr list \<Rightarrow> Builder \<Rightarrow> addr list \<Rightarrow> bool" where
  "same_layout m b1 dirs1 b2 dirs2 \<longleftrightarrow>
     (\<exists>b. laid_out b b1 dirs1) \<and> (\<exists>b. laid_out b b2 dirs2) \<and> renames m (b_heap b1) (b_heap b2)"

lemma same_layout_lists:
  assumes "same_layout m b1 dirs1 b2 dirs2"
  shows "dirs2 = map m dirs1" "files_of (b_heap b2) = map m (files_of (b_heap b1))"
    "items_of (b_heap b2) dirs2 = map m (items_of (b_heap b1) dirs1)"
    "set (items_of (b_heap b1) dirs1) = {x. reachable (b_heap b1) x}"
    "table_sectors (b_heap b2) dirs2 = table_sectors (b_heap b1) dirs1"
    "pathTableSize (b_heap b2) dirs2 = pathTableSize (b_heap b1) dirs1"
proof -
  obtain a1 a2 where lo: "laid_out a1 b1 dirs1" "laid_out a2 b2 dirs2" and m: "renames m (b_heap b1) (b_heap b2)"
    using assms by (auto simp: same_layout_def)
  note wf = laid_out_facts(1) [OF lo(1)] laid_out_facts(1) [OF lo(2)]
  have o: "orderedDirs (b_heap b1) 0 = Inr dirs1" "orderedDirs (b_heap b2) 0 = Inr dirs2"
    using lo by (simp_all add: laid_out_def Let_def)
  show d: "dirs2 = map m dirs1" by (rule renames_orderedDirs [OF wf(1) m o])
  show "files_of (b_heap b2) = map m (files_of (b_heap b1))"
    "items_of (b_heap b2) dirs2 = map m (items_of (b_heap b1) dirs1)"
    by (rule renames_items [OF wf m o])+
  show it: "set (items_of (b_heap b1) dirs1) = {x. reachable (b_heap b1) x}"
    by (rule items_distinct(2) [OF wf(1) o(1)])
  then have "\<forall>d \<in> set dirs1. reachable (b_heap b1) d" by (auto simp: items_of_def)
  then show "pathTableSize (b_heap b2) dirs2 = pathTableSize (b_heap b1) dirs1"
    unfolding d by (rule renames_tableSize [OF m])
  then show "table_sectors (b_heap b2) dirs2 = table_sectors (b_heap b1) dirs1" by (simp add: table_sectors_def)
qed

lemma same_layout_node:
  assumes sl: "same_layout m b1 dirs1 b2 dirs2" and x: "reachable (b_heap b1) x"
  shows "n_extentLBA (b_heap b2 ! m x) = n_extentLBA (b_heap b1 ! x)"
    "n_extentLen (b_heap b2 ! m x) = n_extentLen (b_heap b1 ! x)"
    "n_isDir (b_heap b1 ! x) \<Longrightarrow> n_dirIndex (b_heap b2 ! m x) = n_dirIndex (b_heap b1 ! x)"
proof -
  let ?h = "b_heap b1" and ?g = "b_heap b2"
  let ?items = "items_of ?h dirs1"
  obtain a1 a2 where lo: "laid_out a1 b1 dirs1" "laid_out a2 b2 dirs2" and m: "renames m ?h ?g"
    using sl by (auto simp: same_layout_def)
  note L = same_layout_lists [OF sl] and wf = laid_out_facts(1) [OF lo(1)]
  obtain i where i: "i < length ?items" "x = ?items ! i" using x L(4) by (metis in_set_conv_nth mem_Collect_eq)
  then have i2: "i < length (items_of ?g dirs2)" "m x = items_of ?g dirs2 ! i" using L(3) by simp_all
  have planned: "planned_len ?g (m y) = planned_len ?h y" if "y \<in> set ?items" for y
    using renames_planned [OF wf m] that L(4) by simp
  have maps: "map (\<lambda>y. sectorsFor (planned_len ?g (m y))) (take i ?items)
      = map (\<lambda>y. sectorsFor (planned_len ?h y)) (take i ?items)"
    using planned by (auto dest: in_set_takeD)
  have "sectors_of (planned_len ?g) (map m (take i ?items)) = sectors_of (planned_len ?h) (take i ?items)"
    unfolding sectors_of_def map_map comp_def by (rule arg_cong [OF maps])
  moreover have "take i (items_of ?g dirs2) = map m (take i ?items)" by (simp add: L(3) take_map)
  ultimately show "n_extentLBA (?g ! m x) = n_extentLBA (?h ! x)"
    using laid_out_extent(2) [OF lo(1) i(1)] laid_out_extent(2) [OF lo(2) i2(1)] L(5) i(2) i2(2) by simp
  have "x \<in> set ?items" using i by simp
  then show "n_extentLen (?g ! m x) = n_extentLen (?h ! x)"
    using laid_out_extent(1) [OF lo(1) i(1)] laid_out_extent(1) [OF lo(2) i2(1)] planned [of x] i(2) i2(2) by simp
  assume "n_isDir (?h ! x)"
  then have "x \<in> set dirs1"
    using x orderedDirs_ok [OF wf] lo(1) by (auto simp: laid_out_def Let_def)
  then obtain j where "j < length dirs1" "x = dirs1 ! j" by (metis in_set_conv_nth)
  then show "n_dirIndex (?g ! m x) = n_dirIndex (?h ! x)"
    using lo L(1) by (simp add: laid_out_def Let_def)
qed

section \<open>The same bytes\<close>

lemma same_layout_data:
  assumes sl: "same_layout m b1 dirs1 b2 dirs2" and t: "b_created b2 = b_created b1"
    and x: "reachable (b_heap b1) x"
  shows "item_data b2 (m x) = item_data b1 x"
proof -
  let ?h = "b_heap b1" and ?g = "b_heap b2"
  obtain a1 where lo: "laid_out a1 b1 dirs1" and m: "renames m ?h ?g" using sl by (auto simp: same_layout_def)
  note wf = laid_out_facts(1) [OF lo] and N = renames_node [OF m x] and E = same_layout_node [OF sl]
  let ?rec = "\<lambda>h c. dirRecord_bytes (b_created b1) (n_id (h ! c)) (n_extentLBA (h ! c)) (n_extentLen (h ! c)) (n_isDir (h ! c))"
  have "map (?rec ?g) (sortedChildren ?g (m x)) = map (?rec ?h) (sortedChildren ?h x)"
    using sortedChildren_reachable [OF wf x] renames_node(2,3) [OF m] E(1,2) by (simp add: N(7))
  moreover have "n_extentLBA (?g ! (case n_parent (?g ! m x) of None \<Rightarrow> m x | Some p \<Rightarrow> p))
      = n_extentLBA (?h ! (case n_parent (?h ! x) of None \<Rightarrow> x | Some p \<Rightarrow> p))
    \<and> n_extentLen (?g ! (case n_parent (?g ! m x) of None \<Rightarrow> m x | Some p \<Rightarrow> p))
      = n_extentLen (?h ! (case n_parent (?h ! x) of None \<Rightarrow> x | Some p \<Rightarrow> p))"
    using N(5,6) E(1,2) x by (cases "n_parent (?h ! x)") simp_all
  ultimately have "directoryExtent b2 (m x) = directoryExtent b1 x"
    using E(1,2) [OF x] unfolding directoryExtent_def Let_def t by (simp only:)
  then show ?thesis using N(2,4) by (simp add: item_data_def dir_bytes_def)
qed

lemma same_layout_table:
  assumes sl: "same_layout m b1 dirs1 b2 dirs2"
  shows "pathTable b2 dirs2 msb = pathTable b1 dirs1 msb"
proof -
  let ?h = "b_heap b1" and ?g = "b_heap b2"
  obtain a1 where lo: "laid_out a1 b1 dirs1" and m: "renames m ?h ?g" using sl by (auto simp: same_layout_def)
  note wf = laid_out_facts(1) [OF lo]
  have D: "set dirs1 = {d. reachable ?h d \<and> n_isDir (?h ! d)}"
    using orderedDirs_ok [OF wf] lo by (auto simp: laid_out_def Let_def)
  have "path_entry ?g msb (m d) = path_entry ?h msb d" if d: "d \<in> set dirs1" for d
  proof -
    have r: "reachable ?h d" "n_isDir (?h ! d)" using d D by simp_all
    note N = renames_node [OF m r(1)]
    have "(case n_parent (?g ! m d) of None \<Rightarrow> n_dirIndex (?g ! m d) | Some p \<Rightarrow> n_dirIndex (?g ! p))
        = (case n_parent (?h ! d) of None \<Rightarrow> n_dirIndex (?h ! d) | Some p \<Rightarrow> n_dirIndex (?h ! p))"
    proof (cases "n_parent (?h ! d)")
      case (Some p)
      then show ?thesis using N(5) N(6) [OF Some] same_layout_node(3) [OF sl] by simp
    qed (use N(5) same_layout_node(3) [OF sl r] in simp)
    then show ?thesis
      unfolding path_entry_def Let_def renames_ident [OF m r(1)] same_layout_node(1) [OF sl r(1)] by (simp only:)
  qed
  then have "map (path_entry ?g msb) dirs2 = map (path_entry ?h msb) dirs1"
    using same_layout_lists(1) [OF sl] by simp
  then show ?thesis by (simp only: pathTable_def)
qed

lemma same_layout_chunks:
  assumes sl: "same_layout m b1 dirs1 b2 dirs2" and "b_created b2 = b_created b1"
    and vol: "b_volumeID b2 = b_volumeID b1" "b_root b1 = 0" "b_root b2 = 0"
  shows "chunks b2 dirs2 = chunks b1 dirs1"
proof -
  let ?h = "b_heap b1" and ?g = "b_heap b2"
  obtain a1 a2 where lo: "laid_out a1 b1 dirs1" "laid_out a2 b2 dirs2" and m: "renames m ?h ?g"
    using sl by (auto simp: same_layout_def)
  note L = same_layout_lists [OF sl] and N = same_layout_node [OF sl] and wf = laid_out_facts(1)
  have item: "(at_lba (n_extentLBA (?g ! m x)), item_data b2 (m x)) = (at_lba (n_extentLBA (?h ! x)), item_data b1 x)"
    if "x \<in> set (items_of ?h dirs1)" for x
    using that L(4) N(1) same_layout_data [OF sl assms(2)] by simp
  have items: "item_chunks b2 (map m xs) = item_chunks b1 xs" if "set xs \<subseteq> set (items_of ?h dirs1)" for xs
    unfolding item_chunks_def map_map comp_def by (intro map_cong refl item) (use that in blast)
  have "image_sectors ?g dirs2 = image_sectors ?h dirs1"
  proof -
    have maps: "map (\<lambda>x. nsec (item_bytes ?g (m x))) (items_of ?h dirs1) = map (\<lambda>x. nsec (item_bytes ?h x)) (items_of ?h dirs1)"
      using L(4) renames_item_bytes [OF wf [OF lo(1)] m] by simp
    show ?thesis
      unfolding image_sectors_def first_extent_def bytes_sectors_def L(3,6) map_map comp_def
      by (simp only: maps)
  qed
  moreover have "b_pathTableMLBA b2 = b_pathTableMLBA b1"
    using laid_out_facts(7) [OF lo(1)] laid_out_facts(7) [OF lo(2)] L(5) by simp
  moreover have "n_extentLBA (?g ! 0) = n_extentLBA (?h ! 0)" "n_extentLen (?g ! 0) = n_extentLen (?h ! 0)"
    using N(1,2) [of 0] m by (simp_all add: reachable_def renames_def)
  ultimately have "header_chunks b2 dirs2 = header_chunks b1 dirs1"
    using same_layout_table [OF sl] L(6)
    by (simp add: header_chunks_def pvd_fields_def Let_def assms)
  moreover have "item_chunks b2 dirs2 = item_chunks b1 dirs1"
    "item_chunks b2 (files_of ?g) = item_chunks b1 (files_of ?h)"
    using items L(1,2) by (simp_all add: items_of_def)
  ultimately show ?thesis by (simp only: chunks_def)
qed

section \<open>From equal trees to equal images\<close>

definition distinct_ids :: "tree \<Rightarrow> bool" where
  "distinct_ids t \<longleftrightarrow> (\<forall>p. inj_on plain_id (siblings t p))"

lemma heap_tree_None: "heap_tree h p = None \<longleftrightarrow> node_at h 0 p = None"
  by (simp add: heap_tree_def)

text \<open>Nodes with the same path correspond.\<close>

lemma tree_renaming:
  assumes "wf_heap h" "heap_tree h = heap_tree g"
  shows "\<exists>m. \<forall>p x. node_at h 0 p = Some x \<longrightarrow> node_at g 0 p = Some (m x)"
proof -
  have "\<exists>y. \<forall>p. node_at h 0 p = Some x \<longrightarrow> node_at g 0 p = Some y" for x
  proof (cases "\<exists>p. node_at h 0 p = Some x")
    case True
    then obtain p where p: "node_at h 0 p = Some x" by blast
    then obtain y where "node_at g 0 p = Some y"
      using heap_tree_None [of h p] heap_tree_None [of g p] assms(2) by auto
    then show ?thesis using node_at_unique [OF assms(1) p] by blast
  qed blast
  then show ?thesis by metis
qed

lemma children_paths:
  assumes "wf_heap h" "node_at h 0 p = Some x" "x < length h"
  shows "c \<in> set (children h x) \<longleftrightarrow> (\<exists>k. node_at h 0 (p @ [k]) = Some c)"
proof -
  have "node_at h 0 (p @ [k]) = map_of (n_children (h ! x)) k" for k
    using assms(2) by (simp add: node_at_append split: option.splits)
  then show ?thesis
    using children_facts(5) [OF assms(1,3)] by (force simp: children_def dest: map_of_SomeD)
qed

lemma same_path_same_node:
  assumes lo: "laid_out a1 b1 dirs1" "laid_out a2 b2 dirs2"
    and t: "heap_tree (b_heap b1) = heap_tree (b_heap b2)" and ids: "distinct_ids (heap_tree (b_heap b1))"
    and p: "node_at (b_heap b1) 0 p = Some x" "node_at (b_heap b2) 0 p = Some y"
  shows "n_isDir (b_heap b2 ! y) = n_isDir (b_heap b1 ! x)"
    "n_isDir (b_heap b1 ! x) \<or> n_data (b_heap b2 ! y) = n_data (b_heap b1 ! x)"
    "n_id (b_heap b2 ! y) = n_id (b_heap b1 ! x)"
proof -
  have "entry_of (b_heap b2 ! y) = entry_of (b_heap b1 ! x)"
    using p t [THEN fun_cong, of p] by (simp add: heap_tree_def)
  then show dir: "n_isDir (b_heap b2 ! y) = n_isDir (b_heap b1 ! x)"
    and "n_isDir (b_heap b1 ! x) \<or> n_data (b_heap b2 ! y) = n_data (b_heap b1 ! x)"
    by (auto simp: entry_of_def split: if_splits)
  show "n_id (b_heap b2 ! y) = n_id (b_heap b1 ! x)"
  proof (cases p rule: rev_cases)
    case Nil
    then show ?thesis using p laid_out_facts(9) [OF lo(1)] laid_out_facts(9) [OF lo(2)] by simp
  next
    case (snoc q k)
    have "inj_on plain_id (siblings (heap_tree (b_heap b1)) q)" using ids by (simp add: distinct_ids_def)
    then show ?thesis
      using plain_node_id [OF lo(1), of q k x] plain_node_id [OF lo(2), of q k y] p snoc t dir by simp
  qed
qed

lemma same_path_parent:
  assumes lo: "laid_out a1 b1 dirs1" "laid_out a2 b2 dirs2"
    and m: "\<And>p x. node_at (b_heap b1) 0 p = Some x \<Longrightarrow> node_at (b_heap b2) 0 p = Some (m x)"
    and x: "node_at (b_heap b1) 0 p = Some x"
  shows "n_parent (b_heap b2 ! m x) = map_option m (n_parent (b_heap b1 ! x))
    \<and> (\<forall>d. n_parent (b_heap b1 ! x) = Some d \<longrightarrow> reachable (b_heap b1) d \<and> n_isDir (b_heap b1 ! d))"
proof (cases p rule: rev_cases)
  case Nil
  then show ?thesis using x m [OF x] laid_out_facts(8) [OF lo(1)] laid_out_facts(8) [OF lo(2)] by simp
next
  case (snoc q k)
  obtain d where d: "node_at (b_heap b1) 0 q = Some d" "reachable (b_heap b1) d" "n_isDir (b_heap b1 ! d)"
      "x \<in> set (children (b_heap b1) d)" "ids_ok (b_heap b1) d"
    by (rule node_in_directory [OF lo(1)]) (use x snoc in auto)
  obtain e where e: "node_at (b_heap b2) 0 q = Some e" "m x \<in> set (children (b_heap b2) e)" "ids_ok (b_heap b2) e"
    by (rule node_in_directory [OF lo(2)]) (use m [OF x] snoc in auto)
  have "e = m d" using e(1) m [OF d(1)] by simp
  then show ?thesis using d e by (simp add: ids_ok_def)
qed

lemma same_path_children:
  assumes lo: "laid_out a1 b1 dirs1" "laid_out a2 b2 dirs2"
    and t: "heap_tree (b_heap b1) = heap_tree (b_heap b2)" and ids: "distinct_ids (heap_tree (b_heap b1))"
    and m: "\<And>p x. node_at (b_heap b1) 0 p = Some x \<Longrightarrow> node_at (b_heap b2) 0 p = Some (m x)"
    and x: "node_at (b_heap b1) 0 p = Some x"
  shows "sortedChildren (b_heap b2) (m x) = map m (sortedChildren (b_heap b1) x)"
proof -
  let ?h = "b_heap b1" and ?g = "b_heap b2"
  let ?lt = "\<lambda>x y. str_less (n_id (?g ! x)) (n_id (?g ! y))"
  note wf = laid_out_facts(1) [OF lo(1)] laid_out_facts(1) [OF lo(2)]
  have r: "reachable ?h x" "reachable ?g (m x)" using x m [OF x] by (auto simp: reachable_def desc_def)
  note xl = reachable_bound [OF wf(1) r(1)] reachable_bound [OF wf(2) r(2)]
  note paths = children_paths [OF wf(1) x xl(1)] children_paths [OF wf(2) m [OF x] xl(2)]
  have sets: "set (children ?g (m x)) = m ` set (children ?h x)"
  proof (intro equalityI subsetI)
    fix c' assume "c' \<in> set (children ?g (m x))"
    then obtain k where k: "node_at ?g 0 (p @ [k]) = Some c'" using paths(2) by blast
    then obtain c where c: "node_at ?h 0 (p @ [k]) = Some c"
      using heap_tree_None [of ?h "p @ [k]"] heap_tree_None [of ?g "p @ [k]"] t by auto
    then have "c' = m c" using m [OF c] k by simp
    then show "c' \<in> m ` set (children ?h x)" using c paths(1) by blast
  next
    fix c' assume "c' \<in> m ` set (children ?h x)"
    then show "c' \<in> set (children ?g (m x))" using paths m by blast
  qed
  have same: "n_id (?g ! m c) = n_id (?h ! c)" if "c \<in> set (children ?h x)" for c
    using that same_path_same_node(3) [OF lo t ids] m paths(1) by blast
  show ?thesis
  proof (rule sort_by_unique [where lt = ?lt])
    have "ids_ok ?g (m x)" by (rule laid_out_facts(10) [OF lo(2) r(2)])
    then show "strict_order_on (set (sortedChildren ?g (m x))) ?lt"
      by (intro strict_order_key [of "\<lambda>c. n_id (?g ! c)"])
        (simp_all add: ids_ok_def distinct_map sortedChildren_set [OF wf(2) xl(2)])
    show "sorted_wrt ?lt (sortedChildren ?g (m x))" by (rule siblings_sorted [OF lo(2) r(2)])
    show "sorted_wrt ?lt (map m (sortedChildren ?h x))"
      using siblings_sorted [OF lo(1) r(1)] same sortedChildren_set [OF wf(1) xl(1)]
      by (auto simp: sorted_wrt_map elim: sorted_wrt_mono_rel [rotated])
    show "set (map m (sortedChildren ?h x)) = set (sortedChildren ?g (m x))"
      using sets sortedChildren_set [OF wf(1) xl(1)] sortedChildren_set [OF wf(2) xl(2)] by simp
  qed
qed

lemma same_tree_same_layout:
  assumes lo: "laid_out a1 b1 dirs1" "laid_out a2 b2 dirs2"
    and t: "heap_tree (b_heap b1) = heap_tree (b_heap b2)" and ids: "distinct_ids (heap_tree (b_heap b1))"
  shows "\<exists>m. same_layout m b1 dirs1 b2 dirs2"
proof -
  obtain m where m: "\<And>p x. node_at (b_heap b1) 0 p = Some x \<Longrightarrow> node_at (b_heap b2) 0 p = Some (m x)"
    using tree_renaming [OF laid_out_facts(1) [OF lo(1)] t] by blast
  have "m 0 = 0" using m [of "[]" 0] by simp
  moreover have "reachable (b_heap b2) (m x)" if "node_at (b_heap b1) 0 p = Some x" for p x
    using m [OF that] by (auto simp: reachable_def desc_def)
  moreover have "n_isDir (b_heap b2 ! m x) = n_isDir (b_heap b1 ! x) \<and> n_id (b_heap b2 ! m x) = n_id (b_heap b1 ! x)
      \<and> (n_isDir (b_heap b1 ! x) \<or> n_data (b_heap b2 ! m x) = n_data (b_heap b1 ! x))"
    if "node_at (b_heap b1) 0 p = Some x" for p x
    using same_path_same_node [OF lo t ids that m [OF that]] by blast
  ultimately have "renames m (b_heap b1) (b_heap b2)"
    unfolding renames_def
    using same_path_parent [OF lo m] same_path_children [OF lo t ids m]
    by (fastforce dest!: reachable_at)
  then show ?thesis using lo by (auto simp: same_layout_def)
qed

lemma modest_same_tree:
  assumes "same_tree h g"
  shows "modest g = modest h"
proof -
  have n: "n_children (g ! i) = n_children (h ! i) \<and> n_data (g ! i) = n_data (h ! i)
      \<and> n_isDir (g ! i) = n_isDir (h ! i) \<and> n_name (g ! i) = n_name (h ! i)" if "i < length h" for i
    using assms that by (simp add: same_tree_def same_node_def)
  have len: "length g = length h" using assms by (simp add: same_tree_def)
  have "map weight g = map weight h" by (rule nth_equalityI) (use n len in \<open>simp_all add: weight_def\<close>)
  then show ?thesis unfolding modest_def using n len by (metis in_set_conv_nth)
qed

section \<open>Properties\<close>

text \<open>
  C9: the image is reproducible when the names of each directory stay different as identifiers
  (\<open>distinct_ids\<close>).  Then two builders with the same tree, volume identifier and time
  perform the same writes on every writer and end with the same writer or error, in whatever
  order the entries were added; and a builder that was written once writes the same image
  again.  Where names collide as identifiers neither is claimed, and a second \<^verbatim>\<open>WriteTo\<close> can write
  another image (\<open>counter_order\<close>).
\<close>

theorem same_tree_same_writes:
  assumes "wf_builder b1" "modest (b_heap b1)" "wf_builder b2" "modest (b_heap b2)"
    and "tree b1 = tree b2" "distinct_ids (tree b1)"
    and "b_volumeID b1 = b_volumeID b2" "b_created b1 = b_created b2"
  shows "snd (WriteTo wa b1 w) = snd (WriteTo wa b2 w)
    \<and> snd (WriteTo wa (fst (WriteTo wa b1 w)) w') = snd (WriteTo wa b1 w')"
proof -
  have same: "snd (WriteTo wa a w) = snd (WriteTo wa c w)"
    if wf: "wf_builder a" "modest (b_heap a)" "wf_builder c" "modest (b_heap c)"
      and tr: "tree a = tree c" "distinct_ids (tree a)"
      and vol: "b_volumeID a = b_volumeID c" "b_created a = b_created c" for a c w
  proof -
    obtain a' dirs1 where A: "layout a = Inr (a', dirs1)" by (rule layout_exists [OF wf(1,2)])
    obtain c' dirs2 where C: "layout c = Inr (c', dirs2)" by (rule layout_exists [OF wf(3,4)])
    note LA = layout_laid_out [OF wf(1,2) A] and LC = layout_laid_out [OF wf(3,4) C]
    have t: "tree a' = tree a" "tree c' = tree c"
      using laid_out_tree [OF LA(1) wf(1)] laid_out_tree [OF LC(1) wf(3)] by simp_all
    obtain m where "same_layout m a' dirs1 c' dirs2"
      using same_tree_same_layout [OF LA(1) LC(1)] t tr by (auto simp: tree_def)
    then have "chunks c' dirs2 = chunks a' dirs1"
      by (rule same_layout_chunks)
        (use laid_out_facts(4-6) [OF LA(1)] laid_out_facts(4-6) [OF LC(1)] vol LA(4) LC(4) in simp_all)
    then show ?thesis by (simp add: WriteTo_trace [OF wf(1,2) A] WriteTo_trace [OF wf(3,4) C])
  qed
  obtain b' dirs where B: "layout b1 = Inr (b', dirs)" by (rule layout_exists [OF assms(1,2)])
  note L = layout_laid_out [OF assms(1,2) B]
  have "fst (WriteTo wa b1 w) = b'" by (simp add: WriteTo_trace [OF assms(1,2) B])
  moreover have "snd (WriteTo wa b' w') = snd (WriteTo wa b1 w')"
    using same [of b' b1 w'] laid_out_tree [OF L(1) assms(1)] modest_same_tree [OF laid_out_facts(2) [OF L(1)]]
      laid_out_facts(4-6) [OF L(1)] assms by simp
  ultimately show ?thesis using same [OF assms] by simp
qed

text \<open>Two files added in either order.\<close>

definition disc_ab :: Builder where
  "disc_ab = fst (AddFile (fst (AddFile (NewBuilder [] sample_time) (str ''A.TXT'') [1])) (str ''B.TXT'') [2])"

definition disc_ba :: Builder where
  "disc_ba = fst (AddFile (fst (AddFile (NewBuilder [] sample_time) (str ''B.TXT'') [2])) (str ''A.TXT'') [1])"

lemma disc_orders:
  "b_heap disc_ab = two_files (str ''A.TXT'') [1] (str ''B.TXT'') [2]" "b_root disc_ab = 0"
  "b_heap disc_ba = two_files (str ''B.TXT'') [2] (str ''A.TXT'') [1]" "b_root disc_ba = 0"
  by code_simp+

lemma disc_fields: "b_volumeID disc_ab = b_volumeID disc_ba" "b_created disc_ab = b_created disc_ba"
  by code_simp+

theorem same_tree_same_writes_witness:
  "disc_ab \<noteq> disc_ba
   \<and> snd (WriteTo memImage_WriteAt disc_ab []) = snd (WriteTo memImage_WriteAt disc_ba [])
   \<and> snd (WriteTo memImage_WriteAt (fst (WriteTo memImage_WriteAt disc_ab [])) [])
       = snd (WriteTo memImage_WriteAt disc_ab [])"
proof -
  have comp: "component (str ''A.TXT'')" "component (str ''B.TXT'')" "str ''A.TXT'' \<noteq> str ''B.TXT''"
    by (simp_all add: component_def str_def slash_def dot_def)
  have wf: "wf_builder disc_ab" "wf_builder disc_ba"
    using two_files_wf [OF comp] two_files_wf [OF comp(2,1)] comp(3)
    by (simp_all add: wf_builder_def disc_orders)
  have modest: "modest (b_heap disc_ab)" "modest (b_heap disc_ba)"
    by (simp_all add: disc_orders two_files_modest)
  have tree: "tree disc_ab = tree disc_ba"
    using two_files_tree [OF comp(3)] two_files_tree [OF comp(3) [symmetric]] comp(3)
    by (auto simp: tree_def disc_orders)
  have "plain_id (str ''A.TXT'', False) \<noteq> plain_id (str ''B.TXT'', False)"
    using sanitize_id [of "str ''A''"] sanitize_id [of "str ''B''"] sanitize_id [of "str ''TXT''"]
    by (simp add: plain_id_def isoIdentifier_def str_def dchar_def clampField_take dot_byte_def Let_def)
  then have ids: "distinct_ids (tree disc_ab)"
    using two_files_siblings [OF comp(3)] by (auto simp: distinct_ids_def tree_def disc_orders)
  have "b_heap disc_ab \<noteq> b_heap disc_ba"
    using comp(3) by (simp add: disc_orders two_files_def new_file_def)
  then have "disc_ab \<noteq> disc_ba" by auto
  then show ?thesis
    using same_tree_same_writes [OF wf(1) modest(1) wf(2) modest(2) tree ids disc_fields,
        of memImage_WriteAt "[]" "[]"] by blast
qed

end
