(* ===== verification/Sessions.thy ===== *)
theory Sessions
  imports RandomAccess
begin

text \<open>
  An open file shared by several goroutines (\<^verbatim>\<open>openfile.go\<close>).  The calls of \<^verbatim>\<open>ReadAt\<close> and
  \<^verbatim>\<open>Close\<close> interleave: a call of \<^verbatim>\<open>ReadAt\<close> is the load of the atomic flag with the checks before
  the loop, then one step for every round of the loop; \<^verbatim>\<open>Close\<close> is the store of the flag.  A
  state is the file and the calls, by a name for each; \<open>session_step\<close> is the step relation and
  \<open>session_run\<close> its traces.  Buffers belong to their calls, and the reader answers the same
  whoever asks, as the contract of \<^verbatim>\<open>io.ReaderAt\<close> wants.
\<close>

section \<open>States and steps\<close>

datatype call =
    Running "byte list" int nat
  | Done "byte list" int "goerror option"

record session =
  se_file :: isoFile
  se_calls :: "nat \<rightharpoonup> call"

datatype file_op = Invoke nat "byte list" int | Round nat | Close

text \<open>What \<^verbatim>\<open>ReadAt\<close> does before its loop.\<close>

definition ReadAt_start :: "isoFile \<Rightarrow> byte list \<Rightarrow> int \<Rightarrow> call" where
  "ReadAt_start f p off =
     (if if_closed f then Done p 0 (Some (Sentinel OsErrClosed))
      else if off < 0 then Done p 0 (Some (Wrap ''iso9660: ReadAt: negative offset %d'' []))
      else if off \<ge> if_size f then Done p 0 (Some (Sentinel EOF))
      else Running p off 0)"

definition after_round :: "int \<Rightarrow> read_round \<Rightarrow> call" where
  "after_round off r =
     (case r of Return p n err \<Rightarrow> Done p n err | Continue p n \<Rightarrow> Running p off n)"

definition open_session :: "isoFile \<Rightarrow> session" where
  "open_session f = \<lparr>se_file = f, se_calls = Map.empty\<rparr>"

inductive session_step :: "session \<Rightarrow> file_op \<Rightarrow> session \<Rightarrow> bool" where
  invoke: "se_calls s t = None \<Longrightarrow>
    session_step s (Invoke t p off)
      (s\<lparr>se_calls := (se_calls s)(t \<mapsto> ReadAt_start (se_file s) p off)\<rparr>)"
| round: "se_calls s t = Some (Running p off n) \<Longrightarrow>
    session_step s (Round t)
      (s\<lparr>se_calls := (se_calls s)(t \<mapsto> after_round off (iso_read_round (se_file s) p off n))\<rparr>)"
| close: "session_step s Close (s\<lparr>se_file := fst (File_Close (se_file s))\<rparr>)"

inductive_cases session_stepE: "session_step s a s'"
inductive_simps session_step_Round: "session_step s (Round t) s'"

code_pred (modes: i \<Rightarrow> i \<Rightarrow> o \<Rightarrow> bool) session_step .

inductive session_run :: "session \<Rightarrow> file_op list \<Rightarrow> session \<Rightarrow> bool" where
  start: "session_run s [] s"
| step: "session_run s as s' \<Longrightarrow> session_step s' a s'' \<Longrightarrow> session_run s (as @ [a]) s''"

text \<open>The only field of the file that changes is the flag, and only from false to true.\<close>

lemma session_file:
  "session_run s as s' \<Longrightarrow> se_file s' = (se_file s)\<lparr>if_closed := if_closed (se_file s) \<or> Close \<in> set as\<rparr>"
  by (induction rule: session_run.induct) (auto elim!: session_stepE simp: File_Close_def)

section \<open>A call takes effect at its load of the flag\<close>

text \<open>A round does not read the flag, so it does not matter when the file is closed.\<close>

lemma iso_read_round_closed: "iso_read_round (f\<lparr>if_closed := c\<rparr>) p off n = iso_read_round f p off n"
  by (cases f) (simp only: iso_read_round_def isoFile.select_convs isoFile.update_convs)

text \<open>What a call will answer if no other call goes on.\<close>

definition call_value :: "isoFile \<Rightarrow> call \<Rightarrow> (byte list \<times> int \<times> goerror option) option" where
  "call_value f c =
     (case c of Running p off n \<Rightarrow> iso_read_loop f p off n | Done p n err \<Rightarrow> Some (p, n, err))"

lemma ReadAt_start_value: "ReadAt f p off = call_value f (ReadAt_start f p off)"
  by (simp add: ReadAt_def ReadAt_start_def call_value_def)

lemma after_round_value:
  "call_value f (after_round off (iso_read_round f p off n)) = call_value f (Running p off n)"
  by (simp add: call_value_def after_round_def iso_read_loop.simps [of f p] split: read_round.splits)

definition linear :: "isoFile \<Rightarrow> file_op list \<Rightarrow> nat \<Rightarrow> call \<Rightarrow> bool" where
  "linear f as t c \<longleftrightarrow>
     (\<exists>pre p off post. as = pre @ Invoke t p off # post
        \<and> call_value f c = ReadAt (f\<lparr>if_closed := Close \<in> set pre\<rparr>) p off)"

lemma linear_later: "linear f as t c \<Longrightarrow> linear f (as @ [a]) t c"
  unfolding linear_def by (metis append.assoc append_Cons)

lemma linear_same:
  "linear f as t c \<Longrightarrow> call_value f c' = call_value f c \<Longrightarrow> linear f (as @ [a]) t c'"
  using linear_later by (simp add: linear_def)

lemma linear_invoke:
  assumes "\<not> if_closed f"
  shows "linear f (as @ [Invoke t p off]) t (ReadAt_start (f\<lparr>if_closed := Close \<in> set as\<rparr>) p off)"
proof -
  let ?f = "f\<lparr>if_closed := Close \<in> set as\<rparr>"
  have "call_value f (ReadAt_start ?f p off) = call_value ?f (ReadAt_start ?f p off)"
  proof (cases "Close \<in> set as")
    case True
    then show ?thesis by (simp add: ReadAt_start_def call_value_def)
  next
    case False
    then have "?f = f" using assms by simp
    then show ?thesis by (simp only:)
  qed
  then show ?thesis unfolding linear_def ReadAt_start_value by blast
qed

lemma session_linear:
  assumes "session_run (open_session f) as s" "\<not> if_closed f" "se_calls s t = Some c"
  shows "linear f as t c"
  using assms
proof (induction "open_session f" as s arbitrary: t c rule: session_run.induct)
  case (step as s a s')
  have same: "se_file s = f\<lparr>if_closed := Close \<in> set as\<rparr>"
    using session_file [OF step.hyps(1)] step.prems(1) by (simp add: open_session_def)
  show ?case
    using step.hyps(3)
  proof (cases rule: session_step.cases)
    case (invoke u p off)
    then show ?thesis
      using step linear_invoke [OF step.prems(1), of as t p off] linear_later
      by (cases "t = u") (auto simp: same count_list_append)
  next
    case (round u p off n)
    then show ?thesis
      using step linear_later linear_same [OF step.hyps(2) [OF step.prems(1) round(3)]]
      by (cases "t = u") (auto simp: same iso_read_round_closed after_round_value)
  next
    case close
    then show ?thesis using step linear_later by auto
  qed
qed (simp add: open_session_def)

section \<open>No call waits for another\<close>

definition call_buffer :: "call \<Rightarrow> byte list" where
  "call_buffer c = (case c of Running p off n \<Rightarrow> p | Done p n err \<Rightarrow> p)"

text \<open>After \<open>k\<close> rounds a call has delivered at least \<open>k\<close> bytes, or has ended with its last one.\<close>

definition paced :: "byte list \<Rightarrow> call \<Rightarrow> nat \<Rightarrow> bool" where
  "paced F c k \<longleftrightarrow>
     (case c of
        Running p off n \<Rightarrow> 0 \<le> off \<and> k \<le> n \<and> (\<exists>p0. read_inv F p0 off p n)
      | Done p n err \<Rightarrow> k \<le> length p + 1)"

lemma paced_start: "if_size f = int (length F) \<Longrightarrow> paced F (ReadAt_start f p off) 0"
  by (auto simp: paced_def ReadAt_start_def read_inv_def intro!: exI [of _ p])

lemma paced_length: "paced F c k \<Longrightarrow> k \<le> length (call_buffer c) + 1"
  by (cases c) (auto simp: paced_def call_buffer_def read_inv_def)

context device
begin

lemma paced_round:
  assumes "serves content f F" "if_rs f = rs" "paced F (Running p off n) k"
  shows "paced F (after_round off (iso_read_round f p off n)) (Suc k)"
proof -
  obtain p0 where p: "0 \<le> off" "k \<le> n" "read_inv F p0 off p n" using assms(3) by (auto simp: paced_def)
  from good_round [OF assms(1,2) p(1,3)] p show ?thesis
    by (cases "iso_read_round f p off n") (auto simp: good_round_def paced_def after_round_def read_inv_def)
qed

lemma session_paced:
  assumes "session_run (open_session f) as s" "serves content f F" "if_rs f = rs"
  shows "case se_calls s t of
           None \<Rightarrow> count_list as (Round t) = 0
         | Some c \<Rightarrow> paced F c (count_list as (Round t))"
  using assms
proof (induction "open_session f" as s arbitrary: t rule: session_run.induct)
  case (step as s a s')
  have same: "se_file s = f\<lparr>if_closed := if_closed f \<or> Close \<in> set as\<rparr>"
    using session_file [OF step.hyps(1)] by (simp add: open_session_def)
  have size: "if_size f = int (length F)" using step.prems(1) by (simp add: serves_def)
  note IH = step.hyps(2) [OF step.prems]
  show ?case
    using step.hyps(3)
  proof (cases rule: session_step.cases)
    case (invoke u p off)
    then show ?thesis using IH [of t] paced_start size
      by (cases "t = u") (auto simp: same count_list_append split: option.splits)
  next
    case (round u p off n)
    then have "paced F (Running p off n) (count_list as (Round u))" using IH [of u] by simp
    from paced_round [OF step.prems this] round IH [of t] show ?thesis
      by (cases "t = u") (auto simp: same iso_read_round_closed count_list_append split: option.splits)
  next
    case close
    then show ?thesis using IH [of t] by (auto simp: count_list_append split: option.splits)
  qed
qed (simp add: open_session_def)

end

section \<open>Properties\<close>

text \<open>
  C15: reads of one open file may be interleaved with each other and with \<^verbatim>\<open>Close\<close> in any way, on
  every reader that keeps the contract of \<^verbatim>\<open>io.ReaderAt\<close> to the letter.  Each call that has
  returned returned what it returns alone on the file as it was when the call began: when the file
  was not closed before, the bytes that \<^verbatim>\<open>ReadFile\<close> gives for the same path, at its offset, with
  \<^verbatim>\<open>io.EOF\<close> if and only if they do not fill the buffer or the offset is past the end (or, at the
  end of the image, with the wrapped \<^verbatim>\<open>io.EOF\<close> of a reader that answers it early, as \<open>answered\<close>
  says); and \<^verbatim>\<open>os.ErrClosed\<close> with an untouched buffer when it was.
\<close>

theorem concurrent_reads:
  assumes "image_reader (fs_rs fs) content limit"
    and "ReadFile env fs path = Inr d" "OpenFile env fs path = Inr f"
    and "session_run (open_session f) as s" "se_calls s t = Some (Done buf n err)"
  shows "\<exists>pre p off post. as = pre @ Invoke t p off # post
    \<and> ReadAt (f\<lparr>if_closed := Close \<in> set pre\<rparr>) p off = Some (buf, n, err)
    \<and> answered limit f d (Close \<in> set pre) p off (buf, n, err)"
proof -
  obtain rec where r: "resolve env fs path = Inr rec"
      "readFile (env_grow env) (fs_rs fs) (fs_vol fs) rec (allocCeiling (fs_size fs)) = Inr d"
    using assms(2) by (auto simp: ReadFile_def res_inv)
  have o: "openRecord fs rec = Inr f" "on_medium limit f"
    using readFile_openRecord [OF r(2) assms(1)] assms(3) r(1) by (auto simp: OpenFile_def)
  have dev: "reader_at (fs_rs fs) content limit" "device (fs_rs fs) content limit"
    using assms(1) image_reader.axioms(1) reader_at.axioms(1) by blast+
  have d: "d = file_bytes content (fs_vol fs) rec" using device.readFile_data [OF dev(2) r(2)] by blast
  note S = openRecord_serves [OF o(1)]
  obtain pre p off post where as: "as = pre @ Invoke t p off # post"
      and v: "ReadAt (f\<lparr>if_closed := Close \<in> set pre\<rparr>) p off = Some (buf, n, err)"
    using session_linear [OF assms(4) S(3) assms(5)] by (auto simp: linear_def call_value_def)
  have "answered limit f d (Close \<in> set pre) p off (buf, n, err)"
  proof (cases "Close \<in> set pre")
    case True
    then show ?thesis using v by (simp add: ReadAt_def answered_def read_answer_def Let_def)
  next
    case False
    then have "f\<lparr>if_closed := Close \<in> set pre\<rparr> = f" using S(3) by simp
    then show ?thesis
      using v False reader_at.ReadAt_answered [OF dev(1) S(1) [of content, folded d] S(2,3) o(2), of p off] by simp
  qed
  then show ?thesis using as v by blast
qed

lemma session_run_Cons: "session_step s a s' \<Longrightarrow> session_run s' as s'' \<Longrightarrow> session_run s (a # as) s''"
proof (rotate_tac, induction rule: session_run.induct)
  case (start s')
  then show ?case using session_run.step [OF session_run.start] by fastforce
next
  case (step s' as s1 b s2)
  then show ?case using session_run.step by fastforce
qed

theorem concurrent_reads_witness:
  "\<exists>f s. OpenFile sample_env sample_fs [0x42] = Inr f
    \<and> session_run (open_session f) [Invoke 0 [7] 0, Close, Invoke 1 [7] 0] s
    \<and> se_calls s 0 = Some (Done [7] 0 (Some (Sentinel EOF)))
    \<and> se_calls s 1 = Some (Done [7] 0 (Some (Sentinel OsErrClosed)))"
proof -
  have rs: "fs_rs sample_fs = bytes_reader sample_dir" by (simp add: sample_fs_def)
  have dev: "image_reader (fs_rs sample_fs) (image_content sample_dir) (int (length sample_dir))"
    unfolding rs by (rule mem_image.image_reader_axioms)
  obtain f where f: "OpenFile sample_env sample_fs [0x42] = Inr f" "if_size f = 0" "\<not> if_closed f"
    using sample_resolve_B
    by (auto simp: OpenFile_def openRecord_def sample_B_def zero_dirRecord_def isDir_def sample_fs_def
        rec_extents_def)
  let ?as = "[Invoke 0 [7] 0, Close, Invoke 1 [7] 0]"
  obtain s where run: "session_run (open_session f) ?as s" and
      calls: "\<exists>b n e. se_calls s 0 = Some (Done b n e)" "\<exists>b n e. se_calls s 1 = Some (Done b n e)"
    using f(2,3)
    by (intro that [OF session_run_Cons [OF session_step.invoke
              session_run_Cons [OF session_step.close
              session_run_Cons [OF session_step.invoke session_run.start]]]])
      (auto simp: open_session_def ReadAt_start_def File_Close_def)
  have ans: "ReadAt (f\<lparr>if_closed := t \<noteq> 0\<rparr>) [7] 0 = Some (b, n, e)"
    if "se_calls s t = Some (Done b n e)" for t b n e
    using concurrent_reads [OF dev sample_read_B f(1) run that]
    by (auto simp: Cons_eq_append_conv)
  have "ReadAt (f\<lparr>if_closed := c\<rparr>) [7] 0
      = Some ([7], 0, Some (Sentinel (if c then OsErrClosed else EOF)))" for c
    using f(2) by (simp add: ReadAt_def)
  then show ?thesis
    using calls f(1) run ans [of 0] ans [of 1] by fastforce
qed

text \<open>
  C31: no call of \<^verbatim>\<open>ReadAt\<close> waits for another or for \<^verbatim>\<open>Close\<close>.  In every interleaving a call makes
  at most one round more than its buffer has bytes, and it has returned unless its next round
  can be made.
\<close>

theorem reads_wait_free:
  assumes "device (fs_rs fs) content limit" "openRecord fs rec = Inr f"
    and "session_run (open_session f) as s" "se_calls s t = Some c"
  shows "count_list as (Round t) \<le> length (call_buffer c) + 1
    \<and> ((\<exists>buf n err. c = Done buf n err) \<or> (\<exists>s'. session_step s (Round t) s'))"
proof -
  note S = openRecord_serves [OF assms(2)]
  have "paced (file_bytes content (fs_vol fs) rec) c (count_list as (Round t))"
    using device.session_paced [OF assms(1,3) S(1,2), of t] assms(4) by simp
  then show ?thesis
    using paced_length assms(4) by (cases c) (auto simp: session_step_Round)
qed

theorem reads_wait_free_witness:
  "\<exists>f s s'. openRecord sample_file_fs sample_rec = Inr f
    \<and> session_run (open_session f) [Invoke 0 [0, 0] 1] s \<and> session_step s (Round 0) s'"
proof -
  obtain f where f: "openRecord sample_file_fs sample_rec = Inr f" using sample_open by blast
  have dev: "device (fs_rs sample_file_fs) (image_content sample_img) (int (length sample_img))"
    using mem.device_axioms [of sample_img] by (simp add: sample_file_fs_def)
  have "if_size f = 3"
    using openRecord_serves(4) [OF f] by (simp add: File_Size_def sample_rec_def zero_dirRecord_def)
  moreover note openRecord_serves(3) [OF f]
  ultimately obtain s where run: "session_run (open_session f) [Invoke 0 [0, 0] 1] s"
      and c: "se_calls s 0 = Some (Running [0, 0] 1 0)"
    by (intro that [OF session_run_Cons [OF session_step.invoke session_run.start]])
      (auto simp: open_session_def ReadAt_start_def)
  from reads_wait_free [OF dev f run c] f run show ?thesis by blast
qed

end
