(* ===== verification/SystemUse.thy ===== *)
theory SystemUse
  imports RockRidge
begin

text \<open>
  What a System Use Area says, as a reference for the three walkers of \<^verbatim>\<open>rockridge.go\<close>:
  \<open>susp_entries\<close> cuts an area into signatures and payloads, up to the first length that is
  impossible, and each walker is a search or a fold over that list.
\<close>

section \<open>The entries of an area\<close>

unbundle bit_operations_syntax

text \<open>Signature and payload of an entry.\<close>

type_synonym susp = "byte \<times> byte \<times> byte list"

fun susp_entries :: "byte list \<Rightarrow> susp list" where
  "susp_entries (s0 # s1 # l # v # rest) =
     (if 4 \<le> unat l \<and> unat l \<le> length rest + 4
      then (s0, s1, take (unat l - 4) rest) # susp_entries (drop (unat l - 4) rest)
      else [])"
| "susp_entries _ = []"

definition susp_area :: "susp list \<Rightarrow> byte list" where
  "susp_area es = concat (map (\<lambda>(a, b, p). susp_entry a b p) es)"

definition susp_ok :: "susp \<Rightarrow> bool" where
  "susp_ok e \<longleftrightarrow> length (snd (snd e)) \<le> 251"

lemma susp_area_simps [simp]:
  "susp_area [] = []" "susp_area (e # es) = susp_entry (fst e) (fst (snd e)) (snd (snd e)) @ susp_area es"
  "susp_area (es @ es') = susp_area es @ susp_area es'"
  by (simp_all add: susp_area_def split: prod.splits)

lemma susp_area_Nil_iff [simp]: "susp_area es = [] \<longleftrightarrow> es = []"
  by (cases es) (simp_all add: susp_entry_def)

text \<open>Cutting an area that was written gives its entries.\<close>

lemma susp_entries_area:
  "\<forall>e \<in> set es. susp_ok e \<Longrightarrow> susp_entries (susp_area es @ rest) = es @ susp_entries rest"
proof (induction es)
  case (Cons e es)
  have "unat (byte_of_nat (4 + length p)) = 4 + length p" if "length p \<le> 251" for p :: "byte list"
    using that by simp
  then show ?case
    using Cons by (cases e) (simp add: susp_ok_def susp_entry_def)
qed simp

text \<open>One step of a walk, and its end.\<close>

lemma susp_entries_head:
  assumes "susp_head sua = Inr (Some (a, b, l))"
  shows "susp_entries sua = (a, b, drop 4 (take l sua)) # susp_entries (drop l sua)"
    "subslice sua 4 l = Inr (drop 4 (take l sua))" "4 \<le> l" "l \<le> length sua"
proof -
  show l: "4 \<le> l" "l \<le> length sua" using susp_head_Some [OF assms] by simp_all
  have h: "a = sua ! 0" "b = sua ! 1" "l = unat (sua ! 2)"
    using assms by (auto simp: susp_head_eq split: if_splits)
  then have "4 \<le> length sua" using l by simp
  then obtain x y z v rest where sua: "sua = x # y # z # v # rest"
    by (auto simp: numeral_eq_Suc Suc_le_length_iff)
  moreover obtain k where "l = 4 + k" using l(1) le_Suc_ex by blast
  ultimately show "susp_entries sua = (a, b, drop 4 (take l sua)) # susp_entries (drop l sua)"
    using h l by (simp add: numeral_eq_Suc)
  show "subslice sua 4 l = Inr (drop 4 (take l sua))" using l by (simp add: drop_take)
qed

lemma susp_entries_end: "susp_head sua = Inr None \<Longrightarrow> susp_entries sua = []"
  by (cases sua rule: susp_entries.cases) (auto simp: susp_head_eq split: if_splits)

lemma susp_walk_cases:
  obtains "susp_head sua = Inr None" "susp_entries sua = []"
  | a b l p where "susp_head sua = Inr (Some (a, b, l))" "p = drop 4 (take l sua)"
      "susp_entries sua = (a, b, p) # susp_entries (drop l sua)"
      "subslice sua 4 l = Inr p" "4 \<le> l" "l \<le> length sua" "length p = l - 4"
proof (cases "susp_head sua = Inr None")
  case True
  then show ?thesis using susp_entries_end that(1) by blast
next
  case False
  then obtain a b l where h: "susp_head sua = Inr (Some (a, b, l))"
    by (auto simp: susp_head_eq split: if_splits)
  have "length (drop 4 (take l sua)) = l - 4" using susp_entries_head(4) [OF h] by simp
  then show ?thesis using that(2) [OF h refl] susp_entries_head [OF h] by blast
qed

section \<open>The walkers\<close>

definition is_ce :: "susp \<Rightarrow> bool" where
  "is_ce e \<longleftrightarrow> fst e = chr_C \<and> fst (snd e) = chr_E \<and> 24 \<le> length (snd (snd e))"

definition ce_target :: "susp \<Rightarrow> u32 \<times> u32 \<times> u32" where
  "ce_target e =
     (let d = snd (snd e) in (projr (le32 d), projr (le32 (drop 8 d)), projr (le32 (drop 16 d))))"

definition is_nm :: "susp \<Rightarrow> bool" where
  "is_nm e \<longleftrightarrow> fst e = chr_N \<and> fst (snd e) = chr_M \<and> snd (snd e) \<noteq> []"

definition nm_part :: "susp \<Rightarrow> gostring" where
  "nm_part e = (if is_nm e then tl (snd (snd e)) else [])"

definition is_px :: "susp \<Rightarrow> bool" where
  "is_px e \<longleftrightarrow> fst e = chr_P \<and> fst (snd e) = chr_X \<and> 4 \<le> length (snd (snd e))"

definition px_mode :: "susp \<Rightarrow> u16" where
  "px_mode e = ucast (snd (snd e) ! 0) OR push_bit 8 (ucast (snd (snd e) ! 1))"

definition is_sl :: "susp \<Rightarrow> bool" where
  "is_sl e \<longleftrightarrow> fst e = chr_S \<and> fst (snd e) = chr_L \<and> snd (snd e) \<noteq> []"

definition sl_step :: "susp \<Rightarrow> sl_state \<Rightarrow> sl_state" where
  "sl_step e st = (if is_sl e then projr (sl_components (tl (snd (snd e))) st) else st)"

definition is_sp :: "susp \<Rightarrow> bool" where
  "is_sp e \<longleftrightarrow> fst e = chr_S \<and> fst (snd e) = chr_P \<and> 3 \<le> length (snd (snd e))
     \<and> take 2 (snd (snd e)) = [0xBE, 0xEF]"

definition sp_skips :: "susp \<Rightarrow> nat" where
  "sp_skips e = unat (snd (snd e) ! 2)"

text \<open>The attributes a list of entries records.\<close>

definition rr_of_entries :: "susp list \<Rightarrow> rrInfo" where
  "rr_of_entries es =
     \<lparr>rr_name = concat (map nm_part es), rr_hasName = list_ex is_nm es,
      rr_mode = (case find is_px (rev es) of None \<Rightarrow> 0 | Some e \<Rightarrow> px_mode e),
      rr_hasMode = list_ex is_px es,
      rr_symlink = (if list_ex is_sl es then fst (fold sl_step es ([], [])) else []),
      rr_isSymlink = list_ex is_sl es\<rparr>"

lemma ce_fields_target:
  assumes "is_ce (a, b, p)"
  shows "ce_fields p = Inr (ce_target (a, b, p))"
proof -
  have "4 \<le> length p" "4 \<le> length (drop 8 p)" "4 \<le> length (drop 16 p)"
    using assms by (auto simp: is_ce_def)
  then obtain x y z where "le32 p = Inr x" "le32 (drop 8 p) = Inr y" "le32 (drop 16 p) = Inr z"
    using le32_total by meson
  then show ?thesis using assms by (simp add: is_ce_def ce_target_def ce_fields_def)
qed

lemma ceEntry_find: "ceEntry sua = Inr (map_option ce_target (find is_ce (susp_entries sua)))"
proof (induction sua rule: ceEntry.induct)
  case (1 sua)
  show ?case
  proof (cases sua rule: susp_walk_cases)
    case 1
    then show ?thesis by (simp add: ceEntry.simps [of sua])
  next
    case (2 a b l p)
    then have "is_ce (a, b, p) \<longleftrightarrow> a = chr_C \<and> b = chr_E \<and> 28 \<le> l" by (auto simp: is_ce_def)
    then show ?thesis
      using "1.IH" [OF 2(1) refl refl refl] 2 ce_fields_target [of a b p]
      by (auto simp: ceEntry.simps [of sua] simp del: subslice_in)
  qed
qed

lemma detectSUSPSkip_find:
  "detectSUSPSkip sua = Inr (map_option sp_skips (find is_sp (susp_entries sua)))"
proof (induction sua rule: detectSUSPSkip.induct)
  case (1 sua)
  show ?case
  proof (cases sua rule: susp_walk_cases)
    case 1
    then show ?thesis by (simp add: detectSUSPSkip.simps [of sua])
  next
    case (2 a b l p)
    let ?found = "if a = chr_S \<and> b = chr_P \<and> 7 \<le> l then sp_skip sua else Inr None"
    have found: "?found = Inr (if is_sp (a, b, p) then Some (sp_skips (a, b, p)) else None)"
    proof (cases "7 \<le> l")
      case True
      then have "sp_skip sua = Inr (if sua ! 4 = 0xBE \<and> sua ! 5 = 0xEF then Some (unat (sua ! 6)) else None)"
        using 2(6) by (simp add: sp_skip_def index_prefix [of 7 sua])
      moreover have "p ! 0 = sua ! 4" "p ! 1 = sua ! 5" "p ! 2 = sua ! 6" using True 2(2,6) by simp_all
      moreover have "take 2 p = [p ! 0, p ! 1]"
        using True 2(7) by (intro nth_equalityI) (auto simp: less_2_cases_iff)
      ultimately show ?thesis using True 2(7) by (auto simp: is_sp_def sp_skips_def)
    qed (use 2(7) in \<open>auto simp: is_sp_def\<close>)
    show ?thesis
      using "1.IH" [OF 2(1) refl refl refl] 2(1,3) found
      by (simp add: detectSUSPSkip.simps [of sua])
  qed
qed

text \<open>One entry adds what it records to the attributes of the entries before it.\<close>

definition rr_state :: "susp list \<Rightarrow> rrInfo \<times> sl_state" where
  "rr_state es = ((rr_of_entries es)\<lparr>rr_symlink := []\<rparr>, fold sl_step es ([], []))"

lemma px_mode_le32:
  "4 \<le> length p \<Longrightarrow> \<exists>m. le32 p = Inr m \<and> (ucast m :: u16) = px_mode (a, b, p)"
  by (simp add: le32_eq px_mode_def) (rule bit_word_eqI, auto simp: bit_simps)

lemma sl_step_components:
  "is_sl (a, b, x # p) \<Longrightarrow> sl_components p st = Inr (sl_step (a, b, x # p) st)"
  using sl_components_returns [of p st] by (auto simp: sl_step_def returns_def)

lemma rr_state_snoc:
  assumes "rr_state es = (rr, st)"
  shows "rr_state (es @ [e]) =
    (\<lparr>rr_name = rr_name rr @ nm_part e, rr_hasName = (rr_hasName rr \<or> is_nm e),
      rr_mode = (if is_px e then px_mode e else rr_mode rr), rr_hasMode = (rr_hasMode rr \<or> is_px e),
      rr_symlink = [], rr_isSymlink = (rr_isSymlink rr \<or> is_sl e)\<rparr>, sl_step e st)"
proof -
  have "rr = (rr_of_entries es)\<lparr>rr_symlink := []\<rparr>" "st = fold sl_step es ([], [])"
    using assms by (simp_all add: rr_state_def)
  then show ?thesis by (simp add: rr_state_def rr_of_entries_def)
qed

lemma signatures_differ:
  "is_nm e \<Longrightarrow> \<not> is_px e \<and> \<not> is_sl e" "is_px e \<Longrightarrow> \<not> is_nm e \<and> \<not> is_sl e"
  by (simp_all add: is_nm_def is_px_def is_sl_def chr_defs)

lemma rr_entry_other:
  "\<not> is_nm (a, b, p) \<Longrightarrow> \<not> is_px (a, b, p) \<Longrightarrow> \<not> is_sl (a, b, p) \<Longrightarrow> rr_entry a b p s = Inr s"
  by (cases s; cases p) (auto simp: rr_entry_def is_nm_def is_px_def is_sl_def)

lemma rr_entry_px:
  assumes "is_px (a, b, p)"
  shows "rr_entry a b p (rr, st) = Inr (rr\<lparr>rr_mode := px_mode (a, b, p), rr_hasMode := True\<rparr>, st)"
proof -
  have p: "a = chr_P" "b = chr_X" "4 \<le> length p" using assms by (simp_all add: is_px_def)
  obtain m where "le32 p = Inr m" "(ucast m :: u16) = px_mode (a, b, p)" using px_mode_le32 [OF p(3)] by blast
  then show ?thesis using p by (simp add: rr_entry_def chr_defs le32_take)
qed

lemma rr_entry_state: "rr_entry a b p (rr_state es) = Inr (rr_state (es @ [(a, b, p)]))"
proof -
  let ?e = "(a, b, p)"
  obtain rr st where s: "rr_state es = (rr, st)" by (cases "rr_state es") blast
  have sym: "rr_symlink rr = []" using s by (auto simp: rr_state_def)
  consider (nm) "is_nm ?e" | (px) "is_px ?e" | (sl) "is_sl ?e" | (none) "\<not> is_nm ?e" "\<not> is_px ?e" "\<not> is_sl ?e"
    by blast
  then show ?thesis
  proof cases
    case nm
    then obtain x q where p: "a = chr_N" "b = chr_M" "p = x # q" by (cases p) (auto simp: is_nm_def)
    then show ?thesis
      using rr_entry_NM [of x q rr st] nm signatures_differ(1) [OF nm] sym
      by (simp add: s rr_state_snoc [OF s] nm_part_def sl_step_def)
  next
    case px
    then show ?thesis
      using rr_entry_px [OF px, of rr st] signatures_differ(2) [OF px] sym
      by (simp add: s rr_state_snoc [OF s] nm_part_def sl_step_def)
  next
    case sl
    then obtain x q where p: "a = chr_S" "b = chr_L" "p = x # q" by (cases p) (auto simp: is_sl_def)
    then show ?thesis
      using rr_entry_SL [of x q rr st] sl_step_components [of a b x q st] sl signatures_differ [of ?e] sym
      by (auto simp: s rr_state_snoc [OF s] nm_part_def)
  next
    case none
    then show ?thesis
      using rr_entry_other [OF none, of "(rr, st)"] sym
      by (simp add: s rr_state_snoc [OF s] nm_part_def sl_step_def)
  qed
qed

lemma rr_loop_state: "rr_loop sua (rr_state es) = Inr (rr_state (es @ susp_entries sua))"
proof (induction sua arbitrary: es rule: length_induct)
  case (1 sua)
  show ?case
  proof (cases sua rule: susp_walk_cases)
    case 1
    then show ?thesis by (simp add: rr_loop.simps [of sua])
  next
    case (2 a b l p)
    have "length (drop l sua) < length sua" using 2(5,6) by simp
    then have "rr_loop (drop l sua) (rr_state (es @ [(a, b, p)]))
        = Inr (rr_state ((es @ [(a, b, p)]) @ susp_entries (drop l sua)))"
      using "1.IH" by blast
    then show ?thesis using 2 rr_entry_state [of a b p es] by (simp add: rr_loop.simps [of sua] del: subslice_in)
  qed
qed

lemma parseRockRidge_entries: "parseRockRidge sua = Inr (rr_of_entries (susp_entries sua))"
proof -
  have start: "(zero_rrInfo, [], []) = rr_state []"
    by (simp add: rr_state_def rr_of_entries_def zero_rrInfo_def)
  show ?thesis
    unfolding parseRockRidge_def start rr_loop_state
    by (auto simp: rr_state_def rr_of_entries_def split: prod.splits)
qed

section \<open>Properties\<close>

text \<open>
  C16: the three walkers of a System Use Area return a value on every byte sequence, and
  they agree on its entries: \<^verbatim>\<open>detectSUSPSkip\<close> finds the first SP entry with the check bytes,
  \<^verbatim>\<open>ceEntry\<close> the first CE entry, and \<^verbatim>\<open>parseRockRidge\<close> puts together the parts of the name in
  order, the mode of the last PX entry and the target that all SL entries spell.
\<close>

theorem system_use_walks:
  "parseRockRidge sua = Inr (rr_of_entries (susp_entries sua))
   \<and> detectSUSPSkip sua = Inr (map_option sp_skips (find is_sp (susp_entries sua)))
   \<and> ceEntry sua = Inr (map_option ce_target (find is_ce (susp_entries sua)))"
  by (simp add: parseRockRidge_entries detectSUSPSkip_find ceEntry_find)

end
