(* ===== verification/Continuation.thy ===== *)
theory Continuation
  imports FSys SystemUse
begin

text \<open>
  System Use entries that go on in continuation areas: \<^verbatim>\<open>collectSUSP\<close> and \<^verbatim>\<open>rrFor\<close> of
  \<^verbatim>\<open>fs.go\<close> on areas that are sequences of whole entries.  The areas of a chain are read from
  the medium and parsed as one.
\<close>

section \<open>CE entries\<close>

definition ce_payload :: "u32 \<Rightarrow> u32 \<Rightarrow> u32 \<Rightarrow> byte list" where
  "ce_payload block offset len = putBoth32 block @ putBoth32 offset @ putBoth32 len"

lemma ce_payload_entry:
  "is_ce (chr_C, chr_E, ce_payload block offset len)"
  "ce_target (chr_C, chr_E, ce_payload block offset len) = (block, offset, len)"
  "susp_ok (chr_C, chr_E, ce_payload block offset len)"
  using le32_putBoth32 [of len "[]"]
  by (simp_all add: is_ce_def ce_target_def susp_ok_def ce_payload_def le32_putBoth32)

lemma ceEntry_none:
  "\<forall>e \<in> set es. susp_ok e \<and> \<not> is_ce e \<Longrightarrow> ceEntry (susp_area es) = Inr None"
  using susp_entries_area [of es "[]"] by (auto simp: ceEntry_find find_None_iff)

lemma ceEntry_found:
  assumes "\<forall>e \<in> set pre. susp_ok e \<and> \<not> is_ce e"
  shows "ceEntry (susp_area (pre @ [(chr_C, chr_E, ce_payload block offset len)]) @ rest)
    = Inr (Some (block, offset, len))"
proof -
  let ?ce = "(chr_C, chr_E, ce_payload block offset len)"
  have "find is_ce (pre @ ?ce # xs) = Some ?ce" for xs
    using assms ce_payload_entry(1) by (induction pre) auto
  moreover have "susp_entries (susp_area (pre @ [?ce]) @ rest) = pre @ ?ce # susp_entries rest"
    using susp_entries_area [of "pre @ [?ce]" rest] assms ce_payload_entry(3) by auto
  ultimately show ?thesis by (simp add: ceEntry_find ce_payload_entry(2))
qed

section \<open>Chains\<close>

text \<open>
  \<open>chained\<close>: the area has a CE entry that points to the next area of the chain, which lies on
  the medium and fits in a block; the last area has none.
\<close>

fun chained :: "(int \<Rightarrow> byte) \<Rightarrow> int \<Rightarrow> u32 \<Rightarrow> susp list \<Rightarrow> susp list list \<Rightarrow> bool" where
  "chained content limit bs es [] = (\<forall>e \<in> set es. susp_ok e \<and> \<not> is_ce e)"
| "chained content limit bs es (es' # areas) =
     (\<exists>pre post block offset.
        es = pre @ (chr_C, chr_E, ce_payload block offset (of_nat (length (susp_area es')))) # post
        \<and> (\<forall>e \<in> set pre. susp_ok e \<and> \<not> is_ce e) \<and> (\<forall>e \<in> set post. susp_ok e)
        \<and> es' \<noteq> [] \<and> length (susp_area es') \<le> unat bs
        \<and> (let off = int (unat block) * int (unat bs) + int (unat offset) in
             off + int (length (susp_area es')) \<le> limit
             \<and> bytes_at content off (length (susp_area es')) = susp_area es')
        \<and> chained content limit bs es' areas)"

lemma chained_ok: "chained content limit bs es areas \<Longrightarrow> \<forall>e \<in> set (concat (es # areas)). susp_ok e"
  by (induction content limit bs es areas rule: chained.induct) (fastforce simp: ce_payload_entry(3))+

lemma collect_chain:
  assumes "strict_device (fs_rs fs) content limit"
    and "chained content limit (v_BlockSize (fs_vol fs)) es areas"
  shows "collect_loop fs k (susp_area es) out = Inr (out @ concat (map susp_area (take k areas)))"
  using assms(2)
proof (induction areas arbitrary: es k out)
  case Nil
  then have "ceEntry (susp_area es) = Inr None" using ceEntry_none by simp
  then show ?case by (cases k) simp_all
next
  case (Cons es' areas)
  let ?bs = "v_BlockSize (fs_vol fs)" and ?a = "susp_area es'"
  obtain pre post block offset where c:
      "es = pre @ (chr_C, chr_E, ce_payload block offset (of_nat (length ?a))) # post"
      "\<forall>e \<in> set pre. susp_ok e \<and> \<not> is_ce e" "es' \<noteq> []" "length ?a \<le> unat ?bs"
      "int (unat block) * int (unat ?bs) + int (unat offset) + int (length ?a) \<le> limit"
      "bytes_at content (int (unat block) * int (unat ?bs) + int (unat offset)) (length ?a) = ?a"
      "chained content limit ?bs es' areas"
    using Cons.prems by (auto simp: Let_def)
  have small: "length ?a < 2 ^ 32" using c(4) u32_bound [of ?bs] by simp
  then have len: "unat (of_nat (length ?a) :: u32) = length ?a" by (simp add: unat_of_nat)
  then have le: "(of_nat (length ?a) :: u32) \<noteq> 0" "(of_nat (length ?a) :: u32) \<le> ?bs"
    using c(3,4) by (auto simp: unat_eq_zero [symmetric] word_le_nat_alt)
  have rd: "read_into (fs_rs fs) (replicate (length ?a) 0)
      (int (unat block) * int (unat ?bs) + int (unat offset)) = (?a, int (length ?a), None)"
    using strict_device.read_into_inside [OF assms(1), of _ "replicate (length ?a) 0"] c(3,5,6) by simp
  have "ceEntry (susp_area es) = Inr (Some (block, offset, of_nat (length ?a)))"
    using ceEntry_found [OF c(2), of block offset _ "susp_area post"] c(1) by simp
  then have "collect_loop fs (Suc k') (susp_area es) out = collect_loop fs k' ?a (out @ ?a)" for k'
    using le rd by (simp add: len not_less [symmetric])
  then show ?case using Cons.IH [OF c(7)] by (cases k) simp_all
qed

lemma rrFor_chain:
  assumes "strict_device (fs_rs fs) content limit"
    and "chained content limit (v_BlockSize (fs_vol fs)) es areas"
    and "dr_sysUse rec = skipped @ susp_area es" "length skipped = fs_suspSkip fs" "es \<noteq> []"
  shows "rrFor fs rec = Inr (rr_of_entries (concat (es # take 16 areas)))"
proof -
  have area: "concat (map susp_area xs) = susp_area (concat xs)" for xs by (induction xs) simp_all
  have "length (susp_area es) \<noteq> 0" using assms(5) by simp
  then have "rrFor fs rec = res_bind (collectSUSP fs (susp_area es)) parseRockRidge"
    using assms(3,4) by (simp add: rrFor_def del: rrFor_eq)
  also have "\<dots> = parseRockRidge (susp_area (concat (es # take 16 areas)))"
    using collect_chain [OF assms(1,2)] area by (simp add: collectSUSP_def)
  finally have "rrFor fs rec = parseRockRidge (susp_area (concat (es # take 16 areas)))" .
  moreover have "\<forall>e \<in> set (concat (es # take 16 areas)). susp_ok e"
    using chained_ok [OF assms(2)] by (fastforce dest: in_set_takeD)
  ultimately show ?thesis
    using susp_entries_area [of "concat (es # take 16 areas)" "[]"] by (simp add: parseRockRidge_entries)
qed

section \<open>Properties\<close>

text \<open>
  C17: what the comment of \<^verbatim>\<open>collectSUSP\<close> promises.  The Rock Ridge entries of a record may go on
  in a chain of continuation areas on the medium; the attributes are those of the entries of the
  record and of the first sixteen areas, in order, and in particular a name split over NM entries
  in several areas is put together, whatever other entries stand between its parts.  The entries
  fill the System Use Area up to its end: after a padding byte the continuation is lost
  (\<open>padded_area_loses_name\<close>).  The older comment of \<^verbatim>\<open>rockridge.go\<close>, that continuation areas are
  not decoded, is out of date.
\<close>

theorem continued_name:
  assumes "strict_device (fs_rs fs) content limit"
    and "chained content limit (v_BlockSize (fs_vol fs)) es areas"
    and "dr_sysUse rec = skipped @ susp_area es" "length skipped = fs_suspSkip fs" "es \<noteq> []"
  shows "rrFor fs rec = Inr (rr_of_entries (concat (es # take 16 areas)))
    \<and> (list_ex is_nm (concat (es # take 16 areas)) \<longrightarrow>
         effectiveName fs rec = Inr (concat (map nm_part (concat (es # take 16 areas)))))"
  using rrFor_chain [OF assms]
  by (auto simp: effectiveName_def rr_of_entries_def simp del: rrFor_eq effectiveName_eq)

text \<open>A name whose second half lies in a continuation area at offset 4 of block 0.\<close>

definition half_area :: "susp list" where
  "half_area = [(chr_N, chr_M, 0 # str ''name'')]"

definition half_entries :: "susp list" where
  "half_entries = [(chr_N, chr_M, 1 # str ''long''), (chr_C, chr_E, ce_payload 0 4 9)]"

definition half_image :: "byte list" where
  "half_image = replicate 4 0 @ susp_area half_area"

definition half_record :: dirRecord where
  "half_record = zero_dirRecord\<lparr>dr_sysUse := susp_area half_entries\<rparr>"

definition half_fs :: FS where
  "half_fs = \<lparr>fs_rs = bytes_reader half_image, fs_size = -1,
     fs_vol = zero_Volume\<lparr>v_BlockSize := 2048\<rparr>, fs_root = zero_dirRecord, fs_joliet = False,
     fs_suspSkip = 0, fs_closer = None\<rparr>"

lemma half_sizes: "length (susp_area half_area) = 9" "length half_image = 13"
  by (simp_all add: half_area_def half_image_def str_def)

lemma half_device: "strict_device (fs_rs half_fs) (image_content half_image) 13"
  using mem.strict_device_axioms [of half_image] half_sizes(2) by (simp add: half_fs_def)

lemma half_chained: "chained (image_content half_image) 13 2048 half_entries [half_area]"
proof -
  have "bytes_at (image_content half_image) 4 9 = susp_area half_area"
    using half_sizes by (simp add: bytes_at_image half_image_def)
  moreover have "\<forall>e \<in> set half_area. susp_ok e \<and> \<not> is_ce e" "half_area \<noteq> []"
    by (simp_all add: half_area_def susp_ok_def is_ce_def str_def chr_defs)
  moreover have "susp_ok (chr_N, chr_M, 1 # str ''long'')" "\<not> is_ce (chr_N, chr_M, 1 # str ''long'')"
    by (simp_all add: susp_ok_def is_ce_def str_def chr_defs)
  ultimately show ?thesis
    unfolding chained.simps half_entries_def half_sizes(1) Let_def
    by (intro exI [of _ "[(chr_N, chr_M, 1 # str ''long'')]"] exI [of _ "[]"]
        exI [of _ 0] exI [of _ 4]) simp
qed

lemma half_parts:
  "concat (map nm_part (concat [half_entries, half_area])) = str ''longname''"
  "list_ex is_nm (concat [half_entries, half_area])"
  by (simp_all add: half_entries_def half_area_def nm_part_def is_nm_def str_def chr_defs)

theorem continued_name_witness:
  "effectiveName half_fs half_record = Inr (str ''longname'')"
proof -
  have bs: "v_BlockSize (fs_vol half_fs) = 2048" and use: "dr_sysUse half_record = [] @ susp_area half_entries"
    and skip: "length [] = fs_suspSkip half_fs" and ne: "half_entries \<noteq> []"
    by (simp_all add: half_fs_def half_record_def half_entries_def)
  show ?thesis
    using continued_name [OF half_device half_chained [folded bs] use skip ne] half_parts
    by (auto simp del: effectiveName_eq rrFor_eq)
qed

section \<open>A limit\<close>

text \<open>
  A directory record has an even number of bytes, so its System Use Area may end with a padding
  byte.  \<^verbatim>\<open>collectSUSP\<close> appends the continuation area after that byte, the walk then loses
  the boundaries of the entries, and the part of the name in the continuation area is dropped.
\<close>

lemma padded_area_loses_name:
  "effectiveName half_fs (half_record\<lparr>dr_sysUse := susp_area half_entries @ [0]\<rparr>) = Inr (str ''long'')"
proof -
  let ?rec = "half_record\<lparr>dr_sysUse := susp_area half_entries @ [0]\<rparr>"
  let ?out = "susp_area half_entries @ (0 # susp_area half_area)"
  have ce: "ceEntry (susp_area half_entries @ [0]) = Inr (Some (0, 4, 9))"
    using ceEntry_found [of "[(chr_N, chr_M, 1 # str ''long'')]" 0 4 9 "[0]"]
    by (simp add: half_entries_def susp_ok_def is_ce_def str_def chr_defs)
  have none: "ceEntry (susp_area half_area) = Inr None"
    by (rule ceEntry_none) (simp add: half_area_def susp_ok_def is_ce_def str_def chr_defs)
  have "read_into (fs_rs half_fs) (replicate 9 0) 4 = (susp_area half_area, 9, None)"
    using strict_device.read_into_inside [OF half_device, of 4 "replicate 9 0"] half_sizes
    by (simp add: bytes_at_image half_image_def)
  moreover have fs: "v_BlockSize (fs_vol half_fs) = 2048" "fs_suspSkip half_fs = 0"
    by (simp_all add: half_fs_def)
  ultimately have loop: "collect_loop half_fs (Suc (Suc k)) (susp_area half_entries @ [0]) out
      = Inr (out @ susp_area half_area)" for k out
    using ce none by simp
  have "16 = Suc (Suc 14)" by simp
  from loop [of 14, folded this] have "collectSUSP half_fs (susp_area half_entries @ [0]) = Inr ?out"
    by (simp add: collectSUSP_def)
  with fs(2) have "rrFor half_fs ?rec = parseRockRidge ?out" by (simp add: rrFor_def del: rrFor_eq)
  moreover have "susp_entries (0 # susp_area half_area) = []"
    by (simp add: half_area_def susp_entry_def str_def chr_defs)
  then have "susp_entries ?out = half_entries"
    using susp_entries_area [of half_entries "0 # susp_area half_area"]
    by (simp add: half_entries_def susp_ok_def str_def ce_payload_def)
  ultimately show ?thesis
    by (simp add: effectiveName_def parseRockRidge_entries rr_of_entries_def half_entries_def nm_part_def
        is_nm_def str_def chr_defs del: rrFor_eq effectiveName_eq)
qed

end
