(* ===== verification/TreeChoice.thy ===== *)
theory TreeChoice
  imports FSys SystemUse
begin

text \<open>
  Which of the directory trees of an image \<^verbatim>\<open>Open\<close> makes the root of the file system
  (\<^verbatim>\<open>openreader.go\<close>, \<^verbatim>\<open>chooseTree\<close> and \<^verbatim>\<open>primarySUSP\<close> of \<^verbatim>\<open>fs.go\<close>), in closed form.
\<close>

text \<open>
  The skip length a listing of the primary root announces: that of the first SP entry in the
  System Use Area of the first "." record.  A root that cannot be read announces none.
\<close>

definition announced_skip :: "dirRecord list res \<Rightarrow> nat option" where
  "announced_skip r =
     (case r of
        Inl _ \<Rightarrow> None
      | Inr entries \<Rightarrow>
          (case find (\<lambda>e. dr_rawName e = [0]) entries of
             None \<Rightarrow> None
           | Some e \<Rightarrow> map_option sp_skips (find is_sp (susp_entries (dr_sysUse e)))))"

definition tree_choice :: "nat option \<Rightarrow> FS \<Rightarrow> FS" where
  "tree_choice announced fs =
     (case announced of
        Some skip \<Rightarrow> fs\<lparr>fs_root := v_pvdRoot (fs_vol fs), fs_suspSkip := skip\<rparr>
      | None \<Rightarrow>
          if v_hasJoliet (fs_vol fs)
          then fs\<lparr>fs_root := v_jolietRoot (fs_vol fs), fs_joliet := True\<rparr>
          else fs\<lparr>fs_root := v_pvdRoot (fs_vol fs)\<rparr>)"

lemma dot_record: "length n = 1 \<and> n ! 0 = 0x00 \<longleftrightarrow> n = [0 :: byte]"
  by (cases n) auto

text \<open>
  Reading the primary root can panic, when the reader claims a count outside its buffer; a panic
  is not an error of the listing but ends the call (\<open>no_root_panic\<close>: never on a reader that
  counts as the interface says).
\<close>

definition root_panic :: "dirRecord list res \<Rightarrow> goerror option" where
  "root_panic r = (case r of Inl e \<Rightarrow> if is_panic e then Some e else None | Inr _ \<Rightarrow> None)"

lemma no_root_panic:
  "counted rs \<Longrightarrow> 0 < v_BlockSize vol \<Longrightarrow> root_panic (readDirRecords gc rs vol rec maxAlloc) = None"
  using readDirRecords_safe [of vol rs gc rec maxAlloc] by (auto simp: root_panic_def safe_def split: sum.splits)

lemma primarySUSP_announced:
  "primarySUSP env fs =
    (let root = read_dir env fs (v_pvdRoot (fs_vol fs)) in
     case root_panic root of
       Some e \<Rightarrow> Inl e
     | None \<Rightarrow> Inr (case announced_skip root of None \<Rightarrow> (0, False) | Some s \<Rightarrow> (s, True)))"
  unfolding primarySUSP_def announced_skip_def dot_record detectSUSPSkip_find Let_def root_panic_def
  by (auto split: sum.splits option.splits)

lemma chooseTree_announced:
  assumes "\<not> fs_joliet fs"
  shows "chooseTree env fs =
    (let root = read_dir env fs (v_pvdRoot (fs_vol fs)) in
     case root_panic root of Some e \<Rightarrow> Inl e | None \<Rightarrow> Inr (tree_choice (announced_skip root) fs))"
  using assms unfolding chooseTree_def primarySUSP_announced Let_def
  by (simp add: tree_choice_def split: option.splits)

section \<open>Properties\<close>

text \<open>
  C18: \<^verbatim>\<open>Open\<close> fails exactly when the descriptor scan fails, with its error.  Otherwise the tree
  is the primary one with the announced skip length when the "." record of the primary root
  has an SP entry, else the Joliet tree when there is one, else the primary tree; a primary
  root that cannot be read is not an error and counts as one without an SP entry, unless the
  reader makes the read panic.
\<close>

theorem Open_tree:
  "Open env rs imgSize closer =
     (case readVolume rs of
        Inl e \<Rightarrow> Inl e
      | Inr vol \<Rightarrow>
          (let root = readDirRecords (env_grow env) rs vol (v_pvdRoot vol) (allocCeiling imgSize) in
           case root_panic root of
             Some e \<Rightarrow> Inl e
           | None \<Rightarrow>
               Inr (tree_choice (announced_skip root)
                 \<lparr>fs_rs = rs, fs_size = imgSize, fs_vol = vol, fs_root = zero_dirRecord,
                  fs_joliet = False, fs_suspSkip = 0, fs_closer = closer\<rparr>)))"
  by (cases "readVolume rs")
    (simp_all add: Open_def chooseTree_announced read_dir_def Let_def)

end
