(* ===== verification/Links.thy ===== *)
theory Links
  imports FSys
begin

text \<open>
  Path resolution with symbolic links (\<^verbatim>\<open>resolveFrom\<close> of \<^verbatim>\<open>fs.go\<close>): a reference semantics
  of paths, links and parent components without a bound, which the code agrees with on paths
  without parent components and at most 40 links, and the number of directories it reads on the way.
\<close>

section \<open>The reference semantics\<close>

text \<open>The entry a component names in a directory, before any link is followed.\<close>

definition entry_named :: "go_env \<Rightarrow> FS \<Rightarrow> dirRecord \<Rightarrow> gostring \<Rightarrow> dirRecord res" where
  "entry_named env fs d n =
     (if \<not> isDir d then Inl (Wrap ''%w: %q'' [Sentinel ErrNotDirectory])
      else res_bind (read_dir env fs d) (\<lambda>es.
        case lookup_entry env fs es n of
          None \<Rightarrow> Inl (Wrap ''%w: %q'' [Sentinel ErrNotFound])
        | Some c \<Rightarrow> Inr c))"

text \<open>Whether an entry is a link to follow, and where its target starts and goes.\<close>

definition followed :: "FS \<Rightarrow> dirRecord \<Rightarrow> gostring list \<Rightarrow> bool \<Rightarrow> bool" where
  "followed fs c rest followFinal \<longleftrightarrow> rr_isSymlink (rr_of fs c) \<and> (rest \<noteq> [] \<or> followFinal)"

definition link_base :: "FS \<Rightarrow> dirRecord \<Rightarrow> dirRecord \<Rightarrow> dirRecord" where
  "link_base fs d c = (if has_prefix (rr_symlink (rr_of fs c)) [slash] then fs_root fs else d)"

definition link_parts :: "FS \<Rightarrow> dirRecord \<Rightarrow> gostring list" where
  "link_parts fs c = splitPath (rr_symlink (rr_of fs c))"

text \<open>
  A place of the walk is a trail: the current record, then the directories it was reached through
  up to the root.  The component \<open>".."\<close> goes one directory up, and stays in the root.
\<close>

abbreviation parent_name :: gostring where "parent_name \<equiv> [dot, dot]"

definition above :: "dirRecord list \<Rightarrow> dirRecord list" where
  "above tr = (if tl tr = [] then tr else tl tr)"

definition link_start :: "FS \<Rightarrow> dirRecord list \<Rightarrow> dirRecord \<Rightarrow> dirRecord list" where
  "link_start fs tr c = (if has_prefix (rr_symlink (rr_of fs c)) [slash] then [fs_root fs] else tr)"

text \<open>
  \<open>leads env fs d k tr ps ff r\<close>: from the trail \<open>tr\<close> the components \<open>ps\<close> lead to the result \<open>r\<close>,
  a trail or an error, over \<open>k\<close> links in all, nested \<open>d\<close> deep.  A link stands for what its target
  leads to, from the root or from the directory it is in.
\<close>

inductive leads ::
  "go_env \<Rightarrow> FS \<Rightarrow> nat \<Rightarrow> nat \<Rightarrow> dirRecord list \<Rightarrow> gostring list \<Rightarrow> bool \<Rightarrow> dirRecord list res \<Rightarrow> bool"
  for env fs
where
  arrived: "leads env fs 0 0 tr [] ff (Inr tr)"
| stopped: "n \<noteq> parent_name \<or> \<not> isDir (hd tr) \<Longrightarrow> entry_named env fs (hd tr) n = Inl e \<Longrightarrow>
    leads env fs 0 0 tr (n # ps) ff (Inl e)"
| up: "isDir (hd tr) \<Longrightarrow> leads env fs d k (above tr) ps ff r \<Longrightarrow>
    leads env fs d k tr (parent_name # ps) ff r"
| entry: "n \<noteq> parent_name \<Longrightarrow> entry_named env fs (hd tr) n = Inr c \<Longrightarrow> \<not> followed fs c ps ff \<Longrightarrow>
    leads env fs d k (c # tr) ps ff r \<Longrightarrow> leads env fs d k tr (n # ps) ff r"
| broken: "n \<noteq> parent_name \<Longrightarrow> entry_named env fs (hd tr) n = Inr c \<Longrightarrow> followed fs c ps ff \<Longrightarrow>
    leads env fs d k (link_start fs tr c) (link_parts fs c) True (Inl e) \<Longrightarrow>
    leads env fs (Suc d) (Suc k) tr (n # ps) ff (Inl e)"
| link: "n \<noteq> parent_name \<Longrightarrow> entry_named env fs (hd tr) n = Inr c \<Longrightarrow> followed fs c ps ff \<Longrightarrow>
    leads env fs d k (link_start fs tr c) (link_parts fs c) True (Inr t) \<Longrightarrow>
    leads env fs d' k' t ps ff r \<Longrightarrow>
    leads env fs (max (Suc d) d') (Suc (k + k')) tr (n # ps) ff r"

declare leads.intros [intro]

inductive_cases leads_NilE [elim!]: "leads env fs d k tr [] ff r"
inductive_cases leads_ConsE: "leads env fs d k tr (n # ps) ff r"

lemma leads_det:
  "leads env fs d k tr ps ff r \<Longrightarrow> leads env fs d' k' tr ps ff r' \<Longrightarrow> d' = d \<and> k' = k \<and> r' = r"
proof (induction arbitrary: d' k' r' rule: leads.induct)
  case (up tr d k ps ff r)
  from up.prems up.hyps show ?case by (elim leads_ConsE) (auto dest: up.IH)
next
  case (entry n tr c ps ff d k r)
  from entry.prems entry.hyps show ?case by (elim leads_ConsE) (auto dest: entry.IH)
next
  case (broken n tr c ps ff d k e)
  from broken.prems broken.hyps show ?case by (elim leads_ConsE) (auto dest: broken.IH)
next
  case (link n tr c ps ff d k t d2 k2 r)
  from link.prems link.hyps show ?case by (elim leads_ConsE) (auto dest: link.IH)
qed (auto elim: leads_ConsE)

text \<open>Into a directory and up again is no move.\<close>

lemma leads_down_up:
  assumes "entry_named env fs (hd tr) n = Inr c" "n \<noteq> parent_name" "\<not> followed fs c (parent_name # ps) ff"
    "isDir c" "tr \<noteq> []" "leads env fs d k tr ps ff r"
  shows "leads env fs d k tr (n # parent_name # ps) ff r"
  by (rule leads.entry [OF assms(2,1,3) leads.up]) (use assms(4-6) in \<open>simp_all add: above_def\<close>)

text \<open>Nested links are among the links followed.\<close>

lemma leads_nested: "leads env fs d k tr ps ff r \<Longrightarrow> d \<le> k"
  by (induction rule: leads.induct) auto

section \<open>The code and the semantics\<close>

lemma resolve_walk_follow:
  "resolve_walk env fs cur (n # ps) ff hops =
     res_bind (entry_named env fs cur n) (\<lambda>c.
       if followed fs c ps ff
       then res_bind (resolveFrom env fs (link_base fs cur c) (link_parts fs c) True (hops + 1))
              (\<lambda>t. resolve_walk env fs t ps ff hops)
       else resolve_walk env fs c ps ff hops)"
  by (cases "read_dir env fs cur")
    (auto simp: resolve_walk_step entry_named_def followed_def link_base_def link_parts_def
      split: option.splits)

lemma resolve_eq_walk: "resolve env fs path = resolve_walk env fs (fs_root fs) (splitPath path) True 0"
  by (simp add: resolve_def resolveFrom.simps)

text \<open>
  The induction that goes with the code: over the components, and into the target of a link with
  one more hop, until the hops are used up.
\<close>

lemma walk_induct [consumes 1, case_names arrived stopped entry limit link]:
  assumes "hops \<le> maxSymlinkHops"
    and arrived: "\<And>hops cur ff. hops \<le> maxSymlinkHops \<Longrightarrow> P hops cur [] ff"
    and stopped: "\<And>hops cur n ps ff e. hops \<le> maxSymlinkHops \<Longrightarrow> entry_named env fs cur n = Inl e \<Longrightarrow>
        P hops cur (n # ps) ff"
    and entry: "\<And>hops cur n c ps ff. hops \<le> maxSymlinkHops \<Longrightarrow> entry_named env fs cur n = Inr c \<Longrightarrow>
        \<not> followed fs c ps ff \<Longrightarrow> P hops c ps ff \<Longrightarrow> P hops cur (n # ps) ff"
    and limit: "\<And>hops cur n c ps ff. hops = maxSymlinkHops \<Longrightarrow> entry_named env fs cur n = Inr c \<Longrightarrow>
        followed fs c ps ff \<Longrightarrow> P hops cur (n # ps) ff"
    and link: "\<And>hops cur n c ps ff. hops < maxSymlinkHops \<Longrightarrow> entry_named env fs cur n = Inr c \<Longrightarrow>
        followed fs c ps ff \<Longrightarrow> P (hops + 1) (link_base fs cur c) (link_parts fs c) True \<Longrightarrow>
        (\<And>t. P hops t ps ff) \<Longrightarrow> P hops cur (n # ps) ff"
  shows "P hops cur ps ff"
  using assms(1)
proof (induction "maxSymlinkHops - hops" arbitrary: hops cur ps ff rule: less_induct)
  case (less hops cur ps ff)
  note hops = less.prems
  show ?case
  proof (induction ps arbitrary: cur)
    case Nil
    show ?case by (rule arrived [OF hops])
  next
    case (Cons n ps)
    show ?case
    proof (cases "entry_named env fs cur n")
      case (Inl e)
      then show ?thesis by (rule stopped [OF hops])
    next
      case (Inr c)
      consider "\<not> followed fs c ps ff" | "followed fs c ps ff" "hops < maxSymlinkHops"
        | "followed fs c ps ff" "hops = maxSymlinkHops" using hops by linarith
      then show ?thesis
      proof cases
        case 1
        then show ?thesis by (rule entry [OF hops Inr _ Cons.IH])
      next
        case 2
        have "maxSymlinkHops - (hops + 1) < maxSymlinkHops - hops" "hops + 1 \<le> maxSymlinkHops"
          using 2(2) by simp_all
        then show ?thesis by (rule link [OF 2(2) Inr 2(1) less.hyps Cons.IH])
      next
        case 3
        then show ?thesis using limit Inr by blast
      qed
    qed
  qed
qed

section \<open>Resolution stays inside the image\<close>

text \<open>
  The records of the tree: the root the file system traverses, and what the directories of
  the tree list, the special entries excepted.
\<close>

inductive in_tree :: "go_env \<Rightarrow> FS \<Rightarrow> dirRecord \<Rightarrow> bool" for env fs where
  root: "in_tree env fs (fs_root fs)"
| child: "in_tree env fs d \<Longrightarrow> read_dir env fs d = Inr es \<Longrightarrow> e \<in> set es \<Longrightarrow> \<not> isSpecial e
    \<Longrightarrow> in_tree env fs e"

lemma entry_named_child:
  "entry_named env fs d n = Inr c \<Longrightarrow> in_tree env fs d \<Longrightarrow> in_tree env fs c"
  by (auto simp: entry_named_def res_inv split: if_splits option.splits
      dest: lookup_entry_Some intro: in_tree.child)

lemma link_base_in_tree: "in_tree env fs d \<Longrightarrow> in_tree env fs (link_base fs d c)"
  by (simp add: link_base_def in_tree.root)

lemma resolve_walk_in_tree:
  "hops \<le> maxSymlinkHops \<Longrightarrow> in_tree env fs cur \<Longrightarrow> resolve_walk env fs cur ps ff hops = Inr x \<Longrightarrow> in_tree env fs x"
proof (induction hops cur ps ff arbitrary: x rule: walk_induct [where env = env and fs = fs])
  case (entry hops cur n c ps ff)
  then show ?case by (simp add: resolve_walk_follow entry_named_child)
next
  case (link hops cur n c ps ff)
  have base: "in_tree env fs (link_base fs cur c)" by (rule link_base_in_tree [OF link.prems(1)])
  from link.prems(2) link.hyps obtain t
    where "resolve_walk env fs (link_base fs cur c) (link_parts fs c) True (hops + 1) = Inr t"
      and "resolve_walk env fs t ps ff hops = Inr x"
    by (auto simp: resolve_walk_follow resolveFrom.simps res_inv split: if_splits)
  then show ?case using link.IH base by blast
qed (auto simp: resolve_walk_follow resolveFrom.simps)

text \<open>
  Trails of the tree.  A place in the semantics is the record that the code is at.
\<close>

definition trail :: "go_env \<Rightarrow> FS \<Rightarrow> dirRecord list \<Rightarrow> bool" where
  "trail env fs tr \<longleftrightarrow> tr \<noteq> [] \<and> (\<forall>c \<in> set tr. in_tree env fs c)"

definition place :: "dirRecord list res \<Rightarrow> dirRecord res" where
  "place r = res_bind r (\<lambda>tr. Inr (hd tr))"

lemma place_simps [simp]: "place (Inl e) = Inl e" "place (Inr tr) = Inr (hd tr)"
  by (simp_all add: place_def)

lemma trail_hd: "trail env fs tr \<Longrightarrow> in_tree env fs (hd tr)"
  by (simp add: trail_def)

lemma trail_Cons: "trail env fs tr \<Longrightarrow> in_tree env fs c \<Longrightarrow> trail env fs (c # tr)"
  by (simp add: trail_def)

lemma trail_root: "trail env fs [fs_root fs]"
  by (simp add: trail_def in_tree.root)

lemma trail_above: "trail env fs tr \<Longrightarrow> trail env fs (above tr)"
  by (auto simp: trail_def above_def dest: list.set_sel(2))

lemma trail_link_start: "trail env fs tr \<Longrightarrow> trail env fs (link_start fs tr c)"
  by (simp add: link_start_def trail_root)

lemma hd_link_start: "hd (link_start fs tr c) = link_base fs (hd tr) c"
  by (simp add: link_start_def link_base_def)

lemmas trail_intros = trail_hd trail_Cons trail_root trail_above trail_link_start entry_named_child

lemma leads_trail: "leads env fs d k tr ps ff r \<Longrightarrow> r = Inr t \<Longrightarrow> trail env fs tr \<Longrightarrow> trail env fs t"
  by (induction arbitrary: t rule: leads.induct) (auto intro: trail_intros)

section \<open>The code against the semantics\<close>

text \<open>
  The code has no parent component: \<open>".."\<close> is the name of an entry to it.  The trees it is
  compared on have links without one.
\<close>

definition no_parents :: "go_env \<Rightarrow> FS \<Rightarrow> bool" where
  "no_parents env fs \<longleftrightarrow> (\<forall>e. in_tree env fs e \<longrightarrow> parent_name \<notin> set (link_parts fs e))"

lemma no_parentsD: "no_parents env fs \<Longrightarrow> in_tree env fs e \<Longrightarrow> parent_name \<notin> set (link_parts fs e)"
  by (simp add: no_parents_def)

text \<open>Links nested at most as deep as the counter allows are followed as the semantics says.\<close>

lemma leads_resolve_walk:
  assumes "no_parents env fs"
  shows "leads env fs d k tr ps ff r \<Longrightarrow> trail env fs tr \<Longrightarrow> parent_name \<notin> set ps \<Longrightarrow> d + hops \<le> maxSymlinkHops
    \<Longrightarrow> resolve_walk env fs (hd tr) ps ff hops = place r"
proof (induction arbitrary: hops rule: leads.induct)
  case (entry n tr c ps ff d k r)
  then show ?case by (simp add: resolve_walk_follow trail_intros)
next
  case (broken n tr c ps ff d k e)
  have "trail env fs (link_start fs tr c)" "parent_name \<notin> set (link_parts fs c)" "d + Suc hops \<le> maxSymlinkHops"
    using broken.prems no_parentsD [OF assms entry_named_child [OF broken.hyps(2) trail_hd]]
    by (auto intro: trail_intros)
  from broken.IH [OF this] broken.hyps broken.prems show ?case
    by (simp add: resolve_walk_follow resolveFrom.simps hd_link_start)
next
  case (link n tr c ps ff d k t d' k' r)
  have "trail env fs (link_start fs tr c)" "parent_name \<notin> set (link_parts fs c)" "d + Suc hops \<le> maxSymlinkHops"
    and rest: "trail env fs t" "d' + hops \<le> maxSymlinkHops" "parent_name \<notin> set ps"
    using link.prems leads_trail [OF link.hyps(4)] no_parentsD [OF assms entry_named_child [OF link.hyps(2) trail_hd]]
    by (auto intro: trail_intros)
  have "\<not> maxSymlinkHops < Suc hops" using link.prems(3) by simp
  with link.IH(1) [OF \<open>trail env fs (link_start fs tr c)\<close> \<open>parent_name \<notin> set (link_parts fs c)\<close>
      \<open>d + Suc hops \<le> maxSymlinkHops\<close>] link.IH(2) [OF rest(1,3,2)] link.hyps link.prems
  show ?case
    by (simp add: resolve_walk_follow resolveFrom.simps hd_link_start)
qed (simp_all add: resolve_walk_follow resolveFrom.simps)

text \<open>The code makes no other results, except that it gives up.\<close>

definition within :: "go_env \<Rightarrow> FS \<Rightarrow> nat \<Rightarrow> dirRecord list \<Rightarrow> gostring list \<Rightarrow> bool \<Rightarrow> dirRecord res \<Rightarrow> bool" where
  "within env fs hops tr ps ff x \<longleftrightarrow>
     x = Inl (Sentinel ErrTooManyLinks)
     \<or> (\<exists>d k r. d + hops \<le> maxSymlinkHops \<and> leads env fs d k tr ps ff r \<and> x = place r)"

lemma within_gives_up [simp]: "within env fs hops tr ps ff (Inl (Sentinel ErrTooManyLinks))"
  by (simp add: within_def)

lemma withinI: "leads env fs d k tr ps ff r \<Longrightarrow> d + hops \<le> maxSymlinkHops \<Longrightarrow> within env fs hops tr ps ff (place r)"
  by (auto simp: within_def)

lemma withinE:
  assumes "within env fs hops tr ps ff x"
  obtains "x = Inl (Sentinel ErrTooManyLinks)"
    | d k r where "d + hops \<le> maxSymlinkHops" "leads env fs d k tr ps ff r" "x = place r"
  using assms by (auto simp: within_def)

lemma within_link:
  assumes step: "n \<noteq> parent_name" "entry_named env fs (hd tr) n = Inr c" "followed fs c ps ff"
    and at: "trail env fs tr"
    and target: "within env fs (hops + 1) (link_start fs tr c) (link_parts fs c) True x"
    and rest: "\<And>t. x = Inr (hd t) \<Longrightarrow> trail env fs t \<Longrightarrow> within env fs hops t ps ff (f (hd t))"
  shows "within env fs hops tr (n # ps) ff (res_bind x f)"
  using target
proof (cases rule: withinE)
  case (2 d k r)
  show ?thesis
  proof (cases r)
    case (Inl e)
    then show ?thesis using withinI [OF leads.broken [OF step]] 2 by fastforce
  next
    case (Inr t)
    have "trail env fs t" by (rule leads_trail [OF 2(2) Inr trail_link_start [OF at]])
    from rest [OF _ this] 2(3) Inr have "within env fs hops t ps ff (f (hd t))" by simp
    then show ?thesis
    proof (cases rule: withinE)
      case (2 d' k' r')
      moreover have "max (Suc d) d' + hops \<le> maxSymlinkHops"
        using \<open>d + (hops + 1) \<le> maxSymlinkHops\<close> 2(1) by simp
      ultimately show ?thesis
        using withinI [OF leads.link [OF step]] \<open>leads env fs d k _ _ True r\<close> \<open>x = place r\<close> Inr by simp
    qed (simp add: Inr \<open>x = place r\<close>)
  qed
qed simp

lemma resolve_walk_within:
  assumes "no_parents env fs" "hops \<le> maxSymlinkHops"
  shows "trail env fs tr \<Longrightarrow> hd tr = cur \<Longrightarrow> parent_name \<notin> set ps \<Longrightarrow>
    within env fs hops tr ps ff (resolve_walk env fs cur ps ff hops)"
  using assms(2)
proof (induction hops cur ps ff arbitrary: tr rule: walk_induct [where env = env and fs = fs])
  case (arrived hops cur ff)
  then show ?case using withinI [OF leads.arrived] by fastforce
next
  case (stopped hops cur n ps ff e)
  then show ?case
    using withinI [OF leads.stopped, of n tr env fs e hops ps ff] by (auto simp: resolve_walk_follow)
next
  case (entry hops cur n c ps ff)
  have "within env fs hops (c # tr) ps ff (resolve_walk env fs c ps ff hops)"
    using entry.IH [of "c # tr"] entry.prems entry.hyps by (auto intro: trail_intros)
  then show ?case
  proof (cases rule: withinE)
    case (2 d k r)
    moreover have "leads env fs d k tr (n # ps) ff r"
      by (rule leads.entry [OF _ _ entry.hyps(3) 2(2)]) (use entry.prems entry.hyps in auto)
    ultimately show ?thesis
      using withinI entry.hyps by (simp add: resolve_walk_follow)
  qed (use entry.hyps in \<open>simp add: resolve_walk_follow\<close>)
next
  case (link hops cur n c ps ff)
  have start: "trail env fs (link_start fs tr c)" "hd (link_start fs tr c) = link_base fs cur c"
    using link.prems by (simp_all add: trail_link_start hd_link_start)
  have "in_tree env fs c" using link.prems(1,2) link.hyps(2) by (auto intro: trail_intros)
  then have target: "parent_name \<notin> set (link_parts fs c)" by (rule no_parentsD [OF assms(1)])
  have at: "entry_named env fs (hd tr) n = Inr c" "n \<noteq> parent_name" "parent_name \<notin> set ps"
    using link.prems link.hyps by auto
  have "within env fs hops tr (n # ps) ff
      (res_bind (resolve_walk env fs (link_base fs cur c) (link_parts fs c) True (hops + 1))
        (\<lambda>t. resolve_walk env fs t ps ff hops))"
    by (rule within_link [OF at(2,1) link.hyps(3) link.prems(1) link.IH(1) [OF start target]])
      (rule link.IH(2) [OF _ refl at(3)])
  then show ?case
    using link.hyps by (simp add: resolve_walk_follow resolveFrom.simps)
qed (auto simp: resolve_walk_follow resolveFrom.simps)

text \<open>The two together: the result of a lookup, from the derivation.\<close>

lemma resolve_walk_result:
  assumes "no_parents env fs" "parent_name \<notin> set ps" "leads env fs d k [fs_root fs] ps ff r"
  shows "resolve_walk env fs (fs_root fs) ps ff 0
    = (if d \<le> maxSymlinkHops then place r else Inl (Sentinel ErrTooManyLinks))"
proof (cases "d \<le> maxSymlinkHops")
  case True
  then show ?thesis using leads_resolve_walk [OF assms(1,3) trail_root assms(2), of 0] by simp
next
  case False
  then show ?thesis
    using resolve_walk_within [OF assms(1) _ trail_root _ assms(2), of 0 _ ff] leads_det [OF assms(3)]
    by (auto elim!: withinE)
qed

lemma resolve_walk_endless:
  assumes "no_parents env fs" "parent_name \<notin> set ps" "\<nexists>d k r. leads env fs d k [fs_root fs] ps ff r"
  shows "resolve_walk env fs (fs_root fs) ps ff 0 = Inl (Sentinel ErrTooManyLinks)"
  using resolve_walk_within [OF assms(1) _ trail_root _ assms(2), of 0 _ ff] assms(3)
  by (auto elim!: withinE)

section \<open>How many directories a lookup reads\<close>

text \<open>
  The two functions again, with the number of directories read on the way beside the result;
  \<open>reads_result\<close> shows that the result is the one of the code.
\<close>

function resolveFrom_reads ::
    "go_env \<Rightarrow> FS \<Rightarrow> dirRecord \<Rightarrow> gostring list \<Rightarrow> bool \<Rightarrow> nat \<Rightarrow> dirRecord res \<times> nat"
  and walk_reads ::
    "go_env \<Rightarrow> FS \<Rightarrow> dirRecord \<Rightarrow> gostring list \<Rightarrow> bool \<Rightarrow> nat \<Rightarrow> dirRecord res \<times> nat"
where
  "resolveFrom_reads env fs start ps ff hops =
     (if hops > maxSymlinkHops then (Inl (Sentinel ErrTooManyLinks), 0)
      else walk_reads env fs start ps ff hops)"
| "walk_reads env fs cur [] ff hops = (Inr cur, 0)"
| "walk_reads env fs cur (n # ps) ff hops =
     (case entry_named env fs cur n of
        Inl e \<Rightarrow> (Inl e, if isDir cur then 1 else 0)
      | Inr c \<Rightarrow>
          (case if followed fs c ps ff
                then resolveFrom_reads env fs (link_base fs cur c) (link_parts fs c) True (hops + 1)
                else (Inr c, 0) of
             (Inl e, k) \<Rightarrow> (Inl e, 1 + k)
           | (Inr t, k) \<Rightarrow> (case walk_reads env fs t ps ff hops of (r, k') \<Rightarrow> (r, 1 + k + k'))))"
  by pat_completeness auto
termination
  by (relation "measures
        [\<lambda>x. (case x of
            Inl (_, _, _, _, _, h) \<Rightarrow>
              if h > maxSymlinkHops then 0 else 2 * (maxSymlinkHops + 1 - h) + 2
          | Inr (_, _, _, _, _, h) \<Rightarrow> 2 * (maxSymlinkHops + 1 - h) + 1),
         \<lambda>x. (case x of Inl _ \<Rightarrow> 0 | Inr (_, _, _, ps, _, _) \<Rightarrow> length ps)]")
    auto

declare resolveFrom_reads.simps [simp del] walk_reads.simps(2) [simp del]

definition resolve_reads :: "go_env \<Rightarrow> FS \<Rightarrow> gostring \<Rightarrow> dirRecord res \<times> nat" where
  "resolve_reads env fs path = resolveFrom_reads env fs (fs_root fs) (splitPath path) True 0"

lemma reads_result:
  "hops \<le> maxSymlinkHops \<Longrightarrow> fst (walk_reads env fs cur ps ff hops) = resolve_walk env fs cur ps ff hops"
proof (induction hops cur ps ff rule: walk_induct [where env = env and fs = fs])
  case (entry hops cur n c ps ff)
  then show ?case
    by (cases "walk_reads env fs c ps ff hops") (simp add: walk_reads.simps(2) resolve_walk_follow)
next
  case (link hops cur n c ps ff)
  let ?b = "link_base fs cur c" and ?q = "link_parts fs c"
  obtain x k where x: "walk_reads env fs ?b ?q True (hops + 1) = (x, k)"
    by (cases "walk_reads env fs ?b ?q True (hops + 1)") auto
  have "resolve_walk env fs ?b ?q True (hops + 1) = x" using link.IH(1) x by simp
  moreover have "fst (case walk_reads env fs t ps ff hops of (r, k') \<Rightarrow> (r, Suc (k + k')))
      = resolve_walk env fs t ps ff hops" for t
    using link.IH(2) [of t] by (cases "walk_reads env fs t ps ff hops") simp
  ultimately show ?case
    using link.hyps x
    by (cases x) (simp_all add: walk_reads.simps(2) resolveFrom_reads.simps resolve_walk_follow resolveFrom.simps)
qed (simp_all add: walk_reads.simps(2) resolveFrom_reads.simps resolve_walk_follow resolveFrom.simps)

text \<open>
  Where no target has more than \<open>m\<close> components, a component costs one read and, for each level of
  links, \<open>m\<close> times what a component of the next level costs.
\<close>

definition link_width :: "go_env \<Rightarrow> FS \<Rightarrow> nat \<Rightarrow> bool" where
  "link_width env fs m \<longleftrightarrow> (\<forall>e. in_tree env fs e \<longrightarrow> length (link_parts fs e) \<le> m)"

definition part_reads :: "nat \<Rightarrow> nat \<Rightarrow> nat" where
  "part_reads m levels = (\<Sum>i\<le>levels. m ^ i)"

lemma part_reads_simps [simp]:
  "part_reads m 0 = 1" "part_reads m (Suc k) = 1 + m * part_reads m k"
  by (simp_all add: part_reads_def sum.atMost_Suc_shift sum_distrib_left del: sum.atMost_Suc)

lemma walk_reads_bound:
  assumes "link_width env fs m" "hops \<le> maxSymlinkHops" "in_tree env fs cur"
  shows "snd (walk_reads env fs cur ps ff hops) \<le> length ps * part_reads m (maxSymlinkHops - hops)"
  using assms(2,3)
proof (induction hops cur ps ff rule: walk_induct [where env = env and fs = fs])
  case (stopped hops cur n ps ff e)
  have "1 \<le> part_reads m k" for k by (cases k) simp_all
  then show ?case using stopped.hyps by (simp add: walk_reads.simps(2) trans_le_add1)
next
  case (entry hops cur n c ps ff)
  have "1 \<le> part_reads m (maxSymlinkHops - hops)" by (cases "maxSymlinkHops - hops") simp_all
  with entry.IH [OF entry_named_child [OF entry.hyps(2) entry.prems]] entry.hyps show ?case
    by (cases "walk_reads env fs c ps ff hops") (simp add: walk_reads.simps(2))
next
  case (limit hops cur n c ps ff)
  then show ?case by (simp add: walk_reads.simps(2) resolveFrom_reads.simps)
next
  case (link hops cur n c ps ff)
  let ?b = "link_base fs cur c" and ?q = "link_parts fs c"
  obtain k where k: "maxSymlinkHops - hops = Suc k" "maxSymlinkHops - (hops + 1) = k"
    using link.hyps(1) by (metis Suc_diff_Suc Suc_eq_plus1)
  obtain x j where x: "walk_reads env fs ?b ?q True (hops + 1) = (x, j)"
    by (cases "walk_reads env fs ?b ?q True (hops + 1)") auto
  have base: "in_tree env fs ?b" by (rule link_base_in_tree [OF link.prems])
  have "length ?q \<le> m"
    using assms(1) entry_named_child [OF link.hyps(2) link.prems] by (simp add: link_width_def)
  then have j: "1 + j \<le> part_reads m (Suc k)"
    using link.IH(1) [OF base] unfolding x k(2) by (simp add: order_trans [OF _ mult_right_mono])
  show ?case
  proof (cases x)
    case (Inl e)
    then show ?thesis
      using x j link.hyps by (simp add: walk_reads.simps(2) resolveFrom_reads.simps k(1) trans_le_add1)
  next
    case (Inr t)
    have at: "in_tree env fs t"
      using reads_result [of "hops + 1" env fs ?b ?q True] x Inr link.hyps(1)
        resolve_walk_in_tree [of "hops + 1" env fs ?b ?q True t] base by simp
    obtain r j' where r: "walk_reads env fs t ps ff hops = (r, j')"
      by (cases "walk_reads env fs t ps ff hops") auto
    have "j' \<le> length ps * part_reads m (Suc k)"
      using link.IH(2) [of t] at r k(1) by simp
    then show ?thesis
      using x j r Inr link.hyps by (simp add: walk_reads.simps(2) resolveFrom_reads.simps k(1))
  qed
qed simp

section \<open>Links to links\<close>

text \<open>
  Links of the root directory, each but the last with the next one twice in its target, and the
  last with the target \<^verbatim>\<open>"/"\<close>.  Each names the root.
\<close>

definition link_bomb :: "go_env \<Rightarrow> FS \<Rightarrow> (nat \<Rightarrow> gostring) \<Rightarrow> nat \<Rightarrow> bool" where
  "link_bomb env fs l n \<longleftrightarrow>
     (\<forall>i < n. \<exists>c. entry_named env fs (fs_root fs) (l i) = Inr c \<and> rr_isSymlink (rr_of fs c)
        \<and> has_prefix (rr_symlink (rr_of fs c)) [slash]
        \<and> link_parts fs c = (if Suc i = n then [] else [l (Suc i), l (Suc i)]))"

lemma link_bomb_walk:
  assumes "link_bomb env fs l n"
  shows "i < n \<Longrightarrow> hops + (n - i) \<le> maxSymlinkHops \<Longrightarrow> ps \<noteq> [] \<or> ff \<Longrightarrow>
    walk_reads env fs (fs_root fs) (l i # ps) ff hops =
      (case walk_reads env fs (fs_root fs) ps ff hops of (r, k) \<Rightarrow> (r, 2 ^ (n - i) - 1 + k))"
proof (induction "n - i" arbitrary: i hops ps ff)
  case (Suc d)
  let ?root = "fs_root fs"
  obtain c where c: "entry_named env fs ?root (l i) = Inr c" "followed fs c ps ff" "link_base fs ?root c = ?root"
      "link_parts fs c = (if Suc i = n then [] else [l (Suc i), l (Suc i)])"
    using assms Suc.prems(1,3) unfolding link_bomb_def followed_def link_base_def by metis
  have hops: "\<not> hops + 1 > maxSymlinkHops" using Suc.prems(1,2) by linarith
  have "walk_reads env fs ?root (link_parts fs c) True (hops + 1) = (Inr ?root, 2 ^ (n - i) - 2)"
  proof (cases "Suc i = n")
    case True
    then have "n - i = 1" using Suc.prems(1) by simp
    then show ?thesis using c(4) True by simp
  next
    case False
    then have i: "Suc i < n" "d = n - Suc i" "hops + 1 + (n - Suc i) \<le> maxSymlinkHops" "n - i = Suc (n - Suc i)"
      using Suc.prems(1,2) Suc.hyps(2) by simp_all
    have "(1 :: nat) \<le> 2 ^ (n - Suc i)" by simp
    then show ?thesis
      using Suc.hyps(1) [OF i(2,1,3), of "[l (Suc i)]" True] Suc.hyps(1) [OF i(2,1,3), of "[]" True] False
      unfolding c(4) i(4) by simp
  qed
  moreover have "(2 :: nat) \<le> 2 ^ (n - i)" using Suc.prems(1) by (cases "n - i") simp_all
  then obtain q :: nat where "2 ^ (n - i) = 2 + q" by (meson le_iff_add)
  ultimately show ?case
    using hops by (simp add: walk_reads.simps(2) resolveFrom_reads.simps c split: prod.splits)
qed simp

section \<open>Symbolic-link loops\<close>

text \<open>
  Names of one directory that are symbolic links to each other, by relative targets of one
  component: whichever of them a path ends in, resolution stops with \<^verbatim>\<open>ErrTooManyLinks\<close>.
\<close>

definition link_cycle :: "go_env \<Rightarrow> FS \<Rightarrow> dirRecord \<Rightarrow> gostring set \<Rightarrow> bool" where
  "link_cycle env fs d N \<longleftrightarrow> isDir d \<and> (\<exists>es. read_dir env fs d = Inr es \<and>
     (\<forall>n \<in> N. \<exists>e n'. lookup_entry env fs es n = Some e \<and> rr_isSymlink (rr_of fs e)
        \<and> \<not> has_prefix (rr_symlink (rr_of fs e)) [slash]
        \<and> splitPath (rr_symlink (rr_of fs e)) = [n'] \<and> n' \<in> N))"

lemma link_cycle_too_many:
  assumes "link_cycle env fs d N" "n \<in> N"
  shows "resolveFrom env fs d [n] True hops = Inl (Sentinel ErrTooManyLinks)"
  using assms(2)
proof (induction "Suc maxSymlinkHops - hops" arbitrary: hops n)
  case 0
  then show ?case by (simp add: resolveFrom.simps)
next
  case (Suc k)
  obtain es e n' where d: "isDir d" and es: "read_dir env fs d = Inr es"
      and e: "lookup_entry env fs es n = Some e" "rr_isSymlink (rr_of fs e)"
        "\<not> has_prefix (rr_symlink (rr_of fs e)) [slash]"
        "splitPath (rr_symlink (rr_of fs e)) = [n']" "n' \<in> N"
    using assms(1) Suc.prems unfolding link_cycle_def by blast
  have "k = Suc maxSymlinkHops - (hops + 1)" using Suc.hyps(2) by simp
  then have "resolveFrom env fs d [n'] True (hops + 1) = Inl (Sentinel ErrTooManyLinks)"
    by (rule Suc.hyps(1) [OF _ e(5)])
  then show ?case
    using d es e by (simp add: resolveFrom.simps [of env fs d "[n]"] resolve_walk_step)
qed

section \<open>The small image\<close>

lemma sample_split: "splitPath [0x41] = [[0x41]]" "splitPath [0x42] = [[0x42]]"
  by (simp_all add: splitPath_component component_def dot_def slash_def)

lemma sample_entries:
  "entry_named sample_env sample_fs sample_root [0x41] = Inr sample_A"
  "entry_named sample_env sample_fs sample_root [0x42] = Inr sample_B"
  by (simp_all add: entry_named_def sample_read lookup_entry_def sample_rr)

lemma sample_links:
  "followed sample_fs sample_A [] True" "\<not> followed sample_fs sample_B [] True"
  "link_base sample_fs d sample_A = d" "link_parts sample_fs sample_A = [[0x41]]"
  by (simp_all add: followed_def link_base_def link_parts_def sample_rr has_prefix_def slash_def
      sample_split zero_rrInfo_def)

lemma sample_tree: "in_tree sample_env sample_fs e \<Longrightarrow> e = sample_root \<or> e = sample_A \<or> e = sample_B"
proof (induction rule: in_tree.induct)
  case (child d es e)
  then have "isDir d" by (blast intro: read_dir_isDir)
  moreover have "\<not> isDir sample_A" "\<not> isDir sample_B"
    by (simp_all add: sample_A_def sample_B_def zero_dirRecord_def isDir_def)
  ultimately show ?case using child sample_read by auto
qed simp

section \<open>Properties\<close>

text \<open>
  C7: a resolved path stays inside the image: whatever \<open>".."\<close> components or symbolic links,
  absolute or relative, it goes through, what \<^verbatim>\<open>resolve\<close> returns is the root of the chosen
  tree or an entry that a chain of directory listings from that root reaches.
\<close>

theorem resolve_contained:
  assumes "resolve env fs path = Inr r"
  shows "in_tree env fs r"
  using resolve_walk_in_tree [OF _ in_tree.root assms [unfolded resolve_eq_walk]] by simp

theorem resolve_contained_witness: "in_tree sample_env sample_fs sample_B"
  by (rule resolve_contained [OF sample_resolve_B(1)])

text \<open>
  C23: resolution is compositional: a path in two parts resolves as the second part from what
  the first part, links followed, resolves to; an error of the first part is the result.
\<close>

theorem resolve_composed:
  assumes "splitPath q \<noteq> []"
  shows "resolve env fs (p @ slash # q) =
    res_bind (resolve env fs p) (\<lambda>r. resolve_walk env fs r (splitPath q) True 0)"
  by (rule resolveNoFollow_path(2) [OF assms])

theorem resolve_composed_witness:
  "resolve sample_env sample_fs ([0x42] @ slash # [0x41])
   = Inl (Wrap ''%w: %q'' [Sentinel ErrNotDirectory])"
proof -
  have "splitPath [0x41] = [[0x41]]"
    by (rule splitPath_component) (simp add: component_def dot_def slash_def)
  then show ?thesis
    using resolve_composed [of "[0x41]" sample_env sample_fs "[0x42]"] sample_resolve_B(1)
    by (simp add: resolve_walk_step)
      (simp add: sample_B_def zero_dirRecord_def isDir_def)
qed

text \<open>
  C30: symbolic-link loops end.  When the names of a set are links of one directory that only
  lead to names of the set, resolving any of them is \<^verbatim>\<open>ErrTooManyLinks\<close>, from any number of
  hops.
\<close>

theorem link_loop_detected:
  assumes "link_cycle env fs d N" "n \<in> N"
  shows "resolveFrom env fs d [n] True hops = Inl (Sentinel ErrTooManyLinks)"
  by (rule link_cycle_too_many [OF assms])

theorem link_loop_detected_witness:
  "resolveFrom sample_env sample_fs sample_root [[0x41]] True 0 = Inl (Sentinel ErrTooManyLinks)"
proof -
  have "splitPath [0x41] = [[0x41]]"
    by (rule splitPath_component) (simp add: component_def dot_def slash_def)
  moreover have "lookup_entry sample_env sample_fs [sample_A, sample_B] [0x41] = Some sample_A"
    by (simp add: lookup_entry_def sample_rr)
  ultimately have "link_cycle sample_env sample_fs sample_root {[0x41]}"
    using sample_read by (simp add: link_cycle_def sample_rr has_prefix_def slash_def)
  from link_loop_detected [OF this] show ?thesis by simp
qed

text \<open>
  C22: symbolic links are followed as the reference semantics says, for a path and link targets
  without parent components: over at most 40 links in all, a lookup returns the record or the error that
  the semantics leads to; when links are nested more than 40 deep, or the path leads nowhere because links
  lead in a circle, it returns \<^verbatim>\<open>ErrTooManyLinks\<close>.  Without following the final component the
  same holds.  The code takes \<open>".."\<close> as the name of an entry, and it bounds the nesting of links
  and not their number, which \<open>link_bomb_reads\<close> is about; so paths with
  parent components, and more than 40 links that are not nested so deep, are left out here.
\<close>

theorem resolve_follows_links:
  assumes "no_parents env fs" "parent_name \<notin> set (splitPath path)"
  shows "(\<forall>d k r. leads env fs d k [fs_root fs] (splitPath path) ff r \<longrightarrow>
        (k \<le> maxSymlinkHops \<longrightarrow> (if ff then resolve env fs path else resolveNoFollow env fs path) = place r)
      \<and> (maxSymlinkHops < d \<longrightarrow> (if ff then resolve env fs path else resolveNoFollow env fs path)
          = Inl (Sentinel ErrTooManyLinks)))
    \<and> ((\<nexists>d k r. leads env fs d k [fs_root fs] (splitPath path) ff r) \<longrightarrow>
        (if ff then resolve env fs path else resolveNoFollow env fs path)
          = Inl (Sentinel ErrTooManyLinks))"
proof -
  have code: "(if ff then resolve env fs path else resolveNoFollow env fs path)
      = resolve_walk env fs (fs_root fs) (splitPath path) ff 0"
    by (simp add: resolve_def resolveNoFollow_def resolveFrom.simps)
  show ?thesis
  proof (intro conjI allI impI)
    fix d k r assume r: "leads env fs d k [fs_root fs] (splitPath path) ff r"
    note result = resolve_walk_result [OF assms r]
    show "(if ff then resolve env fs path else resolveNoFollow env fs path) = place r" if "k \<le> maxSymlinkHops"
      using result leads_nested [OF r] that unfolding code by simp
    show "(if ff then resolve env fs path else resolveNoFollow env fs path) = Inl (Sentinel ErrTooManyLinks)"
      if "maxSymlinkHops < d"
      using result that unfolding code by simp
  next
    assume "\<nexists>d k r. leads env fs d k [fs_root fs] (splitPath path) ff r"
    then show "(if ff then resolve env fs path else resolveNoFollow env fs path) = Inl (Sentinel ErrTooManyLinks)"
      unfolding code by (rule resolve_walk_endless [OF assms])
  qed
qed

lemma sample_link_parts:
  assumes "in_tree sample_env sample_fs e"
  shows "link_parts sample_fs e = [] \<or> link_parts sample_fs e = [[0x41]]"
proof -
  have "splitPath [] = []" by (simp add: splitPath_def split_on.simps)
  moreover have "rr_of sample_fs sample_root = zero_rrInfo"
    using rrFor_eq [of sample_fs sample_root]
    by (simp add: rrFor_def sample_fs_def sample_root_def zero_dirRecord_def del: rrFor_eq)
  ultimately show ?thesis
    using sample_tree [OF assms] sample_links(4)
    by (auto simp: link_parts_def sample_rr zero_rrInfo_def)
qed

lemma sample_leads_nowhere:
  "leads sample_env sample_fs d k tr ps ff r \<Longrightarrow> hd tr \<noteq> sample_root \<or> ps \<noteq> [[0x41]] \<or> \<not> ff"
proof (induction rule: leads.induct)
  case (broken n tr c ps ff d k e)
  then show ?case
    by (cases "hd tr = sample_root \<and> n = [0x41]") (auto simp: sample_entries sample_links hd_link_start)
next
  case (link n tr c ps ff d k t d' k' r)
  then show ?case
    by (cases "hd tr = sample_root \<and> n = [0x41]") (auto simp: sample_entries sample_links hd_link_start)
qed (auto simp: sample_entries sample_links dot_def)

theorem resolve_follows_links_witness:
  "resolve sample_env sample_fs [0x42] = Inr sample_B
    \<and> resolve sample_env sample_fs [0x41] = Inl (Sentinel ErrTooManyLinks)"
proof -
  have root: "fs_root sample_fs = sample_root" by (simp add: sample_fs_def)
  have free: "no_parents sample_env sample_fs"
    using sample_link_parts unfolding no_parents_def by (fastforce simp: dot_def)
  have "leads sample_env sample_fs 0 0 [sample_root] [[0x42]] True (Inr [sample_B, sample_root])"
    by (rule leads.entry [OF _ _ sample_links(2) leads.arrived]) (simp_all add: sample_entries dot_def)
  moreover have "\<nexists>d k r. leads sample_env sample_fs d k [sample_root] [[0x41]] True r"
    using sample_leads_nowhere by fastforce
  ultimately show ?thesis
    using resolve_follows_links [OF free, of "[0x42]" True]
      resolve_follows_links [OF free, of "[0x41]" True]
    by (auto simp: root sample_split maxSymlinkHops_def dot_def)
qed

text \<open>
  C24: the number of directories a lookup reads is bounded: one for each component, and for each of
  the 40 levels of links as many as a target has components for each component of the level
  before.
\<close>

theorem resolve_reads_bound:
  assumes "\<And>e. in_tree env fs e \<Longrightarrow> length (link_parts fs e) \<le> m"
  shows "fst (resolve_reads env fs path) = resolve env fs path
    \<and> snd (resolve_reads env fs path) \<le> length (splitPath path) * (\<Sum>i\<le>maxSymlinkHops. m ^ i)"
proof -
  have "link_width env fs m" using assms by (simp add: link_width_def)
  from walk_reads_bound [OF this _ in_tree.root, of 0 "splitPath path" True] show ?thesis
    by (simp add: resolve_reads_def resolveFrom_reads.simps reads_result resolve_eq_walk part_reads_def)
qed

theorem resolve_reads_bound_witness:
  "resolve sample_env sample_fs [0x41] = fst (resolve_reads sample_env sample_fs [0x41])
    \<and> snd (resolve_reads sample_env sample_fs [0x41]) \<le> 41"
proof -
  have "length (link_parts sample_fs e) \<le> 1" if "in_tree sample_env sample_fs e" for e
    using sample_link_parts [OF that] by auto
  then have "fst (resolve_reads sample_env sample_fs [0x41]) = resolve sample_env sample_fs [0x41]
      \<and> snd (resolve_reads sample_env sample_fs [0x41]) \<le> length (splitPath [0x41]) * (\<Sum>i\<le>maxSymlinkHops. 1 ^ i)"
    by (rule resolve_reads_bound)
  then show ?thesis by (simp add: sample_split maxSymlinkHops_def)
qed

text \<open>
  C25: the bound on the nesting of links does not bound their number.  A chain of \<open>n\<close> links of the
  root directory, each with the next one twice in its target, is resolved without an
  error when \<open>n\<close> is at most 40, and the root directory is read \<open>2 ^ n - 1\<close> times on the way.
\<close>

theorem link_bomb_reads:
  assumes "link_bomb env fs l n" "0 < n" "n \<le> maxSymlinkHops" "splitPath path = [l 0]"
  shows "resolve env fs path = Inr (fs_root fs) \<and> resolve_reads env fs path = (Inr (fs_root fs), 2 ^ n - 1)"
proof -
  have "resolve_reads env fs path = (Inr (fs_root fs), 2 ^ n - 1)"
    using link_bomb_walk [OF assms(1,2), of 0 "[]" True] assms(3,4)
    by (simp add: resolve_reads_def resolveFrom_reads.simps)
  then show ?thesis
    using reads_result [of 0 env fs "fs_root fs" "splitPath path" True]
    by (simp add: resolve_reads_def resolveFrom_reads.simps resolve_eq_walk)
qed

end
