(* ===== verification/Fixture.thy ===== *)
theory Fixture
  imports ReadBack
begin

text \<open>
  \<^verbatim>\<open>testdata/gen_multiextent.go\<close>: the command that writes the image of the multi-extent tests
  byte by byte, without the Builder, and what the reader makes of that image, from \<^verbatim>\<open>Open\<close>
  to the bytes of the file whose contents are spread over three extents.  Names of the
  command that the package also uses carry the prefix \<open>gen_\<close>.
\<close>

section \<open>The generator\<close>

definition gen_blockSize :: nat where "gen_blockSize = 2048"
definition gen_vdTypePrimary :: byte where "gen_vdTypePrimary = 1"
definition vdTypeTerm :: byte where "vdTypeTerm = 255"
definition flagDir :: byte where "flagDir = 0x02"
definition gen_flagMultiExt :: byte where "gen_flagMultiExt = 0x80"
definition gen_standardID :: "byte list" where "gen_standardID = str ''CD001''"

definition buildDirRecord :: "u32 \<Rightarrow> u32 \<Rightarrow> byte \<Rightarrow> byte list \<Rightarrow> byte list" where
  "buildDirRecord extentLBA sz flags name =
     (let recLen = 33 + length name + (if length name mod 2 = 0 then 1 else 0);
          rec = replicate recLen 0;
          rec = rec[0 := byte_of_nat recLen];
          rec = splice rec 2 (putLE32 extentLBA);
          rec = splice rec 10 (putLE32 sz);
          rec = rec[25 := flags];
          rec = rec[32 := byte_of_nat (length name)]
      in splice rec 33 name)"

definition rep :: "byte \<Rightarrow> nat \<Rightarrow> byte list" where
  "rep b n = map (\<lambda>_. b) (replicate n (0 :: byte))"

text \<open>The constants of \<^verbatim>\<open>main\<close>.\<close>

definition pvdLBA :: nat where "pvdLBA = 16"
definition termLBA :: nat where "termLBA = 17"
definition rootLBA :: nat where "rootLBA = 18"
definition extALBA :: nat where "extALBA = 19"
definition extBLBA :: nat where "extBLBA = 20"
definition extCLBA :: nat where "extCLBA = 21"
definition plainLBA :: nat where "plainLBA = 22"
definition totalBlks :: nat where "totalBlks = 23"

definition big :: "byte list" where "big = str ''BIG.BIN;1''"
definition plain :: "byte list" where "plain = str ''PLAIN.TXT;1''"
definition dataA :: "byte list" where "dataA = rep 0xAA 1500"
definition dataB :: "byte list" where "dataB = rep 0xBB 2048"
definition dataC :: "byte list" where "dataC = rep 0xCC 700"
definition dataP :: "byte list" where
  "dataP = str ''ordinary single-extent sibling'' @ [0x0A]"

text \<open>
  The slices \<^verbatim>\<open>pvd\<close>, \<^verbatim>\<open>term\<close> and \<^verbatim>\<open>root\<close> share the array of \<^verbatim>\<open>img\<close>: a store into one of
  them is a store into the image, at the offset the slice starts at.
\<close>

definition write_pvd :: "byte list \<Rightarrow> byte list" where
  "write_pvd img =
     (let pvd = pvdLBA * gen_blockSize;
          img = img[pvd + 0 := gen_vdTypePrimary];
          img = splice img (pvd + 1) gen_standardID;
          img = splice img (pvd + 40) (str ''MULTIEXTENT_FIXTURE'');
          img = splice img (pvd + 80) (putLE32 (of_nat totalBlks));
          img = splice img (pvd + 128) (putLE16 (of_nat gen_blockSize))
      in splice img (pvd + 156) (buildDirRecord (of_nat rootLBA) (of_nat gen_blockSize) flagDir [0x00]))"

definition write_term :: "byte list \<Rightarrow> byte list" where
  "write_term img =
     (let term = termLBA * gen_blockSize;
          img = img[term + 0 := vdTypeTerm]
      in splice img (term + 1) gen_standardID)"

text \<open>The closure \<^verbatim>\<open>put\<close>: the image and the position in the root directory.\<close>

definition put :: "byte list \<Rightarrow> byte list \<times> nat \<Rightarrow> byte list \<times> nat" where
  "put rec s = (case s of (img, pos) \<Rightarrow>
     (splice img (rootLBA * gen_blockSize + pos) rec, pos + length rec))"

definition root_records :: "byte list list" where
  "root_records =
     [buildDirRecord (of_nat rootLBA) (of_nat gen_blockSize) flagDir [0x00],
      buildDirRecord (of_nat rootLBA) (of_nat gen_blockSize) flagDir [0x01],
      buildDirRecord (of_nat extALBA) (of_nat (length dataA)) gen_flagMultiExt big,
      buildDirRecord (of_nat extBLBA) (of_nat (length dataB)) gen_flagMultiExt big,
      buildDirRecord (of_nat extCLBA) (of_nat (length dataC)) 0x00 big,
      buildDirRecord (of_nat plainLBA) (of_nat (length dataP)) 0x00 plain]"

definition write_root :: "byte list \<Rightarrow> byte list" where
  "write_root img = fst (fold put root_records (img, 0))"

definition write_data :: "byte list \<Rightarrow> byte list" where
  "write_data img =
     (let img = splice img (extALBA * gen_blockSize) dataA;
          img = splice img (extBLBA * gen_blockSize) dataB;
          img = splice img (extCLBA * gen_blockSize) dataC
      in splice img (plainLBA * gen_blockSize) dataP)"

definition fixture_image :: "byte list" where
  "fixture_image =
     write_data (write_root (write_term (write_pvd (replicate (totalBlks * gen_blockSize) 0))))"

text \<open>\<^verbatim>\<open>main\<close>: \<open>os_WriteFile\<close> is the host's \<^verbatim>\<open>os.WriteFile\<close> on a world of its own.\<close>

definition gen_main ::
  "(gostring \<Rightarrow> byte list \<Rightarrow> 'w \<Rightarrow> 'w \<times> goerror option) \<Rightarrow> gostring list \<Rightarrow> 'w \<Rightarrow> 'w \<times> unit res"
where
  "gen_main os_WriteFile args w =
     (let img = fixture_image in
      if length args < 2
      then (w, Inl (Panic ''usage: go run testdata/gen_multiextent.go <output.iso>''))
      else case os_WriteFile (args ! 1) img w of
        (w', Some e) \<Rightarrow> (w', Inl (Panic ''write''))
      | (w', None) \<Rightarrow> (w', Inr ()))"

section \<open>A record of the generator\<close>

text \<open>The fields of a record, in order; the date and the big-endian halves stay zero.\<close>

definition build_len :: "nat \<Rightarrow> nat" where
  "build_len n = 33 + n + (if even n then 1 else 0)"

definition build_fields :: "u32 \<Rightarrow> u32 \<Rightarrow> byte \<Rightarrow> byte list \<Rightarrow> byte list" where
  "build_fields lba sz f name =
     [byte_of_nat (build_len (length name))] @ [0] @ putLE32 lba @ zeros 4 @ putLE32 sz @ zeros 11
     @ [f] @ zeros 6 @ [byte_of_nat (length name)] @ name @ zeros (build_len (length name) - 33 - length name)"

lemma buildDirRecord_fields: "buildDirRecord lba sz f name = build_fields lba sz f name"
proof -
  let ?n = "length name" and ?r = "build_len (length name)"
  have l: "33 + ?n + (if ?n mod 2 = 0 then 1 else 0) = ?r"
    by (simp add: build_len_def even_iff_mod_2_eq_zero)
  have n: "?r = 1 + (1 + (4 + (4 + (4 + (11 + (1 + (6 + (1 + (?n + (?r - 33 - ?n))))))))))"
    by (simp add: build_len_def)
  have r: "replicate ?r (0 :: byte) = zeros 1 @ zeros 1 @ zeros 4 @ zeros 4 @ zeros 4 @ zeros 11 @ zeros 1
      @ zeros 6 @ zeros 1 @ zeros ?n @ zeros (?r - 33 - ?n)"
    unfolding zeros_def [symmetric] by (subst n) (simp only: zeros_add)
  show ?thesis
    unfolding buildDirRecord_def l Let_def r build_fields_def
    by (simp add: update_splice splice_fields)
qed

lemma length_buildDirRecord [simp]: "length (buildDirRecord lba sz f name) = build_len (length name)"
  by (simp add: buildDirRecord_fields build_fields_def build_len_def)

lemma buildDirRecord_nonempty [simp]: "buildDirRecord lba sz f name \<noteq> []"
  by (simp add: buildDirRecord_fields build_fields_def)

definition built :: "u32 \<Rightarrow> u32 \<Rightarrow> byte \<Rightarrow> byte list \<Rightarrow> dirRecord" where
  "built lba sz f name =
     \<lparr>dr_Length = byte_of_nat (build_len (length name)), dr_ExtentLBA = lba, dr_Size = sz,
      dr_Flags = f, dr_rawName = name, dr_Name = cleanName name, dr_sysUse = [], dr_extents = None\<rparr>"

lemma buildDirRecord_parse:
  assumes "length name \<le> 221"
  shows "record_ok (buildDirRecord lba sz f name @ rest)"
    "record_at (buildDirRecord lba sz f name @ rest) = built lba sz f name"
    "unat ((buildDirRecord lba sz f name @ rest) ! 0) = build_len (length name)"
proof -
  let ?n = "length name" and ?r = "build_len (length name)"
  let ?b = "buildDirRecord lba sz f name @ rest"
  note fields = buildDirRecord_fields build_fields_def
  have r: "?r < 256" "33 + ?n \<le> ?r" using assms by (simp_all add: build_len_def)
  have b0: "unat (?b ! 0) = ?r" using r(1) by (simp add: fields)
  have b32: "unat (?b ! 32) = ?n" using assms by (simp add: fields nth_append)
  have len: "?r \<le> length ?b" by simp
  show "record_ok ?b"
    using r len b0 b32 by (auto simp: record_ok_def fields)
  show "unat (?b ! 0) = ?r" by (rule b0)
  have d2: "projr (le32 (drop 2 ?b)) = lba" by (simp add: fields)
  have d10: "projr (le32 (drop 10 ?b)) = sz" by (simp add: fields)
  have b25: "?b ! 25 = f" by (simp add: fields nth_append)
  have nm: "take ?n (drop 33 ?b) = name" by (simp add: fields)
  have s: "33 + ?n + (if even ?n then 1 else 0) = ?r" by (simp add: build_len_def)
  have su: "drop ?r (take ?r ?b) = []" by simp
  have hd: "?b ! 0 = byte_of_nat ?r" by (simp add: fields)
  show "record_at ?b = built lba sz f name"
    unfolding record_at_def Let_def b0 b32 d2 d10 b25 nm s hd built_def using r(1) by simp
qed

lemma clean_buildDirRecord:
  assumes "length name \<le> 221"
  shows "clean_record (buildDirRecord lba sz f name)"
    "record_at (buildDirRecord lba sz f name) = built lba sz f name"
  using buildDirRecord_parse [OF assms, of lba sz f] buildDirRecord_parse [OF assms, of lba sz f "[]"]
  by (simp_all add: clean_record_def)

section \<open>The image, sector by sector\<close>

definition sector :: "byte list \<Rightarrow> nat \<Rightarrow> byte list" where
  "sector img k = take 2048 (drop (k * 2048) img)"

lemma splice_slice:
  assumes "lo \<le> at" "at + length s \<le> lo + n" "lo + n \<le> length b"
  shows "take n (drop lo (splice b at s)) = splice (take n (drop lo b)) (at - lo) s"
  by (rule nth_equalityI) (use assms in \<open>auto simp: nth_splice add.commute\<close>)

lemma sector_store:
  "k * 2048 \<le> at \<Longrightarrow> at + length s \<le> k * 2048 + 2048 \<Longrightarrow> k * 2048 + 2048 \<le> length img
   \<Longrightarrow> sector (splice img at s) k = splice (sector img k) (at - k * 2048) s"
  by (simp add: sector_def splice_slice)

lemma sector_keep:
  "k * 2048 + 2048 \<le> at \<or> at + length s \<le> k * 2048 \<Longrightarrow> sector (splice img at s) k = sector img k"
  by (simp add: sector_def take_drop_splice_disjoint)

lemma sector_zeros: "k * 2048 + 2048 \<le> n \<Longrightarrow> sector (replicate n 0) k = zeros 2048"
  by (simp add: sector_def zeros_def)

lemmas fixture_consts = pvdLBA_def termLBA_def rootLBA_def extALBA_def extBLBA_def extCLBA_def
  plainLBA_def totalBlks_def gen_blockSize_def

lemma fixture_lengths [simp]:
  "length gen_standardID = 5" "length dataA = 1500" "length dataB = 2048" "length dataC = 700"
  "length dataP = 31" "length big = 9" "length plain = 11"
  by (simp_all add: gen_standardID_def dataA_def dataB_def dataC_def dataP_def rep_def big_def plain_def)

text \<open>The two descriptors.\<close>

definition gen_pvd :: "byte list" where
  "gen_pvd = [gen_vdTypePrimary] @ gen_standardID @ zeros 34 @ str ''MULTIEXTENT_FIXTURE'' @ zeros 21
     @ putLE32 (of_nat totalBlks) @ zeros 44 @ putLE16 (of_nat gen_blockSize) @ zeros 26
     @ buildDirRecord (of_nat rootLBA) (of_nat gen_blockSize) flagDir [0x00] @ zeros 1858"

definition gen_term :: "byte list" where
  "gen_term = [vdTypeTerm] @ gen_standardID @ zeros 2042"

lemma length_write [simp]:
  "length (write_pvd img) = length img" "length (write_term img) = length img"
  "length (write_data img) = length img"
  by (simp_all add: write_pvd_def write_term_def write_data_def Let_def)

lemma sector_write_pvd:
  assumes "length img = 47104"
  shows "k \<noteq> 16 \<Longrightarrow> sector (write_pvd img) k = sector img k"
    "sector img 16 = zeros 2048 \<Longrightarrow> sector (write_pvd img) 16 = gen_pvd"
proof -
  have z: "zeros 2048 = zeros 1 @ zeros 5 @ zeros 34 @ zeros 19 @ zeros 21 @ zeros 4 @ zeros 44 @ zeros 2
      @ zeros 26 @ zeros 34 @ zeros 1858"
    by (simp only: zeros_add [symmetric]) simp
  show "sector (write_pvd img) k = sector img k" if "k \<noteq> 16"
  proof -
    have "k < 16 \<or> 16 < k" using that by arith
    then show ?thesis
      using assms by (auto simp: write_pvd_def Let_def fixture_consts update_splice sector_keep build_len_def)
  qed
  show "sector (write_pvd img) 16 = gen_pvd" if "sector img 16 = zeros 2048"
    using assms that unfolding write_pvd_def Let_def gen_pvd_def
    by (simp add: fixture_consts update_splice sector_store build_len_def z splice_fields)
qed

lemma sector_write_term:
  assumes "length img = 47104"
  shows "k \<noteq> 17 \<Longrightarrow> sector (write_term img) k = sector img k"
    "sector img 17 = zeros 2048 \<Longrightarrow> sector (write_term img) 17 = gen_term"
proof -
  have z: "zeros 2048 = zeros 1 @ zeros 5 @ zeros 2042"
    by (simp only: zeros_add [symmetric]) simp
  show "sector (write_term img) k = sector img k" if "k \<noteq> 17"
  proof -
    have "k < 17 \<or> 17 < k" using that by arith
    then show ?thesis
      using assms by (auto simp: write_term_def Let_def fixture_consts update_splice sector_keep)
  qed
  show "sector (write_term img) 17 = gen_term" if "sector img 17 = zeros 2048"
    using assms that unfolding write_term_def Let_def gen_term_def
    by (simp add: fixture_consts update_splice sector_store z splice_fields)
qed

text \<open>
  The root directory: as the records stay within one sector, \<^verbatim>\<open>put\<close> does what the Builder's
  \<^verbatim>\<open>emit\<close> does.
\<close>

lemma place_record_inside: "0 < l \<Longrightarrow> pos + l \<le> 2048 \<Longrightarrow> place_record pos l = pos"
  by (simp add: place_record_def sectorSize_def)

lemma fold_put:
  assumes "list_all (\<lambda>r. r \<noteq> []) rs" "pos + sum_list (map length rs) \<le> 2048" "38912 \<le> length img"
  shows "emit_all rs (sector img 18, pos)
      = Inr (sector (fst (fold put rs (img, pos))) 18, pos + sum_list (map length rs))
    \<and> length (fst (fold put rs (img, pos))) = length img
    \<and> (\<forall>k. k \<noteq> 18 \<longrightarrow> sector (fst (fold put rs (img, pos))) k = sector img k)"
  using assms
proof (induction rs arbitrary: img pos)
  case (Cons r rs)
  let ?img = "splice img (36864 + pos) r"
  have r: "0 < length r" "pos + length r \<le> 2048" using Cons.prems(1,2) by simp_all
  have step: "put r (img, pos) = (?img, pos + length r)"
    by (simp add: put_def fixture_consts)
  have IH: "list_all (\<lambda>r. r \<noteq> []) rs" "pos + length r + sum_list (map length rs) \<le> 2048"
      "38912 \<le> length ?img"
    using Cons.prems by simp_all
  have len: "length (sector img 18) = 2048" using Cons.prems(3) by (simp add: sector_def)
  have sec: "sector ?img 18 = splice (sector img 18) pos r"
    using sector_store [of 18 "36864 + pos" r img] r Cons.prems(3) by simp
  have "sector ?img k = sector img k" if "k \<noteq> 18" for k
    by (rule sector_keep) (use that r in arith)
  then show ?case
    using Cons.IH [OF IH] r len sec
    by (simp add: step emit_def place_record_inside add.assoc)
qed simp

lemma sector_write_data:
  assumes "length img = 47104"
  shows "k < 19 \<Longrightarrow> sector (write_data img) k = sector img k"
    "sector img 19 = zeros 2048 \<Longrightarrow> take 1500 (sector (write_data img) 19) = dataA"
    "sector img 20 = zeros 2048 \<Longrightarrow> take 2048 (sector (write_data img) 20) = dataB"
    "sector img 21 = zeros 2048 \<Longrightarrow> take 700 (sector (write_data img) 21) = dataC"
    "sector img 22 = zeros 2048 \<Longrightarrow> take 31 (sector (write_data img) 22) = dataP"
  using assms
  by (simp_all add: write_data_def Let_def fixture_consts sector_keep sector_store)
    (simp_all add: splice_def)

lemma root_records_lengths: "map length root_records = [34, 34, 42, 42, 42, 44]"
  by (simp add: root_records_def build_len_def)

lemma root_records_fit:
  "list_all (\<lambda>r. r \<noteq> []) root_records" "0 + sum_list (map length root_records) \<le> 2048"
  unfolding root_records_lengths by (simp_all add: root_records_def)

lemma fixture_length [simp]: "length fixture_image = 47104"
proof -
  have "length (write_root img) = length img" if "length img = 47104" for img
    using fold_put [OF root_records_fit, of img] that by (simp add: write_root_def)
  then show ?thesis by (simp add: fixture_image_def fixture_consts)
qed

lemma fixture_sectors:
  "sector fixture_image 16 = gen_pvd" "sector fixture_image 17 = gen_term"
  "take 1500 (sector fixture_image 19) = dataA" "take 2048 (sector fixture_image 20) = dataB"
  "take 700 (sector fixture_image 21) = dataC" "take 31 (sector fixture_image 22) = dataP"
  "emit_all root_records (zeros 2048, 0)
     = Inr (sector fixture_image 18, sum_list (map length root_records))"
proof -
  let ?blank = "replicate 47104 (0 :: byte)"
  let ?img = "write_term (write_pvd ?blank)"
  have z: "sector ?blank k = zeros 2048" if "k < 23" for k
    using that by (simp add: sector_zeros)
  have img: "sector ?img 16 = gen_pvd" "sector ?img 17 = gen_term"
    "18 \<le> k \<Longrightarrow> k < 23 \<Longrightarrow> sector ?img k = zeros 2048" for k
    using z by (simp_all add: sector_write_pvd sector_write_term)
  have "38912 \<le> length ?img" by simp
  note root = fold_put [OF root_records_fit this, folded write_root_def]
  have len: "length (write_root ?img) = 47104" using root by simp
  have eq: "fixture_image = write_data (write_root ?img)"
    by (simp add: fixture_image_def fixture_consts)
  note data = sector_write_data [OF len, folded eq]
  have keep: "sector (write_root ?img) k = sector ?img k" if "k \<noteq> 18" for k
    using root that by blast
  show "sector fixture_image 16 = gen_pvd" "sector fixture_image 17 = gen_term"
    using data(1) keep img by simp_all
  show "take 1500 (sector fixture_image 19) = dataA" "take 2048 (sector fixture_image 20) = dataB"
    "take 700 (sector fixture_image 21) = dataC" "take 31 (sector fixture_image 22) = dataP"
    using data(2-5) keep img(3) by simp_all
  show "emit_all root_records (zeros 2048, 0)
     = Inr (sector fixture_image 18, sum_list (map length root_records))"
    using root data(1) [of 18] img(3) [of 18] by simp
qed

text \<open>A read that stays within one sector.\<close>

lemma sector_bytes:
  assumes "k * 2048 + 2048 \<le> length img" "n \<le> 2048"
  shows "bytes_at (image_content img) (int k * 2048) n = take n (sector img k)"
proof -
  have "int k * 2048 + int n \<le> int (length img)" using assms by linarith
  moreover have "nat (int k * 2048) = k * 2048" by simp
  ultimately show ?thesis
    using bytes_at_image [of "int k * 2048" n img] assms(2) by (simp add: sector_def min_def)
qed

lemma fixture_bytes:
  "k < 23 \<Longrightarrow> n \<le> 2048 \<Longrightarrow>
   bytes_at (image_content fixture_image) (int k * 2048) n = take n (sector fixture_image k)"
  by (rule sector_bytes) simp_all

section \<open>What the reader makes of it\<close>

definition fixture_volume :: Volume where
  "fixture_volume = zero_Volume\<lparr>v_VolumeID := str ''MULTIEXTENT_FIXTURE'', v_SpaceSize := 23,
     v_BlockSize := 2048, v_pvdRoot := built 18 2048 flagDir [0x00]\<rparr>"

lemma gen_pvd_length [simp]: "length gen_pvd = 2048" "length gen_term = 2048"
  by (simp_all add: gen_pvd_def gen_term_def build_len_def)

lemma gen_standardID_eq: "gen_standardID = standardID"
  by (simp add: gen_standardID_def standardID_def)

lemma fixture_id: "trimSpace (str ''MULTIEXTENT_FIXTURE'' @ zeros 13) = str ''MULTIEXTENT_FIXTURE''"
  by (simp add: trimSpace_def trim_right_def zeros_def dropWhile_append) (simp add: str_def)

lemma descriptor_step_gen_pvd: "descriptor_step gen_pvd zero_Volume h = Inr (fixture_volume, True, False)"
proof -
  let ?p = gen_pvd
  have a: "subslice ?p 1 6 = Inr standardID" "index ?p 0 = Inr vdTypePrimary"
    by (simp_all add: subslice_def index_def)
      (simp_all add: gen_pvd_def gen_standardID_eq [symmetric] gen_vdTypePrimary_def vdTypePrimary_def)
  have vid: "subslice ?p 40 72 = Inr (str ''MULTIEXTENT_FIXTURE'' @ zeros 13)"
    by (simp add: subslice_def) (simp add: gen_pvd_def zeros_def)
  have spc: "res_bind (slice_from ?p 80) le32 = Inr 23"
    by simp (simp add: gen_pvd_def totalBlks_def)
  have bs: "res_bind (slice_from ?p 128) le16 = Inr 2048"
    by simp (simp add: gen_pvd_def gen_blockSize_def)
  have d: "drop 156 ?p = buildDirRecord 18 2048 flagDir [0x00] @ zeros 1858"
    by (simp add: gen_pvd_def rootLBA_def gen_blockSize_def)
  have root: "slice_from ?p 156 = Inr (drop 156 ?p)" by simp
  have "parseDirRecord (drop 156 ?p) = Inr (built 18 2048 flagDir [0x00], build_len 1)"
    using parseDirRecord_ok buildDirRecord_parse [of "[0x00]" 18 2048 flagDir "zeros 1858"] by (simp add: d)
  then have "decode_primary ?p zero_Volume = Inr fixture_volume"
    unfolding decode_primary_def Let_def vid spc bs root
    by (simp add: fixture_id fixture_volume_def)
  then show ?thesis unfolding descriptor_step_def a by simp
qed

lemma descriptor_step_gen_term: "descriptor_step gen_term v True = Inr (v, True, True)"
proof -
  have "subslice gen_term 1 6 = Inr standardID" "index gen_term 0 = Inr vdTypeTerminator"
    by (simp_all add: subslice_def index_def)
      (simp_all add: gen_term_def gen_standardID_eq [symmetric] vdTypeTerm_def vdTypeTerminator_def)
  then show ?thesis
    unfolding descriptor_step_def
    by (simp add: vdTypeTerminator_def vdTypePrimary_def vdTypeSupplement_def)
qed

text \<open>The root directory: the three records of the big file become one entry.\<close>

definition big_entry :: dirRecord where
  "big_entry = (built 19 1500 gen_flagMultiExt big)
     \<lparr>dr_extents := Some [\<lparr>ext_lba = 19, ext_size = 1500\<rparr>, \<lparr>ext_lba = 20, ext_size = 2048\<rparr>,
        \<lparr>ext_lba = 21, ext_size = 700\<rparr>], dr_Flags := 0, dr_Size := 4248\<rparr>"

definition root_runs :: "run list" where
  "root_runs =
     [Single (built 18 2048 flagDir [0x00]), Single (built 18 2048 flagDir [0x01]),
      Run (built 19 1500 gen_flagMultiExt big) [built 20 2048 gen_flagMultiExt big] (built 21 700 0 big),
      Single (built 22 31 0 plain)]"

definition root_listing :: "dirRecord list" where
  "root_listing = [built 18 2048 flagDir [0x00], built 18 2048 flagDir [0x01], big_entry, built 22 31 0 plain]"

lemma root_records_parse:
  "list_all clean_record root_records"
  "map record_at root_records = concat (map run_records root_runs)"
  by (simp_all add: root_records_def root_runs_def clean_buildDirRecord fixture_consts)

lemma root_runs_ok: "x \<in> set root_runs \<Longrightarrow> run_ok x"
  by (auto simp: root_runs_def built_def isDir_def multiExt_def run_size_def flagDir_def
      gen_flagMultiExt_def flagDirectory_def flagMultiExt_def)

lemma root_runs_entries: "map run_entry root_runs = root_listing"
  by (simp add: root_runs_def root_listing_def big_entry_def built_def run_size_def rec_extent_def)

lemma root_parse:
  "res_bind (parse_records 2048 (sector fixture_image 18) 0) mergeMultiExtent = Inr root_listing"
proof -
  have "zero_from 0 (zeros 2048)" "end_pos 0 (map length root_records) \<le> length (zeros 2048)"
    by (simp_all add: zero_from_def zeros_def root_records_lengths place_record_inside)
  from emit_all_parse [OF root_records_parse(1) this] fixture_sectors(7)
  have "parse_records 2048 (sector fixture_image 18) 0 = Inr (concat (map run_records root_runs))"
    by (auto simp: sectorSize_def root_records_parse(2))
  moreover have "length (concat (map run_records root_runs)) < 2 ^ 32" by (simp add: root_runs_def)
  note merge_runs [OF root_runs_ok this, unfolded root_runs_entries]
  ultimately show ?thesis by (simp only: res_bind_simps)
qed

section \<open>Mounted\<close>

abbreviation fixture_reader :: "reader \<Rightarrow> bool" where
  "fixture_reader rs \<equiv> reader_at rs (image_content fixture_image) (int (length fixture_image))"

abbreviation root_record :: dirRecord where
  "root_record \<equiv> built 18 2048 flagDir [0x00]"

definition fixture_fs :: "reader \<Rightarrow> goerror option option \<Rightarrow> FS" where
  "fixture_fs rs closer =
     \<lparr>fs_rs = rs, fs_size = 47104, fs_vol = fixture_volume, fs_root = root_record,
      fs_joliet = False, fs_suspSkip = 0, fs_closer = closer\<rparr>"

text \<open>Of an image that starts with the two descriptors and a root directory of one sector.\<close>

definition fixture_like :: "byte list \<Rightarrow> bool" where
  "fixture_like img \<longleftrightarrow> 19 * 2048 \<le> length img \<and> sector img 16 = gen_pvd \<and> sector img 17 = gen_term"

lemma readVolume_like:
  assumes dev: "reader_at rs (image_content img) (int (length img))" and img: "fixture_like img"
  shows "readVolume rs = Inr fixture_volume"
proof -
  have d: "descriptor_at (image_content img) 16 = gen_pvd"
    "descriptor_at (image_content img) 17 = gen_term"
    using sector_bytes [of 16 img 2048] sector_bytes [of 17 img 2048] img
    by (simp_all add: descriptor_at_def sectorSize_def fixture_like_def)
  have "scan (map (descriptor_at (image_content img)) [systemAreaSectors..<18]) zero_Volume False
      = Inr (Some fixture_volume)"
    by (simp add: systemAreaSectors_def upt_rec d descriptor_step_gen_pvd descriptor_step_gen_term)
  from strict_device.readVolume_scan [OF reader_at.strict_before_end [OF dev] this] img show ?thesis
    by (simp add: systemAreaSectors_def maxDescriptorSector_def sectorSize_def fixture_like_def)
qed

lemma read_dir_like:
  assumes dev: "reader_at rs (image_content img) (int (length img))" and img: "fixture_like img"
    and fs: "fs_rs fs = rs" "fs_size fs = int (length img)" "fs_vol fs = fixture_volume"
    and parsed: "res_bind (parse_records 2048 (sector img 18) 0) mergeMultiExtent = Inr es"
  shows "read_dir env fs root_record = Inr es"
proof -
  have len: "int (18 * 2048 + 2048) \<le> int (length img)" using img by (simp add: fixture_like_def)
  have off: "ext_off fixture_volume (rec_extent root_record) = 36864"
    by (simp add: ext_off_def fixture_volume_def rec_extent_def built_def)
  have "bytes_at (image_content img) 36864 2048 = sector img 18"
    using sector_bytes [of 18 img 2048] img by (simp add: sector_def fixture_like_def)
  moreover have "unat (dr_Size root_record) = 2048" "isDir root_record"
      "unat (v_BlockSize fixture_volume) = 2048"
    by (simp_all add: built_def isDir_def flagDir_def flagDirectory_def fixture_volume_def)
  moreover have "read_dir env fs root_record =
      readDirRecords (env_grow env) rs fixture_volume root_record (int (length img))"
    by (simp add: read_dir_def fs allocCeiling_def)
  ultimately show ?thesis
    using device.readDirRecords_complete [OF reader_at.axioms(1) [OF dev], of root_record _ fixture_volume]
      parsed len by (simp add: off)
qed

lemma fixture_image_like: "fixture_like fixture_image"
  by (simp add: fixture_like_def fixture_sectors)

lemma readVolume_fixture: "fixture_reader rs \<Longrightarrow> readVolume rs = Inr fixture_volume"
  by (rule readVolume_like [OF _ fixture_image_like])

lemma read_dir_fixture:
  "fixture_reader rs \<Longrightarrow> fs_rs fs = rs \<Longrightarrow> fs_size fs = 47104 \<Longrightarrow> fs_vol fs = fixture_volume \<Longrightarrow>
   read_dir env fs root_record = Inr root_listing"
  by (rule read_dir_like [OF _ fixture_image_like _ _ _ root_parse]) simp_all

lemma Open_fixture:
  assumes dev: "fixture_reader rs"
  shows "Open env rs 47104 closer = Inr (fixture_fs rs closer)"
proof -
  let ?fs = "\<lparr>fs_rs = rs, fs_size = 47104, fs_vol = fixture_volume, fs_root = zero_dirRecord,
     fs_joliet = False, fs_suspSkip = 0, fs_closer = closer\<rparr>"
  have v: "v_pvdRoot fixture_volume = root_record" "\<not> v_hasJoliet fixture_volume"
    by (simp_all add: fixture_volume_def zero_Volume_def)
  have "find (\<lambda>e. length (dr_rawName e) = 1 \<and> dr_rawName e ! 0 = 0x00) root_listing = Some root_record"
    by (simp add: root_listing_def built_def)
  moreover have "dr_sysUse root_record = []" by (simp add: built_def)
  ultimately have "primarySUSP env ?fs = Inr (0, False)"
    using read_dir_fixture [OF dev, of ?fs env] v by (simp add: primarySUSP_def detectSUSPSkip_nil)
  then show ?thesis
    using readVolume_fixture [OF dev] v by (simp add: Open_def chooseTree_def fixture_fs_def)
qed

text \<open>Names, and the entry each leads to.\<close>

lemma fixture_names:
  "cleanName big = str ''BIG.BIN''" "cleanName plain = str ''PLAIN.TXT''"
  by (simp_all add: big_def plain_def str_def cleanName_def cut_version_eq trim_suffix_def semicolon_def dot_def)

lemma fixture_entries:
  "name_of (fixture_fs rs closer) big_entry = str ''BIG.BIN''"
  "name_of (fixture_fs rs closer) (built 22 31 0 plain) = str ''PLAIN.TXT''"
  "\<not> isSpecial big_entry" "\<not> isSpecial (built 22 31 0 plain)"
  "isSpecial (built 18 2048 flagDir [0x00])" "isSpecial (built 18 2048 flagDir [0x01])"
  "rr_of (fixture_fs rs closer) big_entry = zero_rrInfo"
  "rr_of (fixture_fs rs closer) (built 22 31 0 plain) = zero_rrInfo"
  "\<not> isDir big_entry" "\<not> isDir (built 22 31 0 plain)" "isDir root_record"
  by (simp_all add: name_of_plain rr_of_plain big_entry_def built_def fixture_fs_def fixture_names isSpecial_def
      isDir_def flagDir_def flagDirectory_def)

lemma fixture_lookup:
  "upper_ascii k = str ''BIG.BIN'' \<Longrightarrow>
     lookup_entry env (fixture_fs rs closer) root_listing k = Some big_entry"
  "upper_ascii k = str ''PLAIN.TXT'' \<Longrightarrow>
     lookup_entry env (fixture_fs rs closer) root_listing k = Some (built 22 31 0 plain)"
proof -
  let ?fs = "fixture_fs rs closer"
  have upper: "ascii (name_of ?fs e) \<and> upper_ascii (name_of ?fs e) = name_of ?fs e"
    if "e \<in> set root_listing" "\<not> isSpecial e" for e
    using that fixture_entries(1,2,5,6)
    by (auto simp: root_listing_def) (auto simp: str_def ascii_def upper_ascii_def upper_byte_def)
  have ne: "str ''BIG.BIN'' \<noteq> str ''PLAIN.TXT''" by (simp add: str_def)
  have first: "lookup_entry env ?fs root_listing (str ''BIG.BIN'') = Some big_entry"
    by (rule lookup_entry_first [where pre = "take 2 root_listing" and post = "drop 3 root_listing"])
      (auto simp: root_listing_def fixture_entries)
  have second: "lookup_entry env ?fs root_listing (str ''PLAIN.TXT'') = Some (built 22 31 0 plain)"
    by (rule lookup_entry_first [where pre = "take 3 root_listing" and post = "[]"])
      (use ne in \<open>auto simp: root_listing_def fixture_entries\<close>)
  show "lookup_entry env ?fs root_listing k = Some big_entry" if "upper_ascii k = str ''BIG.BIN''"
    by (rule lookup_entry_upper [OF upper first fixture_entries(1) that])
  show "lookup_entry env ?fs root_listing k = Some (built 22 31 0 plain)"
    if "upper_ascii k = str ''PLAIN.TXT''"
    by (rule lookup_entry_upper [OF upper second fixture_entries(2) that])
qed

lemma fixture_read_root:
  "fixture_reader rs \<Longrightarrow> read_dir env (fixture_fs rs closer) root_record = Inr root_listing"
  by (rule read_dir_fixture) (simp_all add: fixture_fs_def)

lemma fixture_resolve:
  assumes dev: "fixture_reader rs" and path: "splitPath path = [k]"
    and found: "lookup_entry env (fixture_fs rs closer) root_listing k = Some e" "dr_sysUse e = []"
  shows "resolve env (fixture_fs rs closer) path = Inr e"
proof -
  let ?fs = "fixture_fs rs closer"
  have "fs_root ?fs = root_record" by (simp add: fixture_fs_def)
  then show ?thesis
    by (simp add: resolve_def resolveFrom.simps path maxSymlinkHops_def resolve_walk_step
        fixture_read_root [OF dev] fixture_entries found rr_of_plain)
qed

lemma fixture_data: "dataA = replicate 1500 0xAA" "dataB = replicate 2048 0xBB" "dataC = replicate 700 0xCC"
  by (simp_all add: dataA_def dataB_def dataC_def rep_def map_replicate_const)

text \<open>Where the bytes are: three sectors hold the big file, one the other.\<close>

lemma fixture_contents:
  assumes dev: "fixture_reader rs"
  shows "readFile gc rs fixture_volume big_entry 47104 = Inr (dataA @ dataB @ dataC)"
    "readFile gc rs fixture_volume (built 22 31 0 plain) 47104 = Inr dataP"
proof -
  let ?c = "image_content fixture_image"
  note R = device.readFile_complete [OF reader_at.axioms(1) [OF dev]]
  have off: "ext_off fixture_volume \<lparr>ext_lba = of_nat k, ext_size = s\<rparr> = int k * 2048" if "k < 23" for k s
    using that by (simp add: ext_off_def fixture_volume_def unat_u32_of_nat)
  note offs = off [of 19] off [of 20] off [of 21] off [of 22]
  have bytes: "bytes_at ?c 38912 1500 = dataA" "bytes_at ?c 40960 2048 = dataB"
    "bytes_at ?c 43008 700 = dataC" "bytes_at ?c 45056 31 = dataP"
    using fixture_bytes [of 19 1500] fixture_bytes [of 20 2048] fixture_bytes [of 21 700]
      fixture_bytes [of 22 31] fixture_sectors by simp_all
  have big: "rec_extents big_entry = [\<lparr>ext_lba = 19, ext_size = 1500\<rparr>, \<lparr>ext_lba = 20, ext_size = 2048\<rparr>,
      \<lparr>ext_lba = 21, ext_size = 700\<rparr>]" "unat (dr_Size big_entry) = 4248" "\<not> isDir big_entry"
    by (simp_all add: rec_extents_def big_entry_def isDir_def)
  have plain: "rec_extents (built 22 31 0 plain) = [\<lparr>ext_lba = 22, ext_size = 31\<rparr>]"
    "unat (dr_Size (built 22 31 0 plain)) = 31" "\<not> isDir (built 22 31 0 plain)"
    by (simp_all add: rec_extents_def built_def isDir_def)
  have "readFile gc rs fixture_volume big_entry 47104 = Inr (file_bytes ?c fixture_volume big_entry)"
    by (rule R) (use offs in \<open>auto simp: big extents_len_def ext_len_def maxInt_def\<close>)
  then show "readFile gc rs fixture_volume big_entry 47104 = Inr (dataA @ dataB @ dataC)"
    using offs bytes by (simp add: file_bytes_def extents_bytes_def big extents_len_def ext_len_def)
  have "readFile gc rs fixture_volume (built 22 31 0 plain) 47104
      = Inr (file_bytes ?c fixture_volume (built 22 31 0 plain))"
    by (rule R) (use offs in \<open>auto simp: plain extents_len_def ext_len_def maxInt_def\<close>)
  then show "readFile gc rs fixture_volume (built 22 31 0 plain) 47104 = Inr dataP"
    using offs bytes by (simp add: file_bytes_def extents_bytes_def plain extents_len_def ext_len_def)
qed

section \<open>Properties\<close>

text \<open>
  C32: the image of the multi-extent tests, on any reader that serves it: \<^verbatim>\<open>Open\<close> accepts it and
  finds its volume, the root directory lists exactly two files, the three records of the first
  are one file whose bytes are those of its three extents in order, with their total size, and the
  file after it is left alone.  The paths may be written in either case.
\<close>

theorem fixture_reads_back:
  assumes "reader_at rs (image_content fixture_image) (int (length fixture_image))"
  shows "\<exists>fs. Open env rs (int (length fixture_image)) closer = Inr fs
    \<and> v_VolumeID (FS_Volume fs) = str ''MULTIEXTENT_FIXTURE'' \<and> v_SpaceSize (FS_Volume fs) = 23
    \<and> ListDir env fs (str ''/'') =
         Inr [\<lparr>de_ino = 19, de_name = str ''BIG.BIN'', de_type = 0\<rparr>,
              \<lparr>de_ino = 22, de_name = str ''PLAIN.TXT'', de_type = 0\<rparr>]
    \<and> (\<forall>path k. splitPath path = [k] \<longrightarrow>
         (upper_ascii k = str ''BIG.BIN'' \<longrightarrow>
            ReadFile env fs path = Inr (replicate 1500 0xAA @ replicate 2048 0xBB @ replicate 700 0xCC)
            \<and> FS_Stat env fs path = Inr \<lparr>st_mode = modeFileDefault, st_size = 4248, st_ino = 19\<rparr>)
         \<and> (upper_ascii k = str ''PLAIN.TXT'' \<longrightarrow>
              ReadFile env fs path = Inr (str ''ordinary single-extent sibling'' @ [0x0A])))"
proof -
  let ?fs = "fixture_fs rs closer"
  have fields: "fs_rs ?fs = rs" "fs_vol ?fs = fixture_volume" "allocCeiling (fs_size ?fs) = 47104"
    by (simp_all add: fixture_fs_def allocCeiling_def)
  have entry: "dr_sysUse big_entry = []" "dr_sysUse (built 22 31 0 plain) = []"
    "dr_Size big_entry = 4248" "dr_ExtentLBA big_entry = 19"
    by (simp_all add: big_entry_def built_def)
  have res: "resolve env ?fs path = Inr e"
    if "splitPath path = [k]" "lookup_entry env ?fs root_listing k = Some e" "dr_sysUse e = []" for path k e
    using fixture_resolve [OF assms that] .
  have read: "ReadFile env ?fs path = Inr (replicate 1500 0xAA @ replicate 2048 0xBB @ replicate 700 0xCC)"
    "FS_Stat env ?fs path = Inr \<lparr>st_mode = modeFileDefault, st_size = 4248, st_ino = 19\<rparr>"
    if "splitPath path = [k]" "upper_ascii k = str ''BIG.BIN''" for path k
    using res [OF that(1) fixture_lookup(1) [OF that(2)] entry(1)]
    by (simp_all add: ReadFile_def FS_Stat_def fields fixture_contents(1) [OF assms] fixture_data
        fixture_entries entry)
  have other: "ReadFile env ?fs path = Inr dataP"
    if "splitPath path = [k]" "upper_ascii k = str ''PLAIN.TXT''" for path k
    using res [OF that(1) fixture_lookup(2) [OF that(2)] entry(2)]
    by (simp add: ReadFile_def fields fixture_contents(2) [OF assms])
  have "resolve env ?fs (str ''/'') = Inr root_record"
    by (simp add: resolve_def resolveFrom.simps splitPath_def str_def slash_def maxSymlinkHops_def fixture_fs_def)
  then have "ListDir env ?fs (str ''/'') =
       Inr [\<lparr>de_ino = 19, de_name = str ''BIG.BIN'', de_type = 0\<rparr>,
            \<lparr>de_ino = 22, de_name = str ''PLAIN.TXT'', de_type = 0\<rparr>]"
    unfolding ListDir_eq
    by (simp add: fixture_read_root [OF assms] root_listing_def fixture_entries)
      (simp add: big_entry_def built_def)
  moreover have "v_VolumeID (FS_Volume ?fs) = str ''MULTIEXTENT_FIXTURE''" "v_SpaceSize (FS_Volume ?fs) = 23"
    by (simp_all add: FS_Volume_def fields fixture_volume_def)
  ultimately show ?thesis
    using Open_fixture [OF assms, of env closer] read other
    by (intro exI [of _ ?fs]) (simp add: dataP_def)
qed

theorem fixture_reads_back_witness:
  "\<exists>fs. Open sample_env (bytes_reader fixture_image) (int (length fixture_image)) None = Inr fs
     \<and> ReadFile sample_env fs (str ''/big.bin'')
         = Inr (replicate 1500 0xAA @ replicate 2048 0xBB @ replicate 700 0xCC)"
proof -
  have "splitPath (str ''/big.bin'') = [str ''big.bin'']" "upper_ascii (str ''big.bin'') = str ''BIG.BIN''"
    by (simp_all add: splitPath_def str_def slash_def dot_def upper_ascii_def upper_byte_def)
  then show ?thesis
    using fixture_reads_back [OF mem.reader_at_axioms, of sample_env None] by blast
qed

text \<open>
  The command writes that image and nothing else, to the file its argument names; without an
  argument, or when the host refuses the file, it panics.
\<close>

lemma gen_main_writes:
  "gen_main host [p, f] w = (case host f fixture_image w of
     (w', None) \<Rightarrow> (w', Inr ()) | (w', Some e) \<Rightarrow> (w', Inl (Panic ''write'')))"
  "length args < 2 \<Longrightarrow> fst (gen_main host args w) = w \<and> (\<exists>m. snd (gen_main host args w) = Inl (Panic m))"
  by (auto simp: gen_main_def Let_def split: option.splits prod.splits)

end
