(* ===== verification/LinkBomb.thy ===== *)
theory LinkBomb
  imports Links Fixture
begin

text \<open>
  An image on which one lookup reads the root directory more than a million million times: forty
  symbolic links in a root directory of one sector.  It has the descriptors of the image of theory
  Fixture.
\<close>

section \<open>The image\<close>

definition bomb_size :: nat where "bomb_size = 40"

definition bomb_name :: "nat \<Rightarrow> byte" where "bomb_name i = byte_of_nat (0x41 + i)"

text \<open>The target of a link: the next one twice, from the root; of the last, the root.\<close>

definition bomb_chunks :: "nat \<Rightarrow> (byte \<times> sl_rec list) list" where
  "bomb_chunks i =
     (let x = (0, [bomb_name (Suc i)]) in
      [(0, sl_root # (if Suc i = bomb_size then [] else [x, x]))])"

definition bomb_bytes :: "nat \<Rightarrow> byte list" where
  "bomb_bytes i = sample_entry (bomb_name i) (sl_area (bomb_chunks i))"

definition bomb_dir :: "byte list" where
  "bomb_dir = concat (map bomb_bytes [0..<bomb_size])"

definition bomb_image :: "byte list" where
  "bomb_image = splice fixture_image (rootLBA * gen_blockSize) (bomb_dir @ zeros (2048 - length bomb_dir))"

text \<open>The records the reader makes of it.\<close>

definition bomb_record :: "nat \<Rightarrow> dirRecord" where
  "bomb_record i = zero_dirRecord\<lparr>dr_Length := byte_of_nat (34 + length (sl_area (bomb_chunks i))),
     dr_rawName := [bomb_name i], dr_Name := [bomb_name i], dr_sysUse := sl_area (bomb_chunks i)\<rparr>"

lemma length_bomb_area: "length (sl_area (bomb_chunks i)) = (if Suc i = bomb_size then 7 else 13)"
  by (simp add: sl_area_def bomb_chunks_def sl_bytes_def sl_root_def Let_def)

lemma length_bomb_bytes: "length (bomb_bytes i) \<le> 47"
  by (simp add: bomb_bytes_def sample_entry_def length_bomb_area)

lemma unat_bomb_name: "i < bomb_size \<Longrightarrow> unat (bomb_name i) = 0x41 + i"
  by (simp add: bomb_name_def bomb_size_def)

lemma bomb_name_plain:
  assumes "i < bomb_size"
  shows "bomb_name i \<noteq> 0" "bomb_name i \<noteq> 1" "bomb_name i \<noteq> semicolon" "bomb_name i \<noteq> dot" "bomb_name i \<noteq> slash"
proof -
  have "bomb_name i \<noteq> b" if "unat b < 0x41" for b using unat_bomb_name [OF assms] that by auto
  then show "bomb_name i \<noteq> 0" "bomb_name i \<noteq> 1" "bomb_name i \<noteq> semicolon" "bomb_name i \<noteq> dot"
    "bomb_name i \<noteq> slash"
    by (simp_all add: semicolon_def dot_def slash_def)
qed

lemma bomb_name_inj: "i < bomb_size \<Longrightarrow> j < bomb_size \<Longrightarrow> bomb_name i = bomb_name j \<longleftrightarrow> i = j"
  by (metis unat_bomb_name add_left_cancel)

lemma bomb_bytes_clean:
  assumes "i < bomb_size"
  shows "clean_record (bomb_bytes i)" "record_at (bomb_bytes i) = bomb_record i"
proof -
  have len: "length (sl_area (bomb_chunks i)) \<le> 200" by (simp add: length_bomb_area)
  note R = sample_record [OF len bomb_name_plain(1-4) [OF assms]]
  have "unat (bomb_bytes i ! 0) = length (bomb_bytes i)"
    using len by (simp add: bomb_bytes_def sample_entry_def)
  then show "clean_record (bomb_bytes i)" "record_at (bomb_bytes i) = bomb_record i"
    using R R [of "[]"] by (simp_all add: clean_record_def bomb_bytes_def bomb_record_def)
qed

text \<open>Records one after the other in a sector are read one after the other.\<close>

lemma parse_concat:
  "list_all clean_record rs \<Longrightarrow>
   parse_records sectorSize (pre @ concat rs @ zeros k) (length pre) = Inr (map record_at rs)"
proof (induction rs arbitrary: pre)
  case Nil
  have "zero_from (length pre) (pre @ zeros k)" by (auto simp: zero_from_def nth_append zeros_def)
  then show ?case by (simp add: parse_records_zeros sectorSize_def)
next
  case (Cons r rs)
  then have r: "clean_record r" by simp
  from Cons.IH [of "pre @ r"] Cons.prems
  have "parse_records sectorSize (pre @ concat (r # rs) @ zeros k) (length pre + length r) = Inr (map record_at rs)"
    by simp
  from parse_clean_record(1) [OF r _ this] show ?case by simp
qed

lemma bomb_dir_parse:
  "res_bind (parse_records 2048 (bomb_dir @ zeros k) 0) mergeMultiExtent = Inr (map bomb_record [0..<bomb_size])"
proof -
  have "list_all clean_record (map bomb_bytes [0..<bomb_size])"
    using bomb_bytes_clean(1) by (auto simp: list_all_iff)
  from parse_concat [OF this, of "[]" k]
  have "parse_records 2048 (bomb_dir @ zeros k) 0 = Inr (map record_at (map bomb_bytes [0..<bomb_size]))"
    by (simp add: bomb_dir_def sectorSize_def)
  moreover have "map record_at (map bomb_bytes [0..<bomb_size]) = map bomb_record [0..<bomb_size]"
    using bomb_bytes_clean(2) by simp
  moreover have "mergeMultiExtent (map bomb_record is) = Inr (map bomb_record is)" for "is"
    by (rule merge_single) (simp add: list_all_iff bomb_record_def multiExt_def zero_dirRecord_def)
  ultimately show ?thesis by (simp only: res_bind_simps)
qed

lemma length_bomb_dir: "length bomb_dir \<le> 2048"
proof -
  have "length (concat (map bomb_bytes is)) \<le> 47 * length is" for "is"
    using length_bomb_bytes by (induction "is") (simp_all add: add_mono)
  from this [of "[0..<bomb_size]"] show ?thesis by (simp add: bomb_dir_def bomb_size_def)
qed

lemma bomb_image_length: "length bomb_image = 47104"
  by (simp add: bomb_image_def)

lemma bomb_image_root: "sector bomb_image 18 = bomb_dir @ zeros (2048 - length bomb_dir)"
proof -
  have "length (sector fixture_image 18) = 2048" by (simp add: sector_def)
  then show ?thesis
    using length_bomb_dir by (simp add: bomb_image_def fixture_consts sector_store splice_whole)
qed

lemma bomb_image_like: "fixture_like bomb_image"
  using fixture_sectors(1,2) length_bomb_dir
  by (simp add: fixture_like_def bomb_image_length) (simp add: bomb_image_def fixture_consts sector_keep)

section \<open>The reader on the image\<close>

abbreviation bomb_fs :: FS where
  "bomb_fs \<equiv> fixture_fs (bytes_reader bomb_image) None"

abbreviation bomb_listing :: "dirRecord list" where
  "bomb_listing \<equiv> map bomb_record [0..<bomb_size]"

lemma bomb_read:
  assumes "fs_rs fs = bytes_reader bomb_image" "fs_size fs = 47104" "fs_vol fs = fixture_volume"
  shows "read_dir env fs root_record = Inr bomb_listing"
  by (rule read_dir_like [OF mem.reader_at_axioms bomb_image_like assms(1) _ assms(3)])
    (simp_all add: assms(2) bomb_image_length bomb_image_root bomb_dir_parse)

lemma bomb_record_name: "dr_rawName (bomb_record i) = [bomb_name i]" "dr_Name (bomb_record i) = [bomb_name i]"
  "dr_sysUse (bomb_record i) = sl_area (bomb_chunks i)"
  by (simp_all add: bomb_record_def)

lemma Open_bomb: "Open env (bytes_reader bomb_image) 47104 None = Inr bomb_fs"
proof -
  let ?fs = "\<lparr>fs_rs = bytes_reader bomb_image, fs_size = 47104, fs_vol = fixture_volume, fs_root = zero_dirRecord,
     fs_joliet = False, fs_suspSkip = 0, fs_closer = None\<rparr>"
  have v: "v_pvdRoot fixture_volume = root_record" "\<not> v_hasJoliet fixture_volume"
    by (simp_all add: fixture_volume_def zero_Volume_def)
  have "find (\<lambda>e. length (dr_rawName e) = 1 \<and> dr_rawName e ! 0 = 0x00) bomb_listing = None"
    using bomb_name_plain(1) by (auto simp: find_None_iff bomb_record_name)
  then have "primarySUSP env ?fs = Inr (0, False)"
    using bomb_read [of ?fs env] v by (simp add: primarySUSP_def)
  moreover have "readVolume (bytes_reader bomb_image) = Inr fixture_volume"
    by (rule readVolume_like [OF mem.reader_at_axioms bomb_image_like])
  ultimately show ?thesis using v by (simp add: Open_def chooseTree_def fixture_fs_def)
qed

definition bomb_target :: "nat \<Rightarrow> gostring" where
  "bomb_target i =
     (if Suc i = bomb_size then [slash] else [slash, bomb_name (Suc i), slash, bomb_name (Suc i)])"

lemma bomb_rr:
  assumes "i < bomb_size"
  shows "rr_of bomb_fs (bomb_record i) = zero_rrInfo\<lparr>rr_isSymlink := True, rr_symlink := bomb_target i\<rparr>"
proof -
  let ?area = "sl_area (bomb_chunks i)"
  let ?xs = "if Suc i = bomb_size then [] else [CName [] [bomb_name (Suc i)], CName [] [bomb_name (Suc i)]]"
  have plain: "bomb_name (Suc i) \<noteq> slash" if "Suc i \<noteq> bomb_size"
    using bomb_name_plain(5) [of "Suc i"] assms that by simp
  have "parseRockRidge ?area = Inr (zero_rrInfo\<lparr>rr_isSymlink := True,
      rr_symlink := (if True then [slash] else []) @ join_path (map sl_text ?xs)\<rparr>)"
    by (rule parseRockRidge_sl) (auto simp: bomb_chunks_def sl_bytes_def sl_root_def Let_def plain plain [symmetric])
  moreover have "[slash] @ join_path (map sl_text ?xs) = bomb_target i"
    by (simp add: bomb_target_def)
  ultimately have pr: "parseRockRidge ?area = Inr (zero_rrInfo\<lparr>rr_isSymlink := True, rr_symlink := bomb_target i\<rparr>)"
    by simp
  have "ceEntry ?area = Inr None"
    by (simp add: sl_area_def bomb_chunks_def Let_def ceEntry.simps susp_head_eq susp_entry_def chr_defs
        sl_bytes_def byte_of_nat_def sl_root_def)
  then have "collectSUSP bomb_fs ?area = Inr ?area"
    by (simp add: collectSUSP_def eval_nat_numeral)
  then have "rrFor bomb_fs (bomb_record i) = Inr (zero_rrInfo\<lparr>rr_isSymlink := True, rr_symlink := bomb_target i\<rparr>)"
    using pr length_bomb_area [of i]
    by (simp add: rrFor_def bomb_record_name fixture_fs_def del: rrFor_eq split: if_splits)
  then show ?thesis by (simp only: rr_of_def sum.sel)
qed

lemma bomb_component: "i < bomb_size \<Longrightarrow> component [bomb_name i]"
  using bomb_name_plain(4,5) [of i] by (auto simp: component_def)

lemma bomb_parts:
  assumes "i < bomb_size"
  shows "link_parts bomb_fs (bomb_record i)
    = (if Suc i = bomb_size then [] else [[bomb_name (Suc i)], [bomb_name (Suc i)]])"
proof (cases "Suc i = bomb_size")
  case True
  then show ?thesis
    using splitPath_join(2) [of "[]"] by (simp add: link_parts_def bomb_rr [OF assms] bomb_target_def)
next
  case False
  then have "component [bomb_name (Suc i)]" using bomb_component [of "Suc i"] assms by simp
  then show ?thesis
    using splitPath_join(2) [of "[[bomb_name (Suc i)], [bomb_name (Suc i)]]"] False
    by (simp add: link_parts_def bomb_rr [OF assms] bomb_target_def)
qed

lemma bomb_entry:
  assumes "i < bomb_size"
  shows "entry_named env bomb_fs root_record [bomb_name i] = Inr (bomb_record i)"
proof -
  have name: "name_of bomb_fs (bomb_record j) = [bomb_name j]" if "j < bomb_size" for j
    using effectiveName_eq [of bomb_fs "bomb_record j"] bomb_rr [OF that]
    by (simp add: effectiveName_def bomb_record_name zero_rrInfo_def fixture_fs_def del: effectiveName_eq)
  have plain: "\<not> isSpecial (bomb_record j)" if "j < bomb_size" for j
    using bomb_name_plain [OF that] by (simp add: isSpecial_def bomb_record_name)
  have "[0..<bomb_size] = [0..<i] @ i # [Suc i..<bomb_size]"
    using assms upt_add_eq_append [of 0 i "bomb_size - i"] by (simp add: upt_conv_Cons)
  then have "bomb_listing = map bomb_record [0..<i] @ bomb_record i # map bomb_record [Suc i..<bomb_size]"
    by simp
  then have "lookup_entry env bomb_fs bomb_listing [bomb_name i] = Some (bomb_record i)"
    by (rule lookup_entry_first [OF _ plain [OF assms] name [OF assms]])
      (use assms name bomb_name_inj in auto)
  then show ?thesis
    using bomb_read [of bomb_fs env] fixture_entries(11)
    by (simp add: entry_named_def fixture_fs_def)
qed

lemma bomb_links: "link_bomb env bomb_fs (\<lambda>i. [bomb_name i]) bomb_size"
proof -
  have "fs_root bomb_fs = root_record" by (simp add: fixture_fs_def)
  moreover have "has_prefix (bomb_target i) [slash]" for i
    by (simp add: bomb_target_def has_prefix_def)
  ultimately show ?thesis
    unfolding link_bomb_def using bomb_entry bomb_rr bomb_parts by auto
qed

text \<open>
  The image of 47104 bytes is accepted, its first link leads to the root directory, and the lookup
  that finds this out reads the root directory 1099511627775 times.
\<close>

theorem link_bomb_reads_witness:
  "\<exists>fs. Open sample_env (bytes_reader bomb_image) (int (length bomb_image)) None = Inr fs
     \<and> length bomb_image = 47104
     \<and> resolve_reads sample_env fs (str ''/A'') = (Inr (fs_root fs), 1099511627775)"
proof -
  have "splitPath (str ''/A'') = [[bomb_name 0]]"
    by (simp add: splitPath_def str_def slash_def dot_def bomb_name_def byte_of_nat_def)
  from link_bomb_reads [OF bomb_links _ _ this] show ?thesis
    using Open_bomb [of sample_env] by (simp add: bomb_image_length bomb_size_def maxSymlinkHops_def)
qed

end
